(* ===== verification/Prelude.thy ===== *)
theory Prelude
  imports Main "HOL-Library.Word" "HOL-Library.Multiset"
begin

text \<open>
  Shared vocabulary of the development: the names of the Go types the models use, the
  result type of a Go call that may fail, the collections of simplification rules, and the
  list lemmas more than one component needs.

  A Go \<open>string\<close> is a sequence of bytes; so is an Isabelle \<open>string\<close> (a list of 8-bit
  \<open>char\<close>s), and the models keep Go strings at the byte level. A \<open>[]byte\<close> is a list of
  8-bit words.
\<close>

section \<open>Go types\<close>

type_synonym gostring = string
type_synonym byte = "8 word"
type_synonym bytes = "8 word list"

definition newline :: char where
  "newline = CHR 0x0A"

text \<open>
  The result of a Go function that returns \<open>(value, error)\<close>: the value, the message of the
  error, or a run-time panic.
\<close>

datatype 'a go = Return 'a | Error gostring | Panic gostring

fun go_bind :: "'a go \<Rightarrow> ('a \<Rightarrow> 'b go) \<Rightarrow> 'b go" where
  "go_bind (Return x) f = f x"
| "go_bind (Error e) f = Error e"
| "go_bind (Panic p) f = Panic p"

lemma go_bind_cong [fundef_cong]:
  "r = s \<Longrightarrow> (\<And>x. s = Return x \<Longrightarrow> f x = g x) \<Longrightarrow> go_bind r f = go_bind s g"
  by (cases s) simp_all

text \<open>\<open>fmt.Errorf("ctx: %w", err)\<close>: the error is passed on with a prefix.\<close>

fun go_wrap :: "gostring \<Rightarrow> 'a go \<Rightarrow> 'a go" where
  "go_wrap ctx (Return x) = Return x"
| "go_wrap ctx (Error e) = Error (ctx @ '': '' @ e)"
| "go_wrap ctx (Panic p) = Panic p"

fun go_ok :: "'a go \<Rightarrow> bool" where
  "go_ok (Return x) = True"
| "go_ok (Error e) = False"
| "go_ok (Panic p) = False"

lemma go_bind_Return_iff:
  "go_bind r f = Return y \<longleftrightarrow> (\<exists>x. r = Return x \<and> f x = Return y)"
  by (cases r) auto

lemma go_wrap_Return_iff [simp]: "go_wrap c r = Return y \<longleftrightarrow> r = Return y"
  by (cases r) auto

lemma go_wrap_Panic_iff [simp]: "go_wrap c r = Panic p \<longleftrightarrow> r = Panic p"
  by (cases r) auto

lemma go_ok_iff: "go_ok r \<longleftrightarrow> (\<exists>x. r = Return x)"
  by (cases r) auto

section \<open>Rule collections\<close>

named_theorems callsign_laws \<open>what Issue and Release do to the pool\<close>
named_theorems queue_laws \<open>what the player's operations do to its queue\<close>
named_theorems utf8_laws \<open>encoding and decoding of runes\<close>

section \<open>Lists\<close>

lemma set_butlast_distinct:
  "distinct xs \<Longrightarrow> xs \<noteq> [] \<Longrightarrow> set (butlast xs) = set xs - {last xs}"
proof (induction xs rule: rev_induct)
  case Nil
  then show ?case by simp
next
  case (snoc x xs)
  then show ?case by auto
qed

lemma distinct_snoc [simp]: "distinct (xs @ [x]) \<longleftrightarrow> distinct xs \<and> x \<notin> set xs"
  by auto

lemma last_notin_butlast: "distinct xs \<Longrightarrow> xs \<noteq> [] \<Longrightarrow> last xs \<notin> set (butlast xs)"
  by (metis append_butlast_last_id distinct_snoc)

lemma length_filter_all:
  assumes "length (filter P xs) = length xs"
  shows "\<forall>x \<in> set xs. P x"
proof (rule ccontr)
  assume "\<not> (\<forall>x \<in> set xs. P x)"
  then obtain x where "x \<in> set xs" "\<not> P x" by blast
  then have "length (filter P xs) < length xs" by (rule length_filter_less)
  with assms show False by simp
qed

end
