(* ===== verification/Callsign.thy ===== *)
theory Callsign
  imports Prelude
begin

text \<open>
  The callsign pool of the game server, \<open>app/wl-game-server/callsign.go\<close>: the list of the
  132 callsigns a prefix admits, its shuffle, and the manager that issues callsigns and
  takes them back. The manager's mutex makes each operation atomic; each is one function
  from the manager to the new manager.

  The interface the session code relies on is the locale \<open>callsign_provider\<close>; it is
  interpreted on the manager at the end of the file.
\<close>

section \<open>The pool\<close>

definition allChars :: "char list" where
  "allChars = ''ABCDEGJKPRVZ''"

definition firstChars :: "char list" where
  "firstChars = ''ABDEGJKPRVZ''"

record CallsignManager =
  prefix :: gostring
  pool :: "gostring list"
  issued :: "gostring set"

text \<open>Two nested loops; \<open>fmt.Sprintf("%s%c%c", prefix, c1, c2)\<close> appends two ASCII runes.\<close>

definition buildPool :: "gostring \<Rightarrow> gostring list" where
  "buildPool pre = concat (map (\<lambda>c1. map (\<lambda>c2. pre @ [c1, c2]) allChars) firstChars)"

definition swap_at :: "nat \<Rightarrow> nat \<Rightarrow> 'a list \<Rightarrow> 'a list" where
  "swap_at i j xs = xs[i := xs ! j, j := xs ! i]"

text \<open>
  \<open>rand.Shuffle\<close> walks \<open>i\<close> from \<open>n - 1\<close> down to 1 and swaps position \<open>i\<close> with a random
  position in \<open>[0, i]\<close>. The random source is the argument \<open>rnd\<close>: any number, reduced to
  the range \<open>Int31n (i + 1)\<close> guarantees.
\<close>

fun shuffle_from :: "(nat \<Rightarrow> nat) \<Rightarrow> nat \<Rightarrow> 'a list \<Rightarrow> 'a list" where
  "shuffle_from rnd 0 xs = xs"
| "shuffle_from rnd (Suc i) xs =
     shuffle_from rnd i (swap_at (Suc i) (rnd (Suc i) mod Suc (Suc i)) xs)"

definition shuffle :: "(nat \<Rightarrow> nat) \<Rightarrow> 'a list \<Rightarrow> 'a list" where
  "shuffle rnd xs = shuffle_from rnd (length xs - 1) xs"

definition NewCallsignManager :: "(nat \<Rightarrow> nat) \<Rightarrow> gostring \<Rightarrow> CallsignManager" where
  "NewCallsignManager rnd pre =
     \<lparr>prefix = pre, pool = shuffle rnd (buildPool pre), issued = {}\<rparr>"

section \<open>Issue, Release, IssuedCount\<close>

text \<open>\<open>Issue\<close> takes the last element of the pool; on an empty pool it returns \<open>("", false)\<close>.\<close>

definition Issue :: "CallsignManager \<Rightarrow> (gostring \<times> bool) \<times> CallsignManager" where
  "Issue m =
     (if length (pool m) = 0 then (('''', False), m)
      else let cs = last (pool m)
           in ((cs, True), m\<lparr>pool := butlast (pool m), issued := insert cs (issued m)\<rparr>))"

definition Release :: "gostring \<Rightarrow> CallsignManager \<Rightarrow> CallsignManager" where
  "Release cs m =
     (if cs \<notin> issued m then m
      else m\<lparr>issued := issued m - {cs}, pool := pool m @ [cs]\<rparr>)"

definition IssuedCount :: "CallsignManager \<Rightarrow> nat" where
  "IssuedCount m = card (issued m)"

section \<open>The pool and its shuffle\<close>

lemma distinct_chars [simp]: "distinct allChars" "distinct firstChars"
  by (simp_all add: allChars_def firstChars_def)

lemma length_buildPool [simp]: "length (buildPool pre) = 132"
  by (simp add: buildPool_def allChars_def firstChars_def)

lemma set_buildPool:
  "cs \<in> set (buildPool pre) \<longleftrightarrow>
     (\<exists>c1 c2. cs = pre @ [c1, c2] \<and> c1 \<in> set firstChars \<and> c2 \<in> set allChars)"
  by (auto simp: buildPool_def)

lemma firstChars_eq: "set firstChars = set allChars - {CHR ''C''}"
  by (simp add: firstChars_def allChars_def insert_Diff_if)

lemma set_buildPool_eq:
  "set (buildPool pre) =
     {pre @ [c1, c2] | c1 c2. c1 \<in> set allChars - {CHR ''C''} \<and> c2 \<in> set allChars}"
  unfolding firstChars_eq [symmetric] by (rule set_eqI) (simp add: set_buildPool)

lemma distinct_buildPool: "distinct (buildPool pre)"
proof -
  have inj: "inj_on (\<lambda>(c1, c2). pre @ [c1, c2]) (set (List.product firstChars allChars))"
    by (auto simp: inj_on_def)
  have "buildPool pre = map (\<lambda>(c1, c2). pre @ [c1, c2]) (List.product firstChars allChars)"
    by (simp add: buildPool_def product_concat_map map_concat comp_def)
  then show ?thesis
    using inj by (simp add: distinct_map distinct_product)
qed

lemma mset_swap_at: "i < length xs \<Longrightarrow> j < length xs \<Longrightarrow> mset (swap_at i j xs) = mset xs"
  by (simp add: swap_at_def mset_swap)

lemma length_swap_at [simp]: "length (swap_at i j xs) = length xs"
  by (simp add: swap_at_def)

lemma mset_shuffle_from: "i < length xs \<Longrightarrow> mset (shuffle_from rnd i xs) = mset xs"
proof (induction rnd i xs rule: shuffle_from.induct)
  case (1 rnd xs)
  then show ?case by simp
next
  case (2 rnd i xs)
  have "rnd (Suc i) mod Suc (Suc i) < Suc (Suc i)" by simp
  then have "rnd (Suc i) mod Suc (Suc i) < length xs"
    using "2.prems" by linarith
  with 2 show ?case by (simp add: mset_swap_at)
qed

lemma mset_shuffle: "mset (shuffle rnd xs) = mset xs"
  by (cases xs) (simp_all add: shuffle_def mset_shuffle_from)

section \<open>The invariant\<close>

text \<open>
  Every callsign of the prefix is either in the pool, once, or issued, never both.
\<close>

definition free :: "CallsignManager \<Rightarrow> gostring set" where
  "free m = set (pool m)"

definition callsign_inv :: "CallsignManager \<Rightarrow> bool" where
  "callsign_inv m \<longleftrightarrow> distinct (pool m) \<and> free m \<inter> issued m = {}
     \<and> free m \<union> issued m = set (buildPool (prefix m))"

lemma callsign_inv_finite: "callsign_inv m \<Longrightarrow> finite (issued m)"
  by (metis List.finite_set callsign_inv_def finite_Un)

lemma new_manager_inv: "callsign_inv (NewCallsignManager rnd pre)"
proof -
  have "mset (shuffle rnd (buildPool pre)) = mset (buildPool pre)"
    by (rule mset_shuffle)
  then have "distinct (shuffle rnd (buildPool pre))"
    "set (shuffle rnd (buildPool pre)) = set (buildPool pre)"
    by (metis distinct_buildPool mset_eq_imp_distinct_iff, metis set_mset_mset)
  then show ?thesis
    by (simp add: callsign_inv_def NewCallsignManager_def free_def)
qed

lemma Issue_empty [callsign_laws]: "pool m = [] \<Longrightarrow> Issue m = (('''', False), m)"
  by (simp add: Issue_def)

lemma Issue_nonempty [callsign_laws]:
  "pool m \<noteq> [] \<Longrightarrow> Issue m = ((last (pool m), True),
     m\<lparr>pool := butlast (pool m), issued := insert (last (pool m)) (issued m)\<rparr>)"
  by (simp add: Issue_def Let_def)

lemma Issue_prefix [simp]: "prefix (snd (Issue m)) = prefix m"
  by (simp add: Issue_def Let_def)

lemma Release_prefix [simp]: "prefix (Release cs m) = prefix m"
  by (simp add: Release_def)

lemma Issue_inv: "callsign_inv m \<Longrightarrow> callsign_inv (snd (Issue m))"
proof (cases "pool m = []")
  case True
  then show "callsign_inv m \<Longrightarrow> callsign_inv (snd (Issue m))" by (simp add: callsign_laws)
next
  case False
  assume inv: "callsign_inv m"
  then have d: "distinct (pool m)" by (simp add: callsign_inv_def)
  have "last (pool m) \<in> set (pool m)" using False by simp
  with inv d False show "callsign_inv (snd (Issue m))"
    by (auto simp: callsign_laws callsign_inv_def free_def set_butlast_distinct distinct_butlast)
qed

lemma Issue_success:
  assumes "callsign_inv m" and "Issue m = ((cs, True), m')"
  shows "cs \<in> free m \<and> issued m' = insert cs (issued m) \<and> free m' = free m - {cs}"
proof -
  have ne: "pool m \<noteq> []" using assms(2) by (auto simp: Issue_def)
  moreover have "distinct (pool m)" using assms(1) by (simp add: callsign_inv_def)
  ultimately show ?thesis
    using assms(2) by (auto simp: callsign_laws free_def set_butlast_distinct)
qed

lemma Issue_failure:
  "Issue m = ((cs, False), m') \<Longrightarrow> free m = {} \<and> m' = m \<and> cs = ''''"
  by (auto simp: Issue_def Let_def free_def split: if_splits)

lemma Issue_available: "free m \<noteq> {} \<Longrightarrow> snd (fst (Issue m))"
  by (auto simp: Issue_def Let_def free_def)

lemma Release_issued [callsign_laws]:
  "cs \<in> issued m \<Longrightarrow> Release cs m = m\<lparr>issued := issued m - {cs}, pool := pool m @ [cs]\<rparr>"
  by (simp add: Release_def)

lemma Release_unissued [callsign_laws]: "cs \<notin> issued m \<Longrightarrow> Release cs m = m"
  by (simp add: Release_def)

lemma Release_inv: "callsign_inv m \<Longrightarrow> callsign_inv (Release cs m)"
  by (cases "cs \<in> issued m") (auto simp: callsign_laws callsign_inv_def free_def)

lemma Release_issued_set [simp]: "issued (Release cs m) = issued m - {cs}"
  by (auto simp: Release_def)

lemma Release_free:
  "callsign_inv m \<Longrightarrow> cs \<in> issued m \<Longrightarrow> free (Release cs m) = insert cs (free m)"
  by (auto simp: callsign_laws free_def)

lemma pool_nonempty_string: "callsign_inv m \<Longrightarrow> '''' \<notin> free m \<union> issued m"
  by (auto simp: callsign_inv_def set_buildPool)

section \<open>The interface the sessions use\<close>

text \<open>
  What a session needs of a callsign provider: an issued callsign was available, is not
  empty and is now held; a refusal means nothing is available and changes nothing; a
  released callsign is available again; held and available callsigns never overlap.
\<close>

locale callsign_provider =
  fixes issue :: "'m \<Rightarrow> (gostring \<times> bool) \<times> 'm"
    and release :: "gostring \<Rightarrow> 'm \<Rightarrow> 'm"
    and held :: "'m \<Rightarrow> gostring set"
    and avail :: "'m \<Rightarrow> gostring set"
    and inv :: "'m \<Rightarrow> bool"
  assumes issue_inv: "inv m \<Longrightarrow> inv (snd (issue m))"
    and release_inv: "inv m \<Longrightarrow> inv (release cs m)"
    and issue_granted: "inv m \<Longrightarrow> issue m = ((cs, True), m') \<Longrightarrow>
          cs \<in> avail m \<and> held m' = insert cs (held m) \<and> avail m' = avail m - {cs}"
    and issue_refused: "issue m = ((cs, False), m') \<Longrightarrow> avail m = {} \<and> m' = m"
    and release_held: "inv m \<Longrightarrow> held (release cs m) = held m - {cs}"
    and release_avail: "inv m \<Longrightarrow> cs \<in> held m \<Longrightarrow> avail (release cs m) = insert cs (avail m)"
    and disjoint: "inv m \<Longrightarrow> held m \<inter> avail m = {}"
    and named: "inv m \<Longrightarrow> '''' \<notin> held m \<union> avail m"
begin

lemma granted_inv: "inv m \<Longrightarrow> issue m = ((cs, ok), m') \<Longrightarrow> inv m'"
  using issue_inv [of m] by simp

lemma granted_fresh: "inv m \<Longrightarrow> issue m = ((cs, True), m') \<Longrightarrow> cs \<notin> held m \<and> cs \<noteq> ''''"
  using issue_granted [of m cs m'] disjoint [of m] named [of m] by auto

lemma granted_twice:
  assumes "inv m" and "issue m = ((a, True), m1)" and "issue m1 = ((b, True), m2)"
  shows "a \<noteq> b \<and> b \<notin> held m \<and> held m2 = held m \<union> {a, b}"
proof -
  have "inv m1" using assms(1,2) by (rule granted_inv)
  then show ?thesis
    using issue_granted [OF assms(1,2)] issue_granted [OF _ assms(3)]
      granted_fresh [OF _ assms(3)] by auto
qed

text \<open>Giving back what was just granted undoes the grant, as far as a client can see.\<close>

lemma granted_returned:
  assumes "inv m" and "issue m = ((a, True), m1)"
  shows "held (release a m1) = held m \<and> avail (release a m1) = avail m"
proof -
  have i1: "inv m1" using assms by (rule granted_inv)
  note g = issue_granted [OF assms] granted_fresh [OF assms]
  from g have "a \<in> held m1" by simp
  with i1 g show ?thesis by (auto simp: release_held release_avail)
qed

lemma release_all_inv: "inv m \<Longrightarrow> inv (fold release css m)"
  by (induction css arbitrary: m) (simp_all add: release_inv)

lemma release_all_held: "inv m \<Longrightarrow> held (fold release css m) = held m - set css"
  by (induction css arbitrary: m) (auto simp: release_inv release_held)

end

interpretation callsigns: callsign_provider Issue Release issued free callsign_inv
proof unfold_locales
  fix m :: CallsignManager and m' cs
  show "callsign_inv m \<Longrightarrow> callsign_inv (snd (Issue m))" by (rule Issue_inv)
  show "callsign_inv m \<Longrightarrow> callsign_inv (Release cs m)" by (rule Release_inv)
  show "callsign_inv m \<Longrightarrow> Issue m = ((cs, True), m') \<Longrightarrow>
      cs \<in> free m \<and> issued m' = insert cs (issued m) \<and> free m' = free m - {cs}"
    by (rule Issue_success)
  show "Issue m = ((cs, False), m') \<Longrightarrow> free m = {} \<and> m' = m"
    by (simp add: Issue_failure)
  show "callsign_inv m \<Longrightarrow> issued (Release cs m) = issued m - {cs}" by simp
  show "callsign_inv m \<Longrightarrow> cs \<in> issued m \<Longrightarrow> free (Release cs m) = insert cs (free m)"
    by (rule Release_free)
  show "callsign_inv m \<Longrightarrow> issued m \<inter> free m = {}"
    by (auto simp: callsign_inv_def)
  show "callsign_inv m \<Longrightarrow> '''' \<notin> issued m \<union> free m"
    using pool_nonempty_string by blast
qed

section \<open>Runs of the manager\<close>

text \<open>Any sequence of calls, from any number of sessions, in the order the mutex grants.\<close>

datatype cs_op = OpIssue | OpRelease gostring

fun cs_exec :: "cs_op list \<Rightarrow> CallsignManager \<Rightarrow> CallsignManager" where
  "cs_exec [] m = m"
| "cs_exec (OpIssue # ops) m = cs_exec ops (snd (Issue m))"
| "cs_exec (OpRelease cs # ops) m = cs_exec ops (Release cs m)"

lemma cs_exec_inv: "callsign_inv m \<Longrightarrow> callsign_inv (cs_exec ops m)"
  by (induction ops m rule: cs_exec.induct) (simp_all add: Issue_inv Release_inv)

lemma callsign_inv_count: "callsign_inv m \<Longrightarrow> IssuedCount m + length (pool m) = 132"
proof -
  assume inv: "callsign_inv m"
  then have d: "distinct (pool m)" and fin: "finite (issued m)"
    using callsign_inv_finite by (auto simp: callsign_inv_def)
  have "card (issued m) + card (set (pool m)) = card (issued m \<union> set (pool m))"
    using inv fin by (subst card_Un_disjoint) (auto simp: callsign_inv_def free_def)
  also have "issued m \<union> set (pool m) = set (buildPool (prefix m))"
    using inv by (auto simp: callsign_inv_def free_def)
  also have "card \<dots> = 132"
    using distinct_buildPool by (simp add: distinct_card)
  finally show ?thesis
    using d by (simp add: IssuedCount_def distinct_card)
qed

section \<open>Properties\<close>

text \<open>
  The pool a new manager starts with is the one the README specifies: 132 callsigns
  without repetition, each the prefix followed by two letters of the alphabet, the first of
  which is not C, whatever the shuffle does.
\<close>

theorem new_pool_spec:
  "length (pool (NewCallsignManager rnd pre)) = 132
   \<and> distinct (pool (NewCallsignManager rnd pre))
   \<and> set (pool (NewCallsignManager rnd pre)) =
       {pre @ [c1, c2] | c1 c2. c1 \<in> set allChars - {CHR ''C''} \<and> c2 \<in> set allChars}"
proof -
  let ?m = "NewCallsignManager rnd pre"
  have m: "mset (pool ?m) = mset (buildPool pre)"
    by (simp add: NewCallsignManager_def mset_shuffle)
  then have "length (pool ?m) = 132"
    by (metis length_buildPool size_mset)
  moreover have "distinct (pool ?m)"
    using new_manager_inv [of rnd pre] by (simp add: callsign_inv_def)
  moreover have "set (pool ?m) = set (buildPool pre)"
    using m by (rule mset_eq_setD)
  ultimately show ?thesis
    by (simp only: set_buildPool_eq simp_thms)
qed

text \<open>
  In every run of the manager, from its creation on, no callsign is lost or duplicated:
  the pool has no repetition, no issued callsign is in it, and the number of issued
  callsigns and the length of the pool add up to 132.
\<close>

theorem callsign_conservation:
  "distinct (pool (cs_exec ops (NewCallsignManager rnd pre)))
   \<and> set (pool (cs_exec ops (NewCallsignManager rnd pre)))
       \<inter> issued (cs_exec ops (NewCallsignManager rnd pre)) = {}
   \<and> IssuedCount (cs_exec ops (NewCallsignManager rnd pre))
       + length (pool (cs_exec ops (NewCallsignManager rnd pre))) = 132"
  using cs_exec_inv [OF new_manager_inv, of ops rnd pre] callsign_inv_count
  by (auto simp: callsign_inv_def free_def)

text \<open>
  \<open>Issue\<close> succeeds exactly when fewer than 132 callsigns are issued; then the callsign
  it returns was not issued before and is the only change to the issued set. When it fails it
  returns the empty string and leaves the manager as it was.
\<close>

theorem Issue_behaviour:
  assumes "callsign_inv m"
  shows "case Issue m of ((cs, ok), m') \<Rightarrow>
     (ok \<longleftrightarrow> IssuedCount m < 132)
     \<and> (if ok then cs \<notin> issued m \<and> cs \<noteq> '''' \<and> issued m' = insert cs (issued m)
        else cs = '''' \<and> m' = m)"
proof -
  obtain cs ok m' where fields: "Issue m = ((cs, ok), m')"
    by (metis prod.exhaust)
  have "ok \<longleftrightarrow> pool m \<noteq> []"
    using fields by (auto simp: Issue_def Let_def split: if_splits)
  then have "ok \<longleftrightarrow> IssuedCount m < 132"
    using callsign_inv_count [OF assms] by (cases "pool m") auto
  then show ?thesis
    using fields assms callsigns.granted_fresh [of m cs m'] callsigns.issue_granted [of m cs m']
      Issue_failure [of m cs m'] by (cases ok) auto
qed

theorem Issue_behaviour_witness:
  "case Issue (NewCallsignManager (\<lambda>_. 0) ''S4'') of ((cs, ok), m') \<Rightarrow>
     (ok \<longleftrightarrow> IssuedCount (NewCallsignManager (\<lambda>_. 0) ''S4'') < 132)
     \<and> (if ok then cs \<notin> issued (NewCallsignManager (\<lambda>_. 0) ''S4'') \<and> cs \<noteq> ''''
          \<and> issued m' = insert cs (issued (NewCallsignManager (\<lambda>_. 0) ''S4''))
        else cs = '''' \<and> m' = NewCallsignManager (\<lambda>_. 0) ''S4'')"
  by (rule Issue_behaviour [OF new_manager_inv])

end
