(* ===== verification/Utf8.thy ===== *)
theory Utf8
  imports Prelude
begin

text \<open>
  The parts of Go's \<open>unicode/utf8\<close> and \<open>strings\<close> packages the program relies on, at the
  byte level: encoding a rune, decoding the first rune of a string, ranging over a string,
  \<open>unicode.IsSpace\<close>, \<open>strings.TrimSpace\<close> and \<open>strings.HasPrefix\<close>. Invalid bytes
  decode to U+FFFD with width 1, as in Go.
\<close>

type_synonym rune = nat

abbreviation byte_of :: "char \<Rightarrow> nat" where
  "byte_of c \<equiv> of_char c"

abbreviation char_byte :: "nat \<Rightarrow> char" where
  "char_byte n \<equiv> char_of n"

definition rune_error :: rune where
  "rune_error = 65533"

definition valid_rune :: "rune \<Rightarrow> bool" where
  "valid_rune r \<longleftrightarrow> r < 55296 \<or> 57344 \<le> r \<and> r < 1114112"

section \<open>Encoding and decoding\<close>

text \<open>\<open>utf8.AppendRune\<close>: a surrogate or a value out of range is written as U+FFFD.\<close>

definition encode_rune :: "rune \<Rightarrow> gostring" where
  "encode_rune r =
     (if r < 128 then [char_byte r]
      else if r < 2048 then
        [char_byte (192 + r div 64), char_byte (128 + r mod 64)]
      else if \<not> valid_rune r then
        [char_byte 239, char_byte 191, char_byte 189]
      else if r < 65536 then
        [char_byte (224 + r div 4096), char_byte (128 + r div 64 mod 64),
         char_byte (128 + r mod 64)]
      else
        [char_byte (240 + r div 262144), char_byte (128 + r div 4096 mod 64),
         char_byte (128 + r div 64 mod 64), char_byte (128 + r mod 64)])"

definition between :: "nat \<Rightarrow> nat \<Rightarrow> nat \<Rightarrow> bool" where
  "between lo hi b \<longleftrightarrow> lo \<le> b \<and> b \<le> hi"

text \<open>The range the second byte must lie in, given the first (the tables of \<open>utf8\<close>).\<close>

definition second_lo :: "nat \<Rightarrow> nat" where
  "second_lo b0 = (if b0 = 224 then 160 else if b0 = 240 then 144 else 128)"

definition second_hi :: "nat \<Rightarrow> nat" where
  "second_hi b0 = (if b0 = 237 then 159 else if b0 = 244 then 143 else 191)"

text \<open>
  The multi-byte forms. \<open>bs\<close> are the bytes after the first, at most three; a missing or
  malformed continuation byte gives the error rune with width 1.
\<close>

definition decode2 :: "nat \<Rightarrow> nat list \<Rightarrow> rune \<times> nat" where
  "decode2 b0 bs =
     (case bs of
        b1 # _ \<Rightarrow> if between 128 191 b1 then ((b0 - 192) * 64 + (b1 - 128), 2)
                   else (rune_error, 1)
      | _ \<Rightarrow> (rune_error, 1))"

definition decode3 :: "nat \<Rightarrow> nat list \<Rightarrow> rune \<times> nat" where
  "decode3 b0 bs =
     (case bs of
        b1 # b2 # _ \<Rightarrow>
          if between (second_lo b0) (second_hi b0) b1 \<and> between 128 191 b2
          then ((b0 - 224) * 4096 + (b1 - 128) * 64 + (b2 - 128), 3)
          else (rune_error, 1)
      | _ \<Rightarrow> (rune_error, 1))"

definition decode4 :: "nat \<Rightarrow> nat list \<Rightarrow> rune \<times> nat" where
  "decode4 b0 bs =
     (case bs of
        b1 # b2 # b3 # _ \<Rightarrow>
          if between (second_lo b0) (second_hi b0) b1 \<and> between 128 191 b2
             \<and> between 128 191 b3
          then ((b0 - 240) * 262144 + (b1 - 128) * 4096 + (b2 - 128) * 64 + (b3 - 128), 4)
          else (rune_error, 1)
      | _ \<Rightarrow> (rune_error, 1))"

text \<open>\<open>utf8.DecodeRuneInString\<close>: the first rune and its width in bytes.\<close>

definition decode_rune :: "gostring \<Rightarrow> rune \<times> nat" where
  "decode_rune s =
     (case map byte_of (take 4 s) of
        [] \<Rightarrow> (rune_error, 0)
      | b0 # bs \<Rightarrow>
          if b0 < 128 then (b0, 1)
          else if between 194 223 b0 then decode2 b0 bs
          else if between 224 239 b0 then decode3 b0 bs
          else if between 240 244 b0 then decode4 b0 bs
          else (rune_error, 1))"

lemmas decode_defs = decode_rune_def decode2_def decode3_def decode4_def

lemma decode_tail_width_pos:
  "0 < snd (decode2 b bs)" "0 < snd (decode3 b bs)" "0 < snd (decode4 b bs)"
  by (auto simp: decode_defs split: list.splits)

lemma decode_rune_width_pos: "s \<noteq> [] \<Longrightarrow> 0 < snd (decode_rune s)"
  by (cases s) (auto simp: decode_rune_def decode_tail_width_pos)

text \<open>
  The string cut into the pieces \<open>for _, r := range s\<close> visits: each rune with the bytes
  it was decoded from.
\<close>

function segments :: "gostring \<Rightarrow> (rune \<times> gostring) list" where
  "segments s =
     (if s = [] then []
      else (case decode_rune s of (r, n) \<Rightarrow> (r, take n s) # segments (drop n s)))"
  by pat_completeness auto
termination
  by (relation "measure length") (auto simp: prod_eq_iff intro: diff_less decode_rune_width_pos)

declare segments.simps [simp del]

definition runes :: "gostring \<Rightarrow> rune list" where
  "runes s = map fst (segments s)"

definition encode_runes :: "rune list \<Rightarrow> gostring" where
  "encode_runes rs = concat (map encode_rune rs)"

section \<open>Space, prefix\<close>

text \<open>\<open>unicode.IsSpace\<close>.\<close>

definition is_space :: "rune \<Rightarrow> bool" where
  "is_space r \<longleftrightarrow>
     between 9 13 r \<or> r = 32 \<or> r = 133 \<or> r = 160 \<or> r = 5760 \<or> between 8192 8202 r
     \<or> r = 8232 \<or> r = 8233 \<or> r = 8239 \<or> r = 8287 \<or> r = 12288"

definition trim_list :: "('a \<Rightarrow> bool) \<Rightarrow> 'a list \<Rightarrow> 'a list" where
  "trim_list p xs = rev (dropWhile p (rev (dropWhile p xs)))"

text \<open>
  \<open>strings.TrimSpace\<close> drops the leading and the trailing pieces that are spaces. The
  library finds the trailing ones by decoding backwards; UTF-8 is self-synchronising, so the
  pieces it meets are those of the forward decoding.
\<close>

definition trim_space :: "gostring \<Rightarrow> gostring" where
  "trim_space s = concat (map snd (trim_list (is_space \<circ> fst) (segments s)))"

fun has_prefix :: "gostring \<Rightarrow> gostring \<Rightarrow> bool" where
  "has_prefix s [] = True"
| "has_prefix [] (p # ps) = False"
| "has_prefix (c # cs) (p # ps) = (c = p \<and> has_prefix cs ps)"

section \<open>Laws\<close>

lemma encode_rune_nonempty [simp]: "encode_rune r \<noteq> []"
  by (simp add: encode_rune_def)

lemma decode_ascii: "byte_of c < 128 \<Longrightarrow> decode_rune (c # s) = (byte_of c, 1)"
  by (simp add: decode_rune_def)

lemma decode_encode_1:
  "r < 128 \<Longrightarrow> decode_rune (encode_rune r @ s) = (r, length (encode_rune r))"
  by (simp add: encode_rune_def decode_rune_def)

lemma decode_encode_2:
  assumes "128 \<le> r" and "r < 2048"
  shows "decode_rune (encode_rune r @ s) = (r, length (encode_rune r))"
proof -
  define a b where "a = r div 64" and "b = r mod 64"
  have ab: "2 \<le> a" "a < 32" "b < 64" "a * 64 + b = r"
    using assms by (simp_all add: a_def b_def)
  have e: "encode_rune r = [char_byte (192 + a), char_byte (128 + b)]"
    using assms by (simp add: encode_rune_def a_def b_def)
  show ?thesis
    unfolding e using ab by (simp add: decode_defs between_def)
qed

lemma div_4096: "r div 4096 = r div 64 div (64 :: nat)"
  using div_mult2_eq [of r 64 64] by simp

lemma div_262144: "r div 262144 = r div 4096 div (64 :: nat)"
  using div_mult2_eq [of r 4096 64] by simp

lemma digits_64: "r div (64 :: nat) * 64 + r mod 64 = r"
  by simp

lemma decode_encode_3:
  assumes "2048 \<le> r" and "r < 65536" and "valid_rune r"
  shows "decode_rune (encode_rune r @ s) = (r, length (encode_rune r))"
proof -
  define a b c where "a = r div 4096" and "b = r div 64 mod 64" and "c = r mod 64"
  have "a * 64 + b = r div 64"
    using digits_64 [of "r div 64"] by (simp add: a_def b_def div_4096)
  moreover have "r div 64 * 64 + c = r" unfolding c_def by (rule digits_64)
  ultimately have "a * 4096 + b * 64 + c = r" by linarith
  moreover have "b < 64" "c < 64" by (simp_all add: b_def c_def)
  ultimately have abc: "a < 16" "b < 64" "c < 64" "a * 4096 + b * 64 + c = r"
    using assms by simp_all
  have lo: "a = 0 \<Longrightarrow> 32 \<le> b" and hi: "a = 13 \<Longrightarrow> b \<le> 31"
    using assms abc by (auto simp: valid_rune_def)
  have e: "encode_rune r = [char_byte (224 + a), char_byte (128 + b), char_byte (128 + c)]"
    using assms by (simp add: encode_rune_def a_def b_def c_def)
  show ?thesis
    unfolding e using abc lo hi
    by (simp add: decode_defs between_def second_lo_def second_hi_def)
qed

lemma decode_encode_4:
  assumes "65536 \<le> r" and "valid_rune r"
  shows "decode_rune (encode_rune r @ s) = (r, length (encode_rune r))"
proof -
  define a b c d where "a = r div 262144" and "b = r div 4096 mod 64"
    and "c = r div 64 mod 64" and "d = r mod 64"
  have r: "r < 1114112" using assms by (simp add: valid_rune_def)
  have "a * 64 + b = r div 4096"
    using digits_64 [of "r div 4096"] by (simp add: a_def b_def div_262144)
  moreover have "r div 4096 * 64 + c = r div 64"
    using digits_64 [of "r div 64"] by (simp add: c_def div_4096)
  moreover have "r div 64 * 64 + d = r" unfolding d_def by (rule digits_64)
  ultimately have "a * 262144 + b * 4096 + c * 64 + d = r" by linarith
  moreover have "b < 64" "c < 64" "d < 64" by (simp_all add: b_def c_def d_def)
  ultimately have abcd: "a \<le> 4" "b < 64" "c < 64" "d < 64"
    "a * 262144 + b * 4096 + c * 64 + d = r"
    using r by simp_all
  have lo: "a = 0 \<Longrightarrow> 16 \<le> b" and hi: "a = 4 \<Longrightarrow> b \<le> 15"
    using assms r abcd by auto
  have e: "encode_rune r = [char_byte (240 + a), char_byte (128 + b), char_byte (128 + c),
      char_byte (128 + d)]"
    using assms by (simp add: encode_rune_def a_def b_def c_def d_def)
  show ?thesis
    unfolding e using abcd lo hi
    by (simp add: decode_defs between_def second_lo_def second_hi_def)
qed

lemma decode_encode [utf8_laws]:
  "valid_rune r \<Longrightarrow> decode_rune (encode_rune r @ s) = (r, length (encode_rune r))"
  by (cases "r < 128"; cases "r < 2048"; cases "r < 65536")
    (auto intro: decode_encode_1 decode_encode_2 decode_encode_3 decode_encode_4)

lemma segments_encode [utf8_laws]:
  "valid_rune r \<Longrightarrow> segments (encode_rune r @ s) = (r, encode_rune r) # segments s"
  by (subst segments.simps) (simp add: decode_encode)

lemma segments_Nil [simp]: "segments [] = []"
  by (simp add: segments.simps)

lemma segments_eq_Nil [simp]: "segments s = [] \<longleftrightarrow> s = []"
  by (subst segments.simps) (simp split: prod.splits)

lemma segments_encode_runes:
  "\<forall>r \<in> set rs. valid_rune r \<Longrightarrow> segments (encode_runes rs @ s) = map (\<lambda>r. (r, encode_rune r)) rs @ segments s"
  by (induction rs) (simp_all add: encode_runes_def segments_encode)

lemma runes_encode_runes:
  "\<forall>r \<in> set rs. valid_rune r \<Longrightarrow> runes (encode_runes rs) = rs"
  using segments_encode_runes [of rs "[]"] by (simp add: runes_def comp_def)

lemma segments_concat: "concat (map snd (segments s)) = s"
proof (induction s rule: segments.induct)
  case (1 s)
  show ?case
  proof (cases "s = []")
    case False
    then show ?thesis
      by (subst segments.simps) (auto simp: 1 split: prod.splits)
  qed simp
qed

lemma valid_small: "r < 55296 \<Longrightarrow> valid_rune r"
  by (simp add: valid_rune_def)

lemma valid_rune_error [simp]: "valid_rune rune_error"
  by (simp add: valid_rune_def rune_error_def)

lemma decode2_valid: "b \<le> 223 \<Longrightarrow> valid_rune (fst (decode2 b bs))"
  by (auto simp: decode2_def between_def intro!: valid_small split: list.splits)

lemma decode3_valid:
  assumes "b \<le> 239"
  shows "valid_rune (fst (decode3 b bs))"
proof (cases "b = 237")
  case True
  then show ?thesis
    by (auto simp: decode3_def between_def second_lo_def second_hi_def intro!: valid_small
        split: list.splits)
next
  case False
  then have "b \<le> 236 \<or> 238 \<le> b" by arith
  with assms show ?thesis
    by (auto simp: decode3_def between_def second_lo_def second_hi_def valid_rune_def
        rune_error_def split: list.splits)
qed

lemma decode4_valid:
  assumes "240 \<le> b" and "b \<le> 244"
  shows "valid_rune (fst (decode4 b bs))"
proof -
  have "b = 240 \<or> b = 241 \<or> b = 242 \<or> b = 243 \<or> b = 244" using assms by arith
  then show ?thesis
    by (auto simp: decode4_def between_def second_lo_def second_hi_def valid_rune_def
        rune_error_def split: list.splits)
qed

text \<open>Whatever the bytes, ranging over a string yields valid runes only.\<close>

lemma decode_rune_valid: "valid_rune (fst (decode_rune s))"
  by (cases s) (auto simp: decode_rune_def between_def intro: valid_small
      decode2_valid decode3_valid decode4_valid)

lemma segments_valid: "seg \<in> set (segments s) \<Longrightarrow> valid_rune (fst seg)"
proof (induction s rule: segments.induct)
  case (1 s)
  show ?case
  proof (cases "s = []")
    case False
    then show ?thesis
      using 1 decode_rune_valid [of s]
      by (subst (asm) (2) segments.simps) (auto simp: prod_eq_iff split: prod.splits)
  next
    case True
    with 1 show ?thesis by simp
  qed
qed

lemma runes_valid: "r \<in> set (runes s) \<Longrightarrow> valid_rune r"
  by (auto simp: runes_def dest: segments_valid)

section \<open>Valid UTF-8\<close>

text \<open>\<open>utf8.ValidString\<close>: decoding loses nothing.\<close>

definition valid_utf8 :: "gostring \<Rightarrow> bool" where
  "valid_utf8 s \<longleftrightarrow> encode_runes (runes s) = s"

lemma valid_utf8_encode [simp]: "\<forall>r \<in> set rs. valid_rune r \<Longrightarrow> valid_utf8 (encode_runes rs)"
  by (simp add: valid_utf8_def runes_encode_runes)

lemma valid_utf8E:
  assumes "valid_utf8 s"
  obtains rs where "s = encode_runes rs" and "\<forall>r \<in> set rs. valid_rune r" and "runes s = rs"
  using assms runes_valid [of _ s] by (metis valid_utf8_def)

lemma encode_runes_append [simp]: "encode_runes (a @ b) = encode_runes a @ encode_runes b"
  by (simp add: encode_runes_def)

lemma encode_runes_Nil [simp]: "encode_runes [] = []"
  by (simp add: encode_runes_def)

lemma encode_runes_eq_Nil [simp]: "encode_runes rs = [] \<longleftrightarrow> rs = []"
  by (cases rs) (simp_all add: encode_runes_def)

lemma runes_Nil [simp]: "runes [] = []"
  by (simp add: runes_def)

lemma runes_append: "valid_utf8 a \<Longrightarrow> runes (a @ b) = runes a @ runes b"
proof (elim valid_utf8E)
  fix rs
  assume "a = encode_runes rs" and "\<forall>r \<in> set rs. valid_rune r" and "runes a = rs"
  then show "runes (a @ b) = runes a @ runes b"
    by (simp add: runes_def segments_encode_runes comp_def)
qed

lemma valid_utf8_append: "valid_utf8 a \<Longrightarrow> valid_utf8 b \<Longrightarrow> valid_utf8 (a @ b)"
  by (simp add: valid_utf8_def runes_append)

lemma valid_utf8_Nil [simp]: "valid_utf8 []"
  by (simp add: valid_utf8_def)

lemma valid_utf8_concat: "\<forall>s \<in> set ss. valid_utf8 s \<Longrightarrow> valid_utf8 (concat ss)"
  by (induction ss) (auto intro: valid_utf8_append)

lemma runes_concat: "\<forall>s \<in> set ss. valid_utf8 s \<Longrightarrow> runes (concat ss) = concat (map runes ss)"
  by (induction ss) (simp_all add: runes_append)

section \<open>Trimming\<close>

lemma trim_list_map: "trim_list p (map f xs) = map f (trim_list (p \<circ> f) xs)"
  by (simp add: trim_list_def dropWhile_map rev_map)

lemma trim_list_Nil [simp]: "trim_list p [] = []"
  by (simp add: trim_list_def)

lemma dropWhile_eq_Nil_iff: "dropWhile p xs = [] \<longleftrightarrow> (\<forall>x \<in> set xs. p x)"
  by (induction xs) auto

lemma set_trim_list: "x \<in> set (trim_list p xs) \<Longrightarrow> x \<in> set xs"
  unfolding trim_list_def by (metis set_dropWhileD set_rev)

lemma trim_list_eq_Nil: "trim_list p xs = [] \<longleftrightarrow> (\<forall>x \<in> set xs. p x)"
proof -
  have "trim_list p xs = [] \<longleftrightarrow> (\<forall>x \<in> set (dropWhile p xs). p x)"
    by (simp add: trim_list_def)
  then show ?thesis
    by (metis dropWhile_eq_Nil_iff hd_dropWhile list.set_sel(1) set_dropWhileD)
qed

lemma filter_dropWhile: "filter (\<lambda>x. \<not> p x) (dropWhile p xs) = filter (\<lambda>x. \<not> p x) xs"
  by (induction xs) auto

lemma filter_trim_list: "filter (\<lambda>x. \<not> p x) (trim_list p xs) = filter (\<lambda>x. \<not> p x) xs"
  by (simp add: trim_list_def rev_filter [symmetric] filter_dropWhile)

lemma trim_space_encode:
  assumes "\<forall>r \<in> set rs. valid_rune r"
  shows "trim_space (encode_runes rs) = encode_runes (trim_list is_space rs)"
proof -
  have "segments (encode_runes rs) = map (\<lambda>r. (r, encode_rune r)) rs"
    using segments_encode_runes [OF assms, of "[]"] by simp
  then show ?thesis
    by (simp add: trim_space_def trim_list_map comp_def encode_runes_def)
qed

lemma valid_utf8_trim: "valid_utf8 s \<Longrightarrow> valid_utf8 (trim_space s)"
  by (elim valid_utf8E) (metis set_trim_list trim_space_encode valid_utf8_encode)

text \<open>The runes of a string that are not space: what no trimming may touch.\<close>

definition ink :: "gostring \<Rightarrow> rune list" where
  "ink s = filter (\<lambda>r. \<not> is_space r) (runes s)"

lemma ink_trim: "valid_utf8 s \<Longrightarrow> ink (trim_space s) = ink s"
proof (elim valid_utf8E)
  fix rs
  assume s: "s = encode_runes rs" and v: "\<forall>r \<in> set rs. valid_rune r"
  have "\<forall>r \<in> set (trim_list is_space rs). valid_rune r"
    using v by (blast dest: set_trim_list)
  with s v show "ink (trim_space s) = ink s"
    by (simp add: ink_def trim_space_encode runes_encode_runes filter_trim_list)
qed

lemma ink_append: "valid_utf8 a \<Longrightarrow> ink (a @ b) = ink a @ ink b"
  by (simp add: ink_def runes_append)

lemma ink_concat: "\<forall>s \<in> set ss. valid_utf8 s \<Longrightarrow> ink (concat ss) = concat (map ink ss)"
  by (simp add: ink_def [abs_def] runes_concat filter_concat comp_def)

lemma ink_Nil [simp]: "ink [] = []"
  by (simp add: ink_def)

lemma trim_space_Nil [simp]: "trim_space [] = []"
  by (simp add: trim_space_def)

lemma snd_segments_nonempty: "seg \<in> set (segments s) \<Longrightarrow> snd seg \<noteq> []"
proof (induction s rule: segments.induct)
  case (1 s)
  show ?case
  proof (cases "s = []")
    case False
    then show ?thesis
      using 1 decode_rune_width_pos [of s]
      by (subst (asm) (2) segments.simps) (auto simp: prod_eq_iff split: prod.splits)
  next
    case True
    with 1 show ?thesis by simp
  qed
qed

lemma trim_space_eq_Nil: "trim_space s = [] \<longleftrightarrow> (\<forall>r \<in> set (runes s). is_space r)"
proof -
  have "trim_space s = [] \<longleftrightarrow> trim_list (is_space \<circ> fst) (segments s) = []"
    unfolding trim_space_def
    by (metis concat.simps(1) concat_eq_Nil_conv image_eqI list.set_map list.set_sel(1)
        list.simps(8) set_trim_list snd_segments_nonempty)
  then show ?thesis by (simp add: trim_list_eq_Nil runes_def)
qed

end
