(* ===== verification/Bytes.thy ===== *)
theory Bytes
  imports Prelude
begin

text \<open>
  Byte slices as the file formats use them: slicing with Go's bounds check, the bytes of an ASCII
  literal, and little-endian numbers (Go's \<open>encoding/binary\<close>) with their round trips. The WAV
  reader of the server and the Ogg writer of the test client share them.
\<close>

text \<open>A slice expression panics when its bounds are not in order or beyond the end.\<close>

definition go_slice :: "'a list \<Rightarrow> nat \<Rightarrow> nat \<Rightarrow> 'a list go" where
  "go_slice xs i j =
     (if i \<le> j \<and> j \<le> length xs then Return (take (j - i) (drop i xs))
      else Panic ''runtime error: slice bounds out of range'')"

text \<open>An index expression panics outside the slice, read or assigned to.\<close>

definition go_index :: "'a list \<Rightarrow> nat \<Rightarrow> 'a go" where
  "go_index xs i =
     (if i < length xs then Return (xs ! i) else Panic ''runtime error: index out of range'')"

definition go_store :: "'a list \<Rightarrow> nat \<Rightarrow> 'a \<Rightarrow> 'a list go" where
  "go_store xs i x =
     (if i < length xs then Return (xs[i := x]) else Panic ''runtime error: index out of range'')"

lemmas go_bounds = go_slice_def go_index_def go_store_def

text \<open>\<open>binary.LittleEndian\<close>: the value of the bytes, the first the lowest, and back.\<close>

fun le_value :: "bytes \<Rightarrow> nat" where
  "le_value [] = 0"
| "le_value (b # bs) = unat b + 256 * le_value bs"

fun le_bytes :: "nat \<Rightarrow> nat \<Rightarrow> bytes" where
  "le_bytes 0 n = []"
| "le_bytes (Suc k) n = word_of_nat (n mod 256) # le_bytes k (n div 256)"

abbreviation le4 :: "nat \<Rightarrow> bytes" where
  "le4 \<equiv> le_bytes 4"

definition ascii :: "gostring \<Rightarrow> bytes" where
  "ascii s = map (\<lambda>c. word_of_nat (of_char c)) s"

lemma length_le_bytes [simp]: "length (le_bytes k n) = k"
  by (induction k arbitrary: n) simp_all

lemma le_value_bytes: "n < 256 ^ k \<Longrightarrow> le_value (le_bytes k n) = n"
proof (induction k arbitrary: n)
  case (Suc k)
  then have "n div 256 < 256 ^ k" by (simp add: less_mult_imp_div_less mult.commute)
  with Suc show ?case by (simp add: unat_of_nat)
qed simp

lemma le_value_le4: "n < 2 ^ 32 \<Longrightarrow> le_value (le4 n) = n"
  by (rule le_value_bytes) simp

lemma le_bytes_zero: "le_bytes k 0 = replicate k 0"
  by (induction k) simp_all

lemma le4_zero: "le4 0 = [0, 0, 0, 0]"
  by (simp add: le_bytes_zero numeral_eq_Suc)

lemma le_value_word32 [simp]: "word_of_nat (le_value (le4 (unat w))) = (w :: 32 word)"
proof -
  have "unat w < 2 ^ 32" using unsigned_less [of w, where 'a = nat] by simp
  then show ?thesis by (simp add: le_value_le4)
qed

lemma le_value_word64 [simp]: "word_of_nat (le_value (le_bytes 8 (unat w))) = (w :: 64 word)"
proof -
  have "unat w < 256 ^ 8" using unsigned_less [of w, where 'a = nat] by simp
  then show ?thesis by (simp add: le_value_bytes)
qed

lemma length_ascii [simp]: "length (ascii s) = length s"
  by (simp add: ascii_def)

lemma go_slice_at [simp]:
  "length a = i \<Longrightarrow> length b = j - i \<Longrightarrow> i \<le> j \<Longrightarrow> go_slice (a @ b @ c) i j = Return b"
  by (simp add: go_slice_def)

end
