(* ===== verification/Split.thy ===== *)
theory Split
  imports Utf8 Bytes
begin

text \<open>
  Cutting an answer into text-to-speech chunks, \<open>app/wl-game-server/split.go\<close>. The
  functions work on Go strings (bytes); the text of an answer reaches them from a JSON
  response of the model service, so it is valid UTF-8, which the properties about its runes
  assume.
\<close>

definition ttsChunkMinRunes :: nat where
  "ttsChunkMinRunes = 12"

definition ttsLeadSentences :: nat where
  "ttsLeadSentences = 2"

text \<open>The ideographic full stop, U+3002.\<close>

definition kuten :: rune where
  "kuten = 12290"

definition countRunes :: "gostring \<Rightarrow> nat" where
  "countRunes s = length (runes s)"

section \<open>splitBySentence\<close>

text \<open>
  The loop over the runes: \<open>sb\<close> is the string builder, \<open>acc\<close> the sentences so far.
\<close>

fun sentence_loop :: "rune list \<Rightarrow> gostring \<Rightarrow> gostring list \<Rightarrow> gostring list" where
  "sentence_loop [] sb acc =
     (let seg = trim_space sb in if seg \<noteq> '''' then acc @ [seg] else acc)"
| "sentence_loop (r # rs) sb acc =
     (let sb' = sb @ encode_rune r
      in if r = kuten then
           (let seg = trim_space sb'
            in sentence_loop rs '''' (if seg \<noteq> '''' then acc @ [seg] else acc))
         else sentence_loop rs sb' acc)"

definition splitBySentence :: "gostring \<Rightarrow> gostring list" where
  "splitBySentence s = sentence_loop (runes s) '''' []"

section \<open>mergeShortChunks\<close>

text \<open>
  First loop: a short chunk is appended to the last merged one, if there is one. Every index and
  slice of the code can panic.
\<close>

fun merge_back :: "gostring list \<Rightarrow> gostring list \<Rightarrow> gostring list go" where
  "merge_back [] merged = Return merged"
| "merge_back (c # cs) merged =
     (if length merged > 0 \<and> countRunes c < ttsChunkMinRunes
      then go_bind (go_index merged (length merged - 1)) (\<lambda>m.
           go_bind (go_store merged (length merged - 1) (m @ c)) (merge_back cs))
      else merge_back cs (merged @ [c]))"

text \<open>Second loop: a first chunk that is still short is pushed onto its successor.\<close>

function merge_front :: "gostring list \<Rightarrow> gostring list go" where
  "merge_front merged =
     (if 2 \<le> length merged then
        go_bind (go_index merged 0) (\<lambda>first.
          if countRunes first < ttsChunkMinRunes then
            go_bind (go_index merged 1) (\<lambda>second.
            go_bind (go_store merged 1 (first @ second)) (\<lambda>merged.
            go_bind (go_slice merged 1 (length merged)) merge_front))
          else Return merged)
      else Return merged)"
  by pat_completeness auto
termination by (relation "measure length") (auto simp: go_bounds split: if_splits)

declare merge_front.simps [simp del]

definition mergeShortChunks :: "gostring list \<Rightarrow> gostring list go" where
  "mergeShortChunks chunks =
     (if length chunks = 0 then Return chunks else go_bind (merge_back chunks []) merge_front)"

section \<open>splitAnswerForTTS\<close>

text \<open>The \<open>nil\<close> slice the code returns for blank text is the empty list.\<close>

definition splitAnswerForTTS :: "gostring \<Rightarrow> gostring list go" where
  "splitAnswerForTTS answer =
     (let sentences = splitBySentence answer
      in if length sentences \<le> ttsLeadSentences then
           (let trimmed = trim_space answer
            in Return (if trimmed = '''' then [] else [trimmed]))
         else
           go_bind (go_slice sentences 0 ttsLeadSentences) (\<lambda>call.
             let lead = trim_space (concat call)
             in go_bind (go_slice sentences ttsLeadSentences (length sentences)) (\<lambda>rest.
                go_bind (mergeShortChunks rest) (\<lambda>body. Return (lead # body)))))"

section \<open>The same without bounds\<close>

text \<open>
  No index or slice is out of range, so the functions return what these return, on which the rest
  of the theory reasons.
\<close>

fun join_back :: "gostring list \<Rightarrow> gostring list \<Rightarrow> gostring list" where
  "join_back [] merged = merged"
| "join_back (c # cs) merged =
     (if length merged > 0 \<and> countRunes c < ttsChunkMinRunes
      then join_back cs (butlast merged @ [last merged @ c])
      else join_back cs (merged @ [c]))"

fun join_front :: "gostring list \<Rightarrow> gostring list" where
  "join_front (a # b # rest) =
     (if countRunes a < ttsChunkMinRunes then join_front ((a @ b) # rest) else a # b # rest)"
| "join_front [a] = [a]"
| "join_front [] = []"

definition join_short :: "gostring list \<Rightarrow> gostring list" where
  "join_short chunks =
     (if length chunks = 0 then chunks else join_front (join_back chunks []))"

definition answer_chunks :: "gostring \<Rightarrow> gostring list" where
  "answer_chunks answer =
     (let sentences = splitBySentence answer
      in if length sentences \<le> ttsLeadSentences then
           (let trimmed = trim_space answer
            in if trimmed = '''' then [] else [trimmed])
         else trim_space (concat (take ttsLeadSentences sentences))
              # join_short (drop ttsLeadSentences sentences))"

lemma store_last: "ms \<noteq> [] \<Longrightarrow> ms[length ms - Suc 0 := x] = butlast ms @ [x]"
  by (cases ms rule: rev_cases) simp_all

lemma merge_back_returns: "merge_back cs ms = Return (join_back cs ms)"
proof (induction cs ms rule: join_back.induct)
  case (2 c cs ms)
  then show ?case by (auto simp: go_index_def go_store_def store_last last_conv_nth)
qed simp

lemma merge_front_returns: "merge_front ms = Return (join_front ms)"
proof (induction ms rule: join_front.induct)
  case (1 a b rest)
  then show ?case by (subst merge_front.simps) (simp add: go_bounds)
qed (subst merge_front.simps, simp)+

lemma mergeShortChunks_returns: "mergeShortChunks cs = Return (join_short cs)"
  by (simp add: mergeShortChunks_def join_short_def merge_back_returns merge_front_returns)

lemma split_returns: "splitAnswerForTTS a = Return (answer_chunks a)"
  by (simp add: splitAnswerForTTS_def answer_chunks_def mergeShortChunks_returns go_slice_def
      Let_def ttsLeadSentences_def)

section \<open>Sentences\<close>

lemma encode_runes_Cons: "encode_runes (r # rs) = encode_rune r @ encode_runes rs"
  by (simp add: encode_runes_def)

text \<open>What the loop adds to \<open>acc\<close>, without the accumulator.\<close>

definition keep :: "gostring \<Rightarrow> gostring list" where
  "keep sb = (let seg = trim_space sb in if seg \<noteq> '''' then [seg] else [])"

fun sentences_from :: "rune list \<Rightarrow> gostring \<Rightarrow> gostring list" where
  "sentences_from [] sb = keep sb"
| "sentences_from (r # rs) sb =
     (if r = kuten then keep (sb @ encode_rune r) @ sentences_from rs ''''
      else sentences_from rs (sb @ encode_rune r))"

lemma sentence_loop_eq: "sentence_loop rs sb acc = acc @ sentences_from rs sb"
  by (induction rs sb acc rule: sentence_loop.induct) (auto simp: keep_def Let_def)

lemma valid_encode_rune: "valid_rune r \<Longrightarrow> valid_utf8 (encode_rune r)"
  using valid_utf8_encode [of "[r]"] by (simp add: encode_runes_def)

lemma runes_encode_rune: "valid_rune r \<Longrightarrow> runes (encode_rune r) = [r]"
  using runes_encode_runes [of "[r]"] by (simp add: encode_runes_def)

text \<open>A piece of text worth speaking: valid, and not only white space.\<close>

definition spoken :: "gostring \<Rightarrow> bool" where
  "spoken c \<longleftrightarrow> valid_utf8 c \<and> ink c \<noteq> []"

lemma ink_eq_Nil: "ink s = [] \<longleftrightarrow> (\<forall>r \<in> set (runes s). is_space r)"
  by (simp add: ink_def filter_empty_conv)

lemma spoken_valid [dest]: "spoken c \<Longrightarrow> valid_utf8 c"
  by (simp add: spoken_def)

lemma spoken_nonempty: "spoken c \<Longrightarrow> c \<noteq> []"
  by (auto simp: spoken_def)

lemma spoken_append: "spoken a \<Longrightarrow> valid_utf8 b \<Longrightarrow> spoken (a @ b)"
  by (simp add: spoken_def valid_utf8_append ink_append)

lemma spoken_trim: "valid_utf8 s \<Longrightarrow> trim_space s \<noteq> [] \<Longrightarrow> spoken (trim_space s)"
  by (simp add: spoken_def valid_utf8_trim ink_trim ink_eq_Nil trim_space_eq_Nil)

lemma spoken_not_blank: "spoken s \<Longrightarrow> trim_space s \<noteq> []"
  by (simp add: spoken_def ink_eq_Nil trim_space_eq_Nil)

lemma keep_valid: "valid_utf8 sb \<Longrightarrow> \<forall>c \<in> set (keep sb). spoken c"
  by (auto simp: keep_def Let_def intro: spoken_trim)

lemma keep_ink: "valid_utf8 sb \<Longrightarrow> ink (concat (keep sb)) = ink sb"
  using ink_trim [of sb] by (auto simp: keep_def Let_def)

lemma sentences_valid:
  "valid_utf8 sb \<Longrightarrow> \<forall>r \<in> set rs. valid_rune r \<Longrightarrow>
   \<forall>c \<in> set (sentences_from rs sb). spoken c"
proof (induction rs sb rule: sentences_from.induct)
  case (1 sb)
  then show ?case by (simp add: keep_valid)
next
  case (2 r rs sb)
  then have v: "valid_utf8 (sb @ encode_rune r)"
    by (simp add: valid_utf8_append valid_encode_rune)
  with 2 show ?case by (auto dest: keep_valid)
qed

lemma sentences_ink:
  "valid_utf8 sb \<Longrightarrow> \<forall>r \<in> set rs. valid_rune r \<Longrightarrow>
   ink (concat (sentences_from rs sb)) = ink (sb @ encode_runes rs)"
proof (induction rs sb rule: sentences_from.induct)
  case (1 sb)
  then show ?case by (simp add: keep_ink)
next
  case (2 r rs sb)
  then have v: "valid_utf8 (sb @ encode_rune r)" and vr: "\<forall>r \<in> set rs. valid_rune r"
    by (simp_all add: valid_utf8_append valid_encode_rune)
  show ?case
  proof (cases "r = kuten")
    case True
    have "valid_utf8 (concat (keep (sb @ encode_rune r)))"
      using keep_valid [OF v] by (blast intro: valid_utf8_concat)
    then have "ink (concat (sentences_from (r # rs) sb)) =
        ink (concat (keep (sb @ encode_rune r))) @ ink (concat (sentences_from rs []))"
      using True by (simp add: ink_append)
    also have "\<dots> = ink (sb @ encode_rune r) @ ink (encode_runes rs)"
      using True v vr 2 by (simp add: keep_ink)
    also have "\<dots> = ink (sb @ encode_runes (r # rs))"
      using ink_append [OF v] by (simp add: encode_runes_Cons)
    finally show ?thesis .
  next
    case False
    with v vr 2 show ?thesis by (simp add: encode_runes_Cons)
  qed
qed

lemma splitBySentence_valid: "c \<in> set (splitBySentence s) \<Longrightarrow> spoken c"
  using sentences_valid [of "[]" "runes s"] runes_valid
  by (auto simp: splitBySentence_def sentence_loop_eq)

lemma splitBySentence_ink: "ink (concat (splitBySentence s)) = ink s"
  using sentences_ink [of "[]" "runes s"] runes_valid [of _ s]
  by (simp add: splitBySentence_def sentence_loop_eq ink_def runes_encode_runes)

section \<open>Merging\<close>

abbreviation long_chunk :: "gostring \<Rightarrow> bool" where
  "long_chunk c \<equiv> ttsChunkMinRunes \<le> countRunes c"

lemma countRunes_append: "valid_utf8 a \<Longrightarrow> countRunes (a @ b) = countRunes a + countRunes b"
  by (simp add: countRunes_def runes_append)

lemma concat_snoc_last: "ms \<noteq> [] \<Longrightarrow> concat (butlast ms) @ last ms = concat ms"
  by (induction ms) auto

lemma join_back_concat: "concat (join_back cs ms) = concat ms @ concat cs"
  by (induction cs ms rule: join_back.induct)
    (auto simp: concat_snoc_last simp flip: append_assoc)

lemma join_front_concat: "concat (join_front ms) = concat ms"
  by (induction ms rule: join_front.induct) simp_all

lemma join_short_concat: "concat (join_short cs) = concat cs"
  by (simp add: join_short_def join_front_concat join_back_concat)

lemma join_back_valid:
  "\<forall>c \<in> set cs \<union> set ms. spoken c \<Longrightarrow>
   \<forall>c \<in> set (join_back cs ms). spoken c"
proof (induction cs ms rule: join_back.induct)
  case (2 c cs ms)
  have "ms \<noteq> [] \<Longrightarrow> spoken (last ms @ c)"
    using "2.prems" by (auto intro: spoken_append)
  with 2 show ?case by (auto dest: in_set_butlastD)
qed simp

lemma join_front_valid:
  "\<forall>c \<in> set ms. spoken c \<Longrightarrow> \<forall>c \<in> set (join_front ms). spoken c"
  by (induction ms rule: join_front.induct) (auto intro: spoken_append)

lemma join_short_valid:
  "\<forall>c \<in> set cs. spoken c \<Longrightarrow>
   \<forall>c \<in> set (join_short cs). spoken c"
  unfolding join_short_def
  using join_front_valid [OF join_back_valid, of cs "[]"] by simp

text \<open>After the first loop only the first chunk can be short.\<close>

lemma join_back_long:
  "\<forall>c \<in> set ms. valid_utf8 c \<Longrightarrow> \<forall>c \<in> set cs. valid_utf8 c \<Longrightarrow>
   \<forall>c \<in> set (tl ms). long_chunk c \<Longrightarrow> \<forall>c \<in> set (tl (join_back cs ms)). long_chunk c"
proof (induction cs ms rule: join_back.induct)
  case (2 c cs ms)
  have grow: "ms \<noteq> [] \<Longrightarrow> valid_utf8 (last ms @ c) \<and> countRunes (last ms) \<le> countRunes (last ms @ c)"
    using "2.prems" by (simp add: valid_utf8_append countRunes_append)
  show ?case
  proof (cases "length ms > 0 \<and> countRunes c < ttsChunkMinRunes")
    case True
    then have ne: "ms \<noteq> []" by simp
    have "\<forall>d \<in> set (tl (butlast ms @ [last ms @ c])). long_chunk d"
      using "2.prems"(3) grow [OF ne] ne
      by (cases ms) (auto dest: in_set_butlastD intro: order_trans split: if_splits)
    moreover have "\<forall>d \<in> set (butlast ms @ [last ms @ c]). valid_utf8 d"
      using "2.prems"(1) grow [OF ne] by (auto dest: in_set_butlastD)
    ultimately show ?thesis
      using True "2.IH"(1) "2.prems"(2) by simp
  next
    case False
    have "\<forall>d \<in> set (tl (ms @ [c])). long_chunk d"
      using False "2.prems"(3) by (cases ms) auto
    with False show ?thesis
      using "2.IH"(2) "2.prems" by auto
  qed
qed simp

lemma join_front_long:
  "\<forall>c \<in> set ms. valid_utf8 c \<Longrightarrow> \<forall>c \<in> set (tl ms). long_chunk c \<Longrightarrow>
   2 \<le> length (join_front ms) \<Longrightarrow> \<forall>c \<in> set (join_front ms). long_chunk c"
  by (induction ms rule: join_front.induct) (auto simp: valid_utf8_append split: if_splits)

lemma join_short_long:
  assumes "\<forall>c \<in> set cs. spoken c" and "2 \<le> length (join_short cs)"
  shows "\<forall>c \<in> set (join_short cs). long_chunk c"
proof (cases "cs = []")
  case True
  then show ?thesis by (simp add: join_short_def)
next
  case False
  have "\<forall>c \<in> set (join_back cs []). valid_utf8 c"
    using join_back_valid [of cs "[]"] assms(1) by auto
  moreover have "\<forall>c \<in> set (tl (join_back cs [])). long_chunk c"
    using join_back_long [of "[]" cs] assms(1) by auto
  moreover have "join_short cs = join_front (join_back cs [])"
    using False by (simp add: join_short_def)
  ultimately show ?thesis
    using join_front_long assms(2) by simp
qed

lemma join_back_nonempty: "cs \<noteq> [] \<or> ms \<noteq> [] \<Longrightarrow> join_back cs ms \<noteq> []"
  by (induction cs ms rule: join_back.induct) auto

lemma join_front_nonempty: "ms \<noteq> [] \<Longrightarrow> join_front ms \<noteq> []"
  by (induction ms rule: join_front.induct) auto

lemma length_join_back: "length (join_back cs ms) \<le> length cs + length ms"
  by (induction cs ms rule: join_back.induct) (auto split: if_splits)

lemma length_join_front: "length (join_front ms) \<le> length ms"
  by (induction ms rule: join_front.induct) auto

lemma join_short_eq_Nil: "join_short cs = [] \<longleftrightarrow> cs = []"
  using join_back_nonempty [of cs "[]"] join_front_nonempty [of "join_back cs []"]
  by (auto simp: join_short_def)

lemma length_join_short: "length (join_short cs) \<le> length cs"
  using length_join_front [of "join_back cs []"] length_join_back [of cs "[]"]
  by (simp add: join_short_def)

section \<open>The whole split\<close>

lemma sentences_from_length: "length (sentences_from rs sb) \<le> count_list rs kuten + 1"
  by (induction rs sb rule: sentences_from.induct) (auto simp: keep_def Let_def)

lemma answer_chunks_short:
  "length (splitBySentence a) \<le> 2 \<Longrightarrow>
   answer_chunks a = (if trim_space a = '''' then [] else [trim_space a])"
  by (simp add: answer_chunks_def ttsLeadSentences_def Let_def)

lemma answer_chunks_long:
  "2 < length (splitBySentence a) \<Longrightarrow>
   answer_chunks a = trim_space (concat (take 2 (splitBySentence a)))
     # join_short (drop 2 (splitBySentence a))"
  by (simp add: answer_chunks_def ttsLeadSentences_def Let_def)

lemma splitBySentence_take_drop:
  "\<forall>c \<in> set (take n (splitBySentence a)). spoken c"
  "\<forall>c \<in> set (drop n (splitBySentence a)). spoken c"
  by (auto dest!: in_set_takeD in_set_dropD splitBySentence_valid)

section \<open>The split as one pass over runes\<close>

text \<open>
  What the split computes, without string builder, accumulators and the two merging loops: cut
  after every full stop, trim, drop what is blank, then group.
\<close>

fun pieces :: "rune list \<Rightarrow> rune list \<Rightarrow> rune list list" where
  "pieces [] acc = [acc]"
| "pieces (r # rs) acc =
     (if r = kuten then (acc @ [r]) # pieces rs [] else pieces rs (acc @ [r]))"

definition trimmed_pieces :: "rune list \<Rightarrow> rune list list" where
  "trimmed_pieces rs = filter (\<lambda>c. c \<noteq> []) (map (trim_list is_space) (pieces rs []))"

text \<open>
  One pass over the body: a sentence starts a new chunk exactly when it is long and the chunk
  before it is long.
\<close>

fun absorb :: "('a list \<Rightarrow> nat) \<Rightarrow> 'a list \<Rightarrow> 'a list list \<Rightarrow> 'a list list" where
  "absorb len g [] = [g]"
| "absorb len g (c # cs) =
     (if len g < ttsChunkMinRunes \<or> len c < ttsChunkMinRunes then absorb len (g @ c) cs
      else g # absorb len c cs)"

definition split_spec :: "rune list \<Rightarrow> rune list list" where
  "split_spec rs =
     (case trimmed_pieces rs of
        s1 # s2 # s3 # rest \<Rightarrow> trim_list is_space (s1 @ s2) # absorb length s3 rest
      | _ \<Rightarrow> if trim_list is_space rs = [] then [] else [trim_list is_space rs])"

lemma sentences_from_pieces:
  "\<forall>r \<in> set (acc @ rs). valid_rune r \<Longrightarrow>
   sentences_from rs (encode_runes acc) =
     map encode_runes (filter (\<lambda>c. c \<noteq> []) (map (trim_list is_space) (pieces rs acc)))"
proof (induction rs acc rule: pieces.induct)
  case (1 acc)
  then show ?case by (simp add: keep_def Let_def trim_space_encode)
next
  case (2 r rs acc)
  have e: "encode_runes acc @ encode_rune r = encode_runes (acc @ [r])"
    by (simp add: encode_runes_Cons)
  show ?case
  proof (cases "r = kuten")
    case True
    then show ?thesis
      using 2 e trim_space_encode [of "acc @ [r]"]
      by (simp add: keep_def Let_def del: encode_runes_append)
  next
    case False
    with 2 show ?thesis by (simp add: e del: encode_runes_append)
  qed
qed

lemma splitBySentence_encode:
  "\<forall>r \<in> set rs. valid_rune r \<Longrightarrow>
   splitBySentence (encode_runes rs) = map encode_runes (trimmed_pieces rs)"
  using sentences_from_pieces [of "[]" rs]
  by (simp add: splitBySentence_def sentence_loop_eq runes_encode_runes trimmed_pieces_def)

lemma absorb_prefix:
  assumes "\<forall>d \<in> set (g # c # cs). valid_utf8 d" and "long_chunk c"
  shows "absorb countRunes (g @ c) cs =
    (g @ hd (absorb countRunes c cs)) # tl (absorb countRunes c cs)"
  using assms
proof (induction cs arbitrary: c)
  case (Cons d cs)
  have "long_chunk (g @ c)" and "long_chunk (c @ d)"
    using Cons.prems by (simp_all add: countRunes_append)
  with Cons.prems Cons.IH [of "c @ d"] show ?case
    by (simp add: valid_utf8_append)
qed simp

lemma join_back_absorb:
  "\<forall>d \<in> set (g # cs). valid_utf8 d \<Longrightarrow> long_chunk g \<Longrightarrow>
   join_back cs (pre @ [g]) = pre @ absorb countRunes g cs"
proof (induction cs arbitrary: pre g)
  case (Cons c cs)
  have v: "valid_utf8 (g @ c)" "long_chunk (g @ c)"
    using Cons.prems by (simp_all add: valid_utf8_append countRunes_append)
  show ?case
  proof (cases "long_chunk c")
    case True
    with Cons.prems Cons.IH [of c "pre @ [g]"] show ?thesis by simp
  next
    case False
    with Cons.prems v Cons.IH [of "g @ c" pre] show ?thesis by simp
  qed
qed simp

lemma hd_absorb_long:
  "\<forall>d \<in> set (g # cs). valid_utf8 d \<Longrightarrow> long_chunk g \<Longrightarrow> long_chunk (hd (absorb countRunes g cs))"
  by (induction cs arbitrary: g) (simp_all add: valid_utf8_append countRunes_append)

lemma absorb_nonempty [simp]: "absorb len g cs \<noteq> []"
  by (induction cs arbitrary: g) auto

lemma join_front_long_hd: "long_chunk (hd ms) \<Longrightarrow> join_front ms = ms"
  by (cases ms rule: join_front.cases) simp_all

lemma merge_absorb:
  "\<forall>d \<in> set (g # cs). valid_utf8 d \<Longrightarrow> join_front (join_back cs [g]) = absorb countRunes g cs"
proof (induction cs arbitrary: g)
  case (Cons c cs)
  have v: "valid_utf8 (g @ c)" using Cons.prems by (simp add: valid_utf8_append)
  show ?case
  proof (cases "long_chunk c")
    case False
    with Cons.prems v Cons.IH [of "g @ c"] show ?thesis by simp
  next
    case c: True
    show ?thesis
    proof (cases "long_chunk g")
      case True
      with c Cons.prems join_back_absorb [of g "c # cs" "[]"] hd_absorb_long [of g "c # cs"]
      show ?thesis by (simp add: join_front_long_hd)
    next
      case False
      have b: "join_back cs [g, c] = g # absorb countRunes c cs"
        using c Cons.prems join_back_absorb [of c cs "[g]"] by simp
      obtain x xs where a: "absorb countRunes c cs = x # xs"
        by (metis absorb_nonempty neq_Nil_conv)
      have "long_chunk x" using a c Cons.prems hd_absorb_long [of c cs] by simp
      then have "long_chunk (g @ x)" using Cons.prems by (simp add: countRunes_append)
      then show ?thesis
        using False c b a Cons.prems absorb_prefix [of g c cs] by (simp add: join_front_long_hd)
    qed
  qed
qed simp

lemma absorb_encode:
  "\<forall>d \<in> set (g # cs). \<forall>r \<in> set d. valid_rune r \<Longrightarrow>
   absorb countRunes (encode_runes g) (map encode_runes cs)
     = map encode_runes (absorb length g cs)"
proof (induction cs arbitrary: g)
  case (Cons c cs)
  then have "countRunes (encode_runes g) = length g" "countRunes (encode_runes c) = length c"
    by (simp_all add: countRunes_def runes_encode_runes)
  with Cons.prems Cons.IH [of c] Cons.IH [of "g @ c"] show ?case by auto
qed simp

lemma pieces_set: "c \<in> set (pieces rs acc) \<Longrightarrow> set c \<subseteq> set acc \<union> set rs"
  by (induction rs acc rule: pieces.induct) (auto split: if_splits)

lemma trimmed_pieces_valid:
  "\<forall>r \<in> set rs. valid_rune r \<Longrightarrow> c \<in> set (trimmed_pieces rs) \<Longrightarrow> \<forall>r \<in> set c. valid_rune r"
  by (auto simp: trimmed_pieces_def dest!: set_trim_list pieces_set)

lemma answer_chunks_encode:
  assumes "\<forall>r \<in> set rs. valid_rune r"
  shows "answer_chunks (encode_runes rs) = map encode_runes (split_spec rs)"
proof (cases "2 < length (trimmed_pieces rs)")
  case True
  then obtain s1 s2 s3 rest where p: "trimmed_pieces rs = s1 # s2 # s3 # rest"
    by (auto simp: neq_Nil_conv numeral_2_eq_2 Suc_less_eq2 length_Suc_conv dest!: less_imp_Suc_add)
  have v: "\<forall>d \<in> set (s1 # s2 # s3 # rest). \<forall>r \<in> set d. valid_rune r"
    using trimmed_pieces_valid [OF assms] p by auto
  have u: "\<forall>d \<in> set (encode_runes s3 # map encode_runes rest). valid_utf8 d"
    using v by auto
  have "answer_chunks (encode_runes rs) = trim_space (encode_runes (s1 @ s2))
      # absorb countRunes (encode_runes s3) (map encode_runes rest)"
    using splitBySentence_encode [OF assms] p u
    by (simp add: answer_chunks_long join_short_def merge_absorb)
  then show ?thesis
    using v p trim_space_encode [of "s1 @ s2"] absorb_encode [of s3 rest]
    by (auto simp: split_spec_def)
next
  case False
  then have "split_spec rs = (if trim_list is_space rs = [] then [] else [trim_list is_space rs])"
    by (auto simp: split_spec_def split: list.splits)
  with False show ?thesis
    using splitBySentence_encode [OF assms] trim_space_encode [OF assms]
    by (simp add: answer_chunks_short)
qed

text \<open>An answer with four sentences, given by its runes, for the witnesses.\<close>

definition sample_runes :: "rune list" where
  "sample_runes =
     [12450, 12290, 12371, 12290, 32, 49, 50, 51, 52, 53, 54, 55, 56, 57, 48, 49, 50, 12290,
      97, 98, 99, 100, 101, 102, 103, 104, 105, 106, 107, 12290, 32, 97, 12290]"

definition sample_answer :: gostring where
  "sample_answer = encode_runes sample_runes"

lemma sample_runes_valid: "\<forall>r \<in> set sample_runes. valid_rune r"
  by (simp add: sample_runes_def valid_rune_def)

lemma sample_answer_valid: "valid_utf8 sample_answer"
  unfolding sample_answer_def by (rule valid_utf8_encode [OF sample_runes_valid])

lemma sample_split: "split_spec sample_runes =
   [[12450, 12290, 12371, 12290], [49, 50, 51, 52, 53, 54, 55, 56, 57, 48, 49, 50, 12290],
    [97, 98, 99, 100, 101, 102, 103, 104, 105, 106, 107, 12290, 97, 12290]]"
  by (simp add: sample_runes_def split_spec_def trimmed_pieces_def kuten_def trim_list_def
      is_space_def between_def ttsChunkMinRunes_def)

lemma sample_eval:
  "answer_chunks sample_answer = map encode_runes (split_spec sample_runes)"
  unfolding sample_answer_def by (rule answer_chunks_encode [OF sample_runes_valid])

lemma answer_chunks_ink:
  assumes "valid_utf8 a"
  shows "concat (map ink (answer_chunks a)) = ink a"
proof (cases "length (splitBySentence a) \<le> 2")
  case True
  have "ink (trim_space a) = ink a" using assms by (rule ink_trim)
  with True show ?thesis by (auto simp: answer_chunks_short)
next
  case False
  let ?t = "take 2 (splitBySentence a)" and ?d = "drop 2 (splitBySentence a)"
  have t: "\<forall>c \<in> set ?t. valid_utf8 c" and d: "\<forall>c \<in> set ?d. valid_utf8 c"
    using splitBySentence_take_drop [of 2 a] by blast+
  have vt: "valid_utf8 (concat ?t)" using t by (rule valid_utf8_concat)
  have "concat (map ink (join_short ?d)) = ink (concat (join_short ?d))"
    using join_short_valid [OF splitBySentence_take_drop(2)] by (subst ink_concat) auto
  also have "\<dots> = ink (concat ?d)" by (simp add: join_short_concat)
  finally have "concat (map ink (answer_chunks a)) = ink (concat ?t) @ ink (concat ?d)"
    using False vt by (simp add: answer_chunks_long ink_trim)
  also have "\<dots> = ink (concat (?t @ ?d))"
    using ink_append [OF vt] by (simp only: concat_append)
  finally show ?thesis by (simp only: append_take_drop_id splitBySentence_ink)
qed

section \<open>Properties\<close>

text \<open>
  C34. Splitting an answer loses nothing but white space and reorders nothing: the non-space
  runes of the chunks, one chunk after the other, are the non-space runes of the answer.
\<close>

theorem split_preserves_text:
  assumes "valid_utf8 a"
  shows "\<exists>chunks. splitAnswerForTTS a = Return chunks \<and> concat (map ink chunks) = ink a"
  by (simp add: split_returns answer_chunks_ink [OF assms])

theorem split_preserves_text_witness:
  "\<exists>chunks. splitAnswerForTTS sample_answer = Return chunks \<and>
     concat (map ink chunks) = ink sample_answer"
  by (rule split_preserves_text [OF sample_answer_valid])

text \<open>
  No chunk is empty, and the result is empty exactly when the answer is blank, so every
  answer with something to say produces speech.
\<close>

lemma answer_chunks_blank:
  "'''' \<notin> set (answer_chunks a)
   \<and> (answer_chunks a = [] \<longleftrightarrow> (\<forall>r \<in> set (runes a). is_space r))"
proof (cases "length (splitBySentence a) \<le> 2")
  case True
  then show ?thesis
    using trim_space_eq_Nil [of a] by (cases "trim_space a") (auto simp: answer_chunks_short)
next
  case False
  let ?t = "take 2 (splitBySentence a)" and ?d = "drop 2 (splitBySentence a)"
  have sp: "\<forall>c \<in> set ?t. spoken c" using splitBySentence_take_drop(1) .
  obtain c cs where t: "?t = c # cs" using False by (cases "splitBySentence a") auto
  have "valid_utf8 (concat cs)" using sp t by (auto intro!: valid_utf8_concat)
  then have "spoken (concat ?t)" using sp t by (auto intro: spoken_append)
  moreover have "\<forall>c \<in> set (join_short ?d). spoken c"
    by (rule join_short_valid [OF splitBySentence_take_drop(2)])
  moreover have "ink a = ink (concat ?t) @ ink (concat ?d)"
    using ink_append [of "concat ?t" "concat ?d"] \<open>spoken (concat ?t)\<close>
      splitBySentence_ink [of a] by (simp add: spoken_def flip: concat_append)
  ultimately have "[] \<noteq> trim_space (concat ?t)" "[] \<notin> set (join_short ?d)"
    "ink a \<noteq> []"
    using spoken_not_blank [of "concat ?t"] by (force simp: spoken_def)+
  then show ?thesis
    using False ink_eq_Nil [of a] by (auto simp: answer_chunks_long)
qed

text \<open>
  Chunk size: the lead chunk apart, a chunk shorter than \<open>ttsChunkMinRunes\<close> runes is only
  ever the sole chunk of the body.
\<close>

lemma answer_chunks_size:
  assumes "2 < length (answer_chunks a)" and "0 < i" and "i < length (answer_chunks a)"
  shows "ttsChunkMinRunes \<le> countRunes (answer_chunks a ! i)"
proof -
  have l: "2 < length (splitBySentence a)"
    using assms(1) by (cases "length (splitBySentence a) \<le> 2") (auto simp: answer_chunks_short split: if_splits)
  let ?b = "join_short (drop 2 (splitBySentence a))"
  have "2 \<le> length ?b" using assms(1) l by (simp add: answer_chunks_long)
  then have "\<forall>c \<in> set ?b. long_chunk c"
    using splitBySentence_take_drop(2) by (blast intro: join_short_long [rule_format])
  moreover have "answer_chunks a ! i = ?b ! (i - 1)" "i - 1 < length ?b"
    using assms l by (simp_all add: answer_chunks_long nth_Cons')
  ultimately show ?thesis by simp
qed

theorem split_chunk_size:
  "splitAnswerForTTS a = Return chunks \<Longrightarrow> 2 < length chunks \<Longrightarrow> 0 < i \<Longrightarrow> i < length chunks \<Longrightarrow>
   ttsChunkMinRunes \<le> countRunes (chunks ! i)"
  using answer_chunks_size by (auto simp: split_returns)

text \<open>
  C26. The code refines a one-pass specification on runes: cut after every full stop, trim, drop
  blank pieces; fewer than three pieces give the trimmed answer; otherwise the first two form
  the lead chunk, and in the body a sentence starts a new chunk exactly when it and the chunk
  before it have at least \<open>ttsChunkMinRunes\<close> runes. The two merging loops of the code and
  its byte-level decoding compute exactly this.
\<close>

theorem split_refines_spec:
  assumes "valid_utf8 a"
  shows "splitAnswerForTTS a = Return (map encode_runes (split_spec (runes a)))"
  using answer_chunks_encode [of "runes a"] runes_valid assms
  by (auto simp: valid_utf8_def split_returns)

theorem split_refines_spec_witness:
  "splitAnswerForTTS sample_answer = Return (map encode_runes
     [[12450, 12290, 12371, 12290], [49, 50, 51, 52, 53, 54, 55, 56, 57, 48, 49, 50, 12290],
      [97, 98, 99, 100, 101, 102, 103, 104, 105, 106, 107, 12290, 97, 12290]])"
proof -
  have "runes sample_answer = sample_runes"
    by (simp add: sample_answer_def runes_encode_runes [OF sample_runes_valid])
  then show ?thesis
    using split_refines_spec [OF sample_answer_valid] by (simp only: sample_split)
qed

text \<open>
  The number of chunks is at most the number of full stops in the answer (one chunk if
  there is none or a single one).
\<close>

lemma answer_chunks_count:
  "length (answer_chunks a) \<le> max 1 (count_list (runes a) kuten)"
proof (cases "length (splitBySentence a) \<le> 2")
  case True
  then show ?thesis by (auto simp: answer_chunks_short)
next
  case False
  have "length (splitBySentence a) \<le> count_list (runes a) kuten + 1"
    using sentences_from_length [of "runes a" "[]"]
    by (simp add: splitBySentence_def sentence_loop_eq)
  then show ?thesis
    using False length_join_short [of "drop 2 (splitBySentence a)"]
    by (simp add: answer_chunks_long)
qed

end
