(* ===== verification/Proto.thy ===== *)
theory Proto
  imports Prelude
begin

text \<open>
  The messages of \<open>app/proto/transceiver.proto\<close> as the Go code sees them
  (\<open>proto/transceiver.pb.go\<close>): the open enum \<open>StreamStatus\<close>, an \<open>int32\<close> whose values
  outside the five named ones are possible on the wire, and the message \<open>AudioChunk\<close>.
\<close>

datatype StreamStatus = UNKNOWN | ONESHOT | START | CONTINUE | END | Unrecognized int

definition status_of_int :: "int \<Rightarrow> StreamStatus" where
  "status_of_int n =
     (if n = 0 then UNKNOWN else if n = 1 then ONESHOT else if n = 2 then START
      else if n = 3 then CONTINUE else if n = 4 then END else Unrecognized n)"

fun int_of_status :: "StreamStatus \<Rightarrow> int" where
  "int_of_status UNKNOWN = 0"
| "int_of_status ONESHOT = 1"
| "int_of_status START = 2"
| "int_of_status CONTINUE = 3"
| "int_of_status END = 4"
| "int_of_status (Unrecognized n) = n"

lemma int_of_status_of_int [simp]: "int_of_status (status_of_int n) = n"
  by (simp add: status_of_int_def)

record AudioChunk =
  OggOpusData :: bytes
  ChunkStatus :: StreamStatus
  ChunkStreamId :: gostring

text \<open>The statuses that belong to a continuous stream, and the two that finish a stream.\<close>

fun is_stream_status :: "StreamStatus \<Rightarrow> bool" where
  "is_stream_status s = (s = START \<or> s = CONTINUE \<or> s = END)"

fun is_terminal :: "StreamStatus \<Rightarrow> bool" where
  "is_terminal s = (s = END \<or> s = ONESHOT)"

end
