(* ===== verification/Player.thy ===== *)
theory Player
  imports Proto
begin

text \<open>
  The playback queue of the emulator, \<open>app/radio-bridge-emulator/player.go\<close>: chunks are kept
  per stream id, streams play one after the other in the order of their first chunk, a stream
  ends with an END or ONESHOT chunk or by a time-out, and late chunks of the last 16 closed
  streams are dropped. Every operation runs under the player's mutex, so it is one function on
  the state; the playback goroutine and the pushes of the connections interleave between them.
\<close>

section \<open>State\<close>

definition maxClosedStreams :: nat where
  "maxClosedStreams = 16"

record playerEntry =
  data :: bytes
  status :: StreamStatus

record player =
  order :: "gostring list"
  streams :: "gostring \<rightharpoonup> playerEntry list"
  closedOrder :: "gostring list"
  closedSet :: "gostring set"

definition newPlayer :: player where
  "newPlayer = \<lparr>order = [], streams = Map.empty, closedOrder = [], closedSet = {}\<rparr>"

text \<open>Reading a missing key of a Go map of slices gives the nil slice.\<close>

definition stream_chunks :: "player \<Rightarrow> gostring \<Rightarrow> playerEntry list" where
  "stream_chunks p sid = (case streams p sid of None \<Rightarrow> [] | Some es \<Rightarrow> es)"

section \<open>Operations\<close>

fun valid_status :: "StreamStatus \<Rightarrow> bool" where
  "valid_status ONESHOT = True"
| "valid_status START = True"
| "valid_status CONTINUE = True"
| "valid_status END = True"
| "valid_status _ = False"

definition push :: "bytes \<Rightarrow> StreamStatus \<Rightarrow> gostring \<Rightarrow> player \<Rightarrow> player" where
  "push d st sid p =
     (if \<not> valid_status st then p
      else if sid \<in> closedSet p then p
      else
        let entry = \<lparr>data = d, status = st\<rparr>
        in case streams p sid of
             None \<Rightarrow> p\<lparr>order := order p @ [sid], streams := (streams p)(sid \<mapsto> [entry])\<rparr>
           | Some es \<Rightarrow> p\<lparr>streams := (streams p)(sid \<mapsto> es @ [entry])\<rparr>)"

text \<open>The eviction loop of \<open>markClosed\<close>.\<close>

fun evict_closed :: "gostring list \<Rightarrow> gostring set \<Rightarrow> gostring list \<times> gostring set" where
  "evict_closed [] s = ([], s)"
| "evict_closed (old # rest) s =
     (if length (old # rest) > maxClosedStreams then evict_closed rest (s - {old})
      else (old # rest, s))"

definition markClosed :: "gostring \<Rightarrow> player \<Rightarrow> player" where
  "markClosed sid p =
     (if sid = '''' then p
      else if sid \<in> closedSet p then p
      else case evict_closed (closedOrder p @ [sid]) (insert sid (closedSet p)) of
             (os, s) \<Rightarrow> p\<lparr>closedOrder := os, closedSet := s\<rparr>)"

definition currentStream :: "player \<Rightarrow> gostring" where
  "currentStream p = (case order p of [] \<Rightarrow> '''' | sid # _ \<Rightarrow> sid)"

definition currentHasChunk :: "player \<Rightarrow> bool" where
  "currentHasChunk p =
     (let sid = currentStream p
      in if sid = '''' then False else length (stream_chunks p sid) > 0)"

definition popCurrent :: "player \<Rightarrow> playerEntry option \<times> player" where
  "popCurrent p =
     (let sid = currentStream p
      in if sid = '''' then (None, p)
         else case stream_chunks p sid of
                [] \<Rightarrow> (None, p)
              | entry # rest \<Rightarrow> (Some entry, p\<lparr>streams := (streams p)(sid \<mapsto> rest)\<rparr>))"

definition finishCurrent :: "player \<Rightarrow> player" where
  "finishCurrent p =
     (case order p of
        [] \<Rightarrow> p
      | sid # rest \<Rightarrow> markClosed sid (p\<lparr>order := rest, streams := (streams p)(sid := None)\<rparr>))"

definition hasStream :: "player \<Rightarrow> bool" where
  "hasStream p \<longleftrightarrow> length (order p) > 0"

section \<open>The invariant\<close>

text \<open>
  The order lists exactly the streams that hold a chunk list, each once; the closed list and the
  closed set agree and hold at most 16 ids; no queued stream is closed and none has the empty
  id.
\<close>

definition player_inv :: "player \<Rightarrow> bool" where
  "player_inv p \<longleftrightarrow>
     distinct (order p) \<and> dom (streams p) = set (order p) \<and> '''' \<notin> set (order p)
     \<and> distinct (closedOrder p) \<and> set (closedOrder p) = closedSet p
     \<and> length (closedOrder p) \<le> maxClosedStreams \<and> set (order p) \<inter> closedSet p = {}"

lemma newPlayer_inv: "player_inv newPlayer"
  by (simp add: player_inv_def newPlayer_def)

lemma push_inv: "player_inv p \<Longrightarrow> sid \<noteq> '''' \<Longrightarrow> player_inv (push d st sid p)"
  by (auto simp: player_inv_def push_def Let_def split: option.splits)

lemma evict_closed_inv:
  "distinct os \<Longrightarrow> set os = s \<Longrightarrow> evict_closed os s = (os', s') \<Longrightarrow>
   distinct os' \<and> set os' = s' \<and> length os' \<le> maxClosedStreams \<and> s' \<subseteq> s"
proof (induction os s rule: evict_closed.induct)
  case (2 old rest s)
  show ?case
  proof (cases "maxClosedStreams < length (old # rest)")
    case True
    have "set rest = s - {old}" using "2.prems" by auto
    with True 2 have "distinct os' \<and> set os' = s' \<and> length os' \<le> maxClosedStreams \<and> s' \<subseteq> s - {old}"
      by simp
    then show ?thesis by blast
  next
    case False
    with "2.prems" show ?thesis by auto
  qed
qed simp

lemma markClosed_inv:
  assumes "player_inv p" and "sid \<notin> set (order p)"
  shows "player_inv (markClosed sid p)"
proof (cases "sid = '''' \<or> sid \<in> closedSet p")
  case True
  with assms show ?thesis by (auto simp: markClosed_def)
next
  case False
  obtain os s where e: "evict_closed (closedOrder p @ [sid]) (insert sid (closedSet p)) = (os, s)"
    by (cases "evict_closed (closedOrder p @ [sid]) (insert sid (closedSet p))")
  have "distinct os \<and> set os = s \<and> length os \<le> maxClosedStreams \<and> s \<subseteq> insert sid (closedSet p)"
    using assms False by (intro evict_closed_inv [OF _ _ e]) (auto simp: player_inv_def)
  with False assms e show ?thesis
    by (auto simp: player_inv_def markClosed_def)
qed

lemma popCurrent_inv: "player_inv p \<Longrightarrow> player_inv (snd (popCurrent p))"
  by (auto simp: player_inv_def popCurrent_def Let_def currentStream_def stream_chunks_def
      split: list.splits option.splits)

lemma finishCurrent_inv: "player_inv p \<Longrightarrow> player_inv (finishCurrent p)"
proof (cases "order p")
  case (Cons sid rest)
  assume inv: "player_inv p"
  let ?p = "p\<lparr>order := rest, streams := (streams p)(sid := None)\<rparr>"
  have "player_inv ?p" and "sid \<notin> set (order ?p)"
    using inv Cons by (auto simp: player_inv_def)
  then have "player_inv (markClosed sid ?p)" by (rule markClosed_inv)
  with Cons show "player_inv (finishCurrent p)" by (simp add: finishCurrent_def)
qed (simp add: finishCurrent_def)

section \<open>The abstract queue\<close>

text \<open>
  What the player's maps and slices stand for: the waiting streams in playback order, each with
  its chunks in the order of arrival.
\<close>

type_synonym queue = "(gostring \<times> playerEntry list) list"

fun q_push :: "gostring \<Rightarrow> playerEntry \<Rightarrow> queue \<Rightarrow> queue" where
  "q_push sid e [] = [(sid, [e])]"
| "q_push sid e ((s, es) # q) = (if s = sid then (s, es @ [e]) # q else (s, es) # q_push sid e q)"

fun q_pop :: "queue \<Rightarrow> playerEntry option \<times> queue" where
  "q_pop [] = (None, [])"
| "q_pop ((s, []) # q) = (None, (s, []) # q)"
| "q_pop ((s, e # es) # q) = (Some e, (s, es) # q)"

definition queue_of :: "player \<Rightarrow> queue" where
  "queue_of p = map (\<lambda>sid. (sid, stream_chunks p sid)) (order p)"

lemma q_push_new: "sid \<notin> fst ` set q \<Longrightarrow> q_push sid e q = q @ [(sid, [e])]"
  by (induction sid e q rule: q_push.induct) auto

lemma q_push_old:
  "distinct os \<Longrightarrow> sid \<in> set os \<Longrightarrow>
   q_push sid e (map (\<lambda>s. (s, f s)) os) = map (\<lambda>s. (s, (f(sid := f sid @ [e])) s)) os"
proof (induction os)
  case (Cons o' os)
  then show ?case by (auto cong: map_cong)
qed simp

text \<open>
  The interface between a queue and the loop that plays it: the emulator's playback goroutine and the
  controller of the radio bridge use no more of their queues. \<open>load\<close> counts the streams and chunks
  that wait; a loop that pops and finishes gets to the end because both make it smaller.
\<close>

locale play_queue =
  fixes deq :: "'p \<Rightarrow> playerEntry option \<times> 'p"
    and finish :: "'p \<Rightarrow> 'p"
    and repr :: "'p \<Rightarrow> queue"
    and closed :: "'p \<Rightarrow> gostring set"
    and inv :: "'p \<Rightarrow> bool"
  assumes deq_inv: "inv p \<Longrightarrow> inv (snd (deq p))"
    and finish_inv: "inv p \<Longrightarrow> inv (finish p)"
    and deq_repr: "inv p \<Longrightarrow> deq p = (e, p') \<Longrightarrow> q_pop (repr p) = (e, repr p')"
    and deq_closed: "closed (snd (deq p)) = closed p"
    and finish_repr: "inv p \<Longrightarrow> repr (finish p) = tl (repr p)"
    and finish_closed: "inv p \<Longrightarrow> repr p = (sid, es) # q \<Longrightarrow> sid \<in> closed (finish p)"
begin

definition load :: "'p \<Rightarrow> nat" where
  "load p = sum_list (map (\<lambda>(sid, es). Suc (length es)) (repr p))"

lemma deq_load:
  assumes "inv p" and "deq p = (Some e, p')"
  shows "load p' < load p"
proof -
  from deq_repr [OF assms] obtain sid es rest
    where "repr p = (sid, e # es) # rest" "repr p' = (sid, es) # rest"
    by (cases "repr p" rule: q_pop.cases) auto
  then show ?thesis by (simp add: load_def)
qed

lemma finish_load: "inv p \<Longrightarrow> repr p \<noteq> [] \<Longrightarrow> load (finish p) < load p"
  using finish_repr [of p] by (cases "repr p") (auto simp: load_def)

end

text \<open>With the pushes of the connections.\<close>

locale stream_queue = play_queue deq finish repr closed inv
  for deq :: "'p \<Rightarrow> playerEntry option \<times> 'p"
    and finish :: "'p \<Rightarrow> 'p"
    and repr :: "'p \<Rightarrow> queue"
    and closed :: "'p \<Rightarrow> gostring set"
    and inv :: "'p \<Rightarrow> bool" +
  fixes enq :: "bytes \<Rightarrow> StreamStatus \<Rightarrow> gostring \<Rightarrow> 'p \<Rightarrow> 'p"
  assumes enq_inv: "inv p \<Longrightarrow> sid \<noteq> '''' \<Longrightarrow> inv (enq d st sid p)"
    and enq_open: "inv p \<Longrightarrow> sid \<noteq> '''' \<Longrightarrow> valid_status st \<Longrightarrow> sid \<notin> closed p \<Longrightarrow>
          repr (enq d st sid p) = q_push sid \<lparr>data = d, status = st\<rparr> (repr p)"
    and enq_closed_set: "closed (enq d st sid p) = closed p"
    and enq_dropped: "\<not> valid_status st \<or> sid \<in> closed p \<Longrightarrow> enq d st sid p = p"
begin

text \<open>A stream pushed chunk by chunk.\<close>

definition enq_all :: "gostring \<Rightarrow> playerEntry list \<Rightarrow> 'p \<Rightarrow> 'p" where
  "enq_all sid es p = fold (\<lambda>e. enq (data e) (status e) sid) es p"

lemma enq_all_Nil [simp]: "enq_all sid [] p = p"
  by (simp add: enq_all_def)

lemma enq_all_Cons [simp]: "enq_all sid (e # es) p = enq_all sid es (enq (data e) (status e) sid p)"
  by (simp add: enq_all_def)

lemma enq_all_inv: "inv p \<Longrightarrow> sid \<noteq> '''' \<Longrightarrow> inv (enq_all sid es p)"
  by (induction es arbitrary: p) (simp_all add: enq_inv)

lemma enq_all_tail:
  "inv p \<Longrightarrow> sid \<noteq> '''' \<Longrightarrow> sid \<notin> closed p \<Longrightarrow> \<forall>e \<in> set es. valid_status (status e) \<Longrightarrow>
   repr p = q @ [(sid, xs)] \<Longrightarrow> sid \<notin> fst ` set q \<Longrightarrow>
   repr (enq_all sid es p) = q @ [(sid, xs @ es)]"
proof (induction es arbitrary: p xs)
  case (Cons e es)
  have e: "\<lparr>data = data e, status = status e\<rparr> = e" by simp
  have push: "q_push sid e (q @ [(sid, xs)]) = q @ [(sid, xs @ [e])]"
    using Cons.prems(6) by (induction q) auto
  have "repr (enq (data e) (status e) sid p) = q_push sid e (repr p)"
    using Cons.prems enq_open [of p sid "status e" "data e"] unfolding e by simp
  then have "repr (enq (data e) (status e) sid p) = q @ [(sid, xs @ [e])]"
    using Cons.prems push by simp
  with Cons.prems Cons.IH [of "enq (data e) (status e) sid p" "xs @ [e]"] show ?case
    by (simp add: enq_inv enq_closed_set)
qed simp

text \<open>A new stream ends up behind the streams that wait, with all its chunks in order.\<close>

lemma enq_all_new:
  assumes "inv p" and "sid \<noteq> ''''" and "sid \<notin> closed p" and "\<forall>e \<in> set es. valid_status (status e)"
    and "sid \<notin> fst ` set (repr p)" and "es \<noteq> []"
  shows "repr (enq_all sid es p) = repr p @ [(sid, es)]"
proof -
  obtain e es' where es: "es = e # es'" using assms(6) by (cases es) auto
  have "repr (enq (data e) (status e) sid p) = repr p @ [(sid, [e])]"
    using assms es enq_open [of p sid "status e" "data e"] by (simp add: q_push_new)
  with assms es enq_all_tail [of "enq (data e) (status e) sid p" sid es' "repr p" "[e]"]
  show ?thesis by (simp add: enq_inv enq_closed_set)
qed

lemma enq_all_closed: "sid \<in> closed p \<Longrightarrow> enq_all sid es p = p"
  by (induction es) (simp_all add: enq_dropped)

end

section \<open>The player implements the queue\<close>

lemma queue_of_ids: "fst ` set (queue_of p) = set (order p)"
  by (force simp: queue_of_def)

lemma push_open [queue_laws]:
  assumes "player_inv p" and "valid_status st" and "sid \<notin> closedSet p"
  shows "queue_of (push d st sid p) = q_push sid \<lparr>data = d, status = st\<rparr> (queue_of p)"
proof (cases "streams p sid")
  case None
  then have "sid \<notin> set (order p)" using assms(1) by (auto simp: player_inv_def)
  then have "q_push sid \<lparr>data = d, status = st\<rparr> (queue_of p)
      = queue_of p @ [(sid, [\<lparr>data = d, status = st\<rparr>])]"
    by (intro q_push_new) (simp add: queue_of_ids)
  with None assms \<open>sid \<notin> set (order p)\<close> show ?thesis
    by (auto simp: push_def Let_def queue_of_def stream_chunks_def)
next
  case (Some es)
  then have "sid \<in> set (order p)" "distinct (order p)"
    using assms(1) by (auto simp: player_inv_def)
  then show ?thesis
    using Some assms q_push_old [of "order p" sid "\<lparr>data = d, status = st\<rparr>" "stream_chunks p"]
    by (auto simp: push_def Let_def queue_of_def stream_chunks_def)
qed

lemma push_dropped [queue_laws]: "\<not> valid_status st \<or> sid \<in> closedSet p \<Longrightarrow> push d st sid p = p"
  by (auto simp: push_def)

lemma push_closedSet [simp]: "closedSet (push d st sid p) = closedSet p"
  by (simp add: push_def Let_def split: option.splits)

lemma popCurrent_closedSet [simp]: "closedSet (snd (popCurrent p)) = closedSet p"
  by (simp add: popCurrent_def Let_def split: list.splits)

lemma popCurrent_queue [queue_laws]:
  assumes "player_inv p" and "popCurrent p = (e, p')"
  shows "q_pop (queue_of p) = (e, queue_of p')"
proof (cases "order p")
  case Nil
  with assms show ?thesis by (simp add: popCurrent_def currentStream_def queue_of_def)
next
  case (Cons sid rest)
  then have "sid \<noteq> ''''" "sid \<notin> set rest" using assms(1) by (auto simp: player_inv_def)
  then show ?thesis
    using assms(2) Cons
    by (cases "stream_chunks p sid")
      (auto simp: popCurrent_def currentStream_def queue_of_def stream_chunks_def Let_def)
qed

lemma markClosed_fields [simp]:
  "order (markClosed sid p) = order p" "streams (markClosed sid p) = streams p"
  by (simp_all add: markClosed_def split: prod.splits)

lemma markClosed_queue [simp]: "queue_of (markClosed sid p) = queue_of p"
  by (simp add: queue_of_def stream_chunks_def)

lemma finishCurrent_queue [queue_laws]:
  assumes "player_inv p"
  shows "queue_of (finishCurrent p) = tl (queue_of p)"
proof (cases "order p")
  case Nil
  then show ?thesis by (simp add: finishCurrent_def queue_of_def)
next
  case (Cons sid rest)
  then have "sid \<notin> set rest" using assms by (simp add: player_inv_def)
  with Cons show ?thesis
    by (auto simp: finishCurrent_def queue_of_def stream_chunks_def)
qed

lemma evict_closed_last: "evict_closed (os @ [sid]) s = (os', s') \<Longrightarrow> sid \<in> set os'"
proof (induction os arbitrary: s)
  case Nil
  then show ?case by (auto simp: maxClosedStreams_def)
next
  case (Cons o1 os)
  then show ?case by (auto split: if_splits)
qed

lemma markClosed_closed:
  assumes "player_inv p" and "sid \<noteq> ''''"
  shows "sid \<in> closedSet (markClosed sid p)"
proof (cases "sid \<in> closedSet p")
  case True
  with assms(2) show ?thesis by (simp add: markClosed_def)
next
  case False
  obtain os s where e: "evict_closed (closedOrder p @ [sid]) (insert sid (closedSet p)) = (os, s)"
    by (cases "evict_closed (closedOrder p @ [sid]) (insert sid (closedSet p))")
  have "set os = s"
    using assms False evict_closed_inv [OF _ _ e] by (auto simp: player_inv_def)
  with e False assms(2) evict_closed_last [OF e] show ?thesis by (simp add: markClosed_def)
qed

lemma finishCurrent_closes:
  assumes "player_inv p" and "order p = sid # rest"
  shows "sid \<in> closedSet (finishCurrent p)"
proof -
  let ?p = "p\<lparr>order := rest, streams := (streams p)(sid := None)\<rparr>"
  have "player_inv ?p" and "sid \<noteq> ''''" using assms by (auto simp: player_inv_def)
  then show ?thesis using assms(2) by (simp add: finishCurrent_def markClosed_closed)
qed

lemma evict_closed_subset: "evict_closed os s = (os', s') \<Longrightarrow> s' \<subseteq> s"
  by (induction os s rule: evict_closed.induct) (auto split: if_splits)

lemma finishCurrent_closedSet: "closedSet (finishCurrent p) \<subseteq> insert (currentStream p) (closedSet p)"
  by (auto simp: finishCurrent_def markClosed_def currentStream_def split: list.splits prod.splits
      dest!: evict_closed_subset)

interpretation pq: stream_queue popCurrent finishCurrent queue_of closedSet player_inv push
proof unfold_locales
  fix p p' :: player and sid d st e es q
  show "player_inv p \<Longrightarrow> sid \<noteq> '''' \<Longrightarrow> player_inv (push d st sid p)" by (rule push_inv)
  show "player_inv p \<Longrightarrow> player_inv (snd (popCurrent p))" by (rule popCurrent_inv)
  show "player_inv p \<Longrightarrow> player_inv (finishCurrent p)" by (rule finishCurrent_inv)
  show "player_inv p \<Longrightarrow> sid \<noteq> '''' \<Longrightarrow> valid_status st \<Longrightarrow> sid \<notin> closedSet p \<Longrightarrow>
      queue_of (push d st sid p) = q_push sid \<lparr>data = d, status = st\<rparr> (queue_of p)"
    by (simp add: queue_laws)
  show "closedSet (push d st sid p) = closedSet p" by simp
  show "\<not> valid_status st \<or> sid \<in> closedSet p \<Longrightarrow> push d st sid p = p" by (rule push_dropped)
  show "player_inv p \<Longrightarrow> popCurrent p = (e, p') \<Longrightarrow> q_pop (queue_of p) = (e, queue_of p')"
    by (rule popCurrent_queue)
  show "closedSet (snd (popCurrent p)) = closedSet p" by simp
  show "player_inv p \<Longrightarrow> queue_of (finishCurrent p) = tl (queue_of p)" by (rule finishCurrent_queue)
  show "player_inv p \<Longrightarrow> queue_of p = (sid, es) # q \<Longrightarrow> sid \<in> closedSet (finishCurrent p)"
    by (cases "order p") (auto simp: queue_of_def finishCurrent_closes)
qed

end
