(* ===== verification/Playback.thy ===== *)
theory Playback
  imports Player
begin

text \<open>
  The playback goroutine of the emulator, the functions \<open>run\<close>, \<open>playStream\<close>, \<open>waitForChunk\<close>
  and \<open>playEntry\<close> of \<open>app/radio-bridge-emulator/player.go\<close>, interleaved with the pushes of
  any number of connections.

  The goroutine is a program counter over the queue; each step is one critical section of the
  player's mutex or the end of a blocking call. Time enters by choice only: a waiting loop may
  find its deadline passed at any poll.
\<close>

section \<open>The step relation\<close>

datatype pc =
    AtRun                          \<comment> \<open>the head of the loop of \<open>run\<close>\<close>
  | InStream gostring              \<comment> \<open>the head of the loop of \<open>playStream\<close>\<close>
  | Playing gostring playerEntry   \<comment> \<open>inside \<open>playEntry\<close>, the mutex released\<close>
  | Waiting gostring               \<comment> \<open>the loop of \<open>waitForChunk\<close>\<close>

text \<open>
  \<open>accepted\<close> and \<open>handled\<close> are history only: the chunks the queue took in, and what became of
  them, \<open>True\<close> for played and \<open>False\<close> for discarded with their stream.
\<close>

record psys =
  pl :: player
  pcv :: pc
  accepted :: "(gostring \<times> playerEntry) list"
  handled :: "(gostring \<times> playerEntry \<times> bool) list"

definition init_psys :: psys where
  "init_psys = \<lparr>pl = newPlayer, pcv = AtRun, accepted = [], handled = []\<rparr>"

definition accepts :: "player \<Rightarrow> StreamStatus \<Rightarrow> gostring \<Rightarrow> bool" where
  "accepts p st sid \<longleftrightarrow> valid_status st \<and> sid \<notin> closedSet p"

text \<open>The chunks still queued when the current stream is finished are discarded with it.\<close>

definition leftover :: "player \<Rightarrow> (gostring \<times> playerEntry \<times> bool) list" where
  "leftover p = map (\<lambda>e. (currentStream p, e, False)) (stream_chunks p (currentStream p))"

definition finish_sys :: "psys \<Rightarrow> psys" where
  "finish_sys s = s\<lparr>pl := finishCurrent (pl s), pcv := AtRun, handled := handled s @ leftover (pl s)\<rparr>"

inductive player_step :: "psys \<Rightarrow> psys \<Rightarrow> bool" where
  arrive: "sid \<noteq> '''' \<Longrightarrow> player_step s
     (s\<lparr>pl := push d st sid (pl s),
        accepted := accepted s @ (if accepts (pl s) st sid then [(sid, \<lparr>data = d, status = st\<rparr>)] else [])\<rparr>)"
| start: "pcv s = AtRun \<Longrightarrow> hasStream (pl s) \<Longrightarrow>
     player_step s (s\<lparr>pcv := InStream (currentStream (pl s))\<rparr>)"
| pop: "pcv s = InStream sid \<Longrightarrow> popCurrent (pl s) = (Some e, p') \<Longrightarrow>
     player_step s (s\<lparr>pl := p', pcv := Playing sid e, handled := handled s @ [(sid, e, True)]\<rparr>)"
| played_last: "pcv s = Playing sid e \<Longrightarrow> is_terminal (status e) \<Longrightarrow> player_step s (finish_sys s)"
| played_more: "pcv s = Playing sid e \<Longrightarrow> \<not> is_terminal (status e) \<Longrightarrow>
     player_step s (s\<lparr>pcv := InStream sid\<rparr>)"
| ran_dry: "pcv s = InStream sid \<Longrightarrow> popCurrent (pl s) = (None, p') \<Longrightarrow>
     player_step s (s\<lparr>pl := p', pcv := Waiting sid\<rparr>)"
| resumed: "pcv s = Waiting sid \<Longrightarrow> currentHasChunk (pl s) \<Longrightarrow>
     player_step s (s\<lparr>pcv := InStream sid\<rparr>)"
| timed_out: "pcv s = Waiting sid \<Longrightarrow> player_step s (finish_sys s)"

inductive_cases player_stepE: "player_step s t"

inductive reachable :: "psys \<Rightarrow> bool" where
  init: "reachable init_psys"
| step: "reachable s \<Longrightarrow> player_step s t \<Longrightarrow> reachable t"

section \<open>The loop stays with the head of the queue\<close>

fun in_stream :: "pc \<Rightarrow> gostring option" where
  "in_stream AtRun = None"
| "in_stream (InStream sid) = Some sid"
| "in_stream (Playing sid e) = Some sid"
| "in_stream (Waiting sid) = Some sid"

text \<open>What the history says of one stream, and what is still queued of it.\<close>

definition accepted_of :: "gostring \<Rightarrow> psys \<Rightarrow> playerEntry list" where
  "accepted_of sid s = map snd (filter (\<lambda>x. fst x = sid) (accepted s))"

definition handled_of :: "gostring \<Rightarrow> psys \<Rightarrow> playerEntry list" where
  "handled_of sid s = map (fst \<circ> snd) (filter (\<lambda>x. fst x = sid) (handled s))"

definition psys_inv :: "psys \<Rightarrow> bool" where
  "psys_inv s \<longleftrightarrow> player_inv (pl s)
     \<and> (\<forall>sid. in_stream (pcv s) = Some sid \<longrightarrow> (\<exists>rest. order (pl s) = sid # rest))
     \<and> (\<forall>sid. accepted_of sid s = handled_of sid s @ stream_chunks (pl s) sid)"

lemma psys_inv_init: "psys_inv init_psys"
  by (simp add: psys_inv_def init_psys_def newPlayer_inv accepted_of_def handled_of_def
      stream_chunks_def) (simp add: newPlayer_def)

lemma push_order: "\<exists>tl. order (push d st sid p) = order p @ tl"
  by (auto simp: push_def Let_def split: option.splits)

lemma push_chunks:
  "stream_chunks (push d st sid p) sid' =
     stream_chunks p sid' @ (if accepts p st sid \<and> sid' = sid then [\<lparr>data = d, status = st\<rparr>] else [])"
  by (auto simp: push_def accepts_def stream_chunks_def Let_def split: option.splits)

lemma popCurrent_Some:
  assumes "popCurrent p = (Some e, p')"
  shows "order p' = order p \<and> currentStream p \<noteq> '''' \<and>
    stream_chunks p (currentStream p) = e # stream_chunks p' (currentStream p) \<and>
    (\<forall>sid. sid \<noteq> currentStream p \<longrightarrow> stream_chunks p' sid = stream_chunks p sid)"
  using assms by (auto simp: popCurrent_def Let_def stream_chunks_def split: if_splits list.splits)

lemma popCurrent_None: "popCurrent p = (None, p') \<Longrightarrow> p' = p"
  by (auto simp: popCurrent_def Let_def split: if_splits list.splits)

lemma finishCurrent_chunks:
  "stream_chunks (finishCurrent p) sid =
     (if order p \<noteq> [] \<and> sid = currentStream p then [] else stream_chunks p sid)"
  by (auto simp: finishCurrent_def stream_chunks_def currentStream_def split: list.splits)

lemma handled_leftover:
  "handled_of sid (finish_sys s) = handled_of sid s
     @ (if sid = currentStream (pl s) then stream_chunks (pl s) sid else [])"
  by (auto simp: handled_of_def finish_sys_def leftover_def comp_def filter_empty_conv)

lemma finish_sys_inv:
  assumes "psys_inv s" and "in_stream (pcv s) = Some sid"
  shows "psys_inv (finish_sys s)"
proof -
  have "order (pl s) \<noteq> []" using assms by (auto simp: psys_inv_def)
  moreover have "accepted_of x (finish_sys s) = accepted_of x s" for x
    by (simp add: accepted_of_def finish_sys_def)
  ultimately show ?thesis
    using assms(1) unfolding psys_inv_def handled_leftover
    by (auto simp: finish_sys_def finishCurrent_inv finishCurrent_chunks)
qed

lemma player_step_inv: "player_step s t \<Longrightarrow> psys_inv s \<Longrightarrow> psys_inv t"
proof (induction rule: player_step.induct)
  case (arrive sid s st d)
  obtain tl where "order (push d st sid (pl s)) = order (pl s) @ tl"
    using push_order [of d st sid "pl s"] by blast
  with arrive show ?case
    by (auto simp: psys_inv_def push_inv push_chunks accepted_of_def handled_of_def)
next
  case (start s)
  then show ?case
    by (cases "order (pl s)")
      (auto simp: psys_inv_def hasStream_def currentStream_def accepted_of_def handled_of_def)
next
  case (pop s sid e p')
  have "player_inv p'" using pop popCurrent_inv [of "pl s"] by (simp add: psys_inv_def)
  moreover have "currentStream (pl s) = sid"
    using pop by (auto simp: psys_inv_def currentStream_def)
  ultimately show ?case
    using pop popCurrent_Some [OF pop(2)]
    by (auto simp: psys_inv_def accepted_of_def handled_of_def)
next
  case (played_last s sid e)
  then show ?case by (simp add: finish_sys_inv)
next
  case (ran_dry s sid p')
  then show ?case
    using popCurrent_None [OF ran_dry(2)]
    by (simp add: psys_inv_def accepted_of_def handled_of_def)
next
  case (timed_out s sid)
  then show ?case by (simp add: finish_sys_inv)
qed (simp_all add: psys_inv_def accepted_of_def handled_of_def)

lemma reachable_inv: "reachable s \<Longrightarrow> psys_inv s"
  by (induction rule: reachable.induct) (auto intro: psys_inv_init player_step_inv)

section \<open>Playback while nothing arrives\<close>

text \<open>
  \<open>playStream\<close> on a queue no connection pushes to: play the chunks of the current stream up to
  a terminal one, or until they run out and the wait times out, then finish the stream.
\<close>

function play_quiet :: "player \<Rightarrow> playerEntry list \<times> player" where
  "play_quiet p =
     (case popCurrent p of
        (None, p') \<Rightarrow> ([], finishCurrent p')
      | (Some e, p') \<Rightarrow>
          if is_terminal (status e) then ([e], finishCurrent p')
          else (case play_quiet p' of (es, p'') \<Rightarrow> (e # es, p'')))"
  by pat_completeness auto
termination
proof (relation "measure (\<lambda>p. length (stream_chunks p (currentStream p)))")
  fix p p' :: player and r e
  assume "(r, p') = popCurrent p" and "r = Some e"
  then have "popCurrent p = (Some e, p')" by simp
  from popCurrent_Some [OF this]
  show "(p', p) \<in> measure (\<lambda>p. length (stream_chunks p (currentStream p)))"
    by (simp add: currentStream_def)
qed simp_all

declare play_quiet.simps [simp del]

fun upto_terminal :: "playerEntry list \<Rightarrow> playerEntry list" where
  "upto_terminal [] = []"
| "upto_terminal (e # es) = (if is_terminal (status e) then [e] else e # upto_terminal es)"

lemma play_quiet_queue:
  "player_inv p \<Longrightarrow> queue_of p = (sid, es) # q \<Longrightarrow>
   (case play_quiet p of (ps, p') \<Rightarrow> ps = upto_terminal es \<and> player_inv p' \<and> queue_of p' = q
      \<and> sid \<in> closedSet p')"
proof (induction es arbitrary: p)
  case Nil
  obtain e p' where pp: "popCurrent p = (e, p')" by (cases "popCurrent p")
  with Nil have "e = None" using pq.deq_repr [OF Nil(1) pp] by simp
  with pp have "popCurrent p = (None, p)" using popCurrent_None [of p p'] by simp
  then have "play_quiet p = ([], finishCurrent p)"
    by (subst play_quiet.simps) simp
  with Nil show ?case
    using pq.finish_closed [OF Nil] by (simp add: pq.finish_inv pq.finish_repr)
next
  case (Cons x xs)
  obtain e p' where pp: "popCurrent p = (e, p')" by (cases "popCurrent p")
  with Cons.prems have e: "e = Some x" and q': "queue_of p' = (sid, xs) # q"
    using pq.deq_repr [OF Cons.prems(1) pp] by simp_all
  have i': "player_inv p'" using pq.deq_inv [OF Cons.prems(1)] pp by simp
  show ?case
  proof (cases "is_terminal (status x)")
    case True
    then have "play_quiet p = ([x], finishCurrent p')"
      by (subst play_quiet.simps) (simp add: pp e)
    with True i' q' show ?thesis
      using pq.finish_closed [OF i' q'] by (simp add: pq.finish_inv pq.finish_repr)
  next
    case False
    then have "play_quiet p = (case play_quiet p' of (es, p'') \<Rightarrow> (x # es, p''))"
      by (subst play_quiet.simps) (simp add: pp e)
    with False Cons.IH [OF i' q'] show ?thesis by (auto split: prod.splits)
  qed
qed

text \<open>The quiet playback is a run of the loop.\<close>

lemma play_quiet_run:
  "play_quiet (pl s) = (ps, p') \<Longrightarrow> psys_inv s \<Longrightarrow> pcv s = InStream sid \<Longrightarrow>
   \<exists>t. player_step\<^sup>*\<^sup>* s t \<and> pcv t = AtRun \<and> pl t = p' \<and> accepted t = accepted s \<and>
     (\<exists>rest. handled t = handled s @ map (\<lambda>e. (sid, e, True)) ps @ rest \<and> (\<forall>x \<in> set rest. \<not> snd (snd x)))"
proof (induction "pl s" arbitrary: s ps p' rule: play_quiet.induct)
  case 1
  obtain e q where pp: "popCurrent (pl s) = (e, q)" by (cases "popCurrent (pl s)")
  have left: "\<forall>x \<in> set (leftover p). \<not> snd (snd x)" for p by (auto simp: leftover_def)
  show ?case
  proof (cases e)
    case None
    let ?t = "s\<lparr>pl := q, pcv := Waiting sid\<rparr>"
    have "player_step s ?t" using 1(3) 1(4) pp None by (auto intro: player_step.ran_dry)
    moreover have "player_step ?t (finish_sys ?t)" by (rule player_step.timed_out) simp
    moreover have "ps = [] \<and> p' = finishCurrent q"
      using 1(2) pp None by (simp add: play_quiet.simps [of "pl s"])
    ultimately show ?thesis
      using left by (intro exI [of _ "finish_sys ?t"]) (auto simp: finish_sys_def)
  next
    case (Some x)
    let ?t = "s\<lparr>pl := q, pcv := Playing sid x, handled := handled s @ [(sid, x, True)]\<rparr>"
    have s1: "player_step s ?t" using 1(4) pp Some by (auto intro: player_step.pop)
    show ?thesis
    proof (cases "is_terminal (status x)")
      case True
      have "player_step ?t (finish_sys ?t)" by (rule player_step.played_last) (use True in auto)
      moreover have "ps = [x] \<and> p' = finishCurrent q"
        using 1(2) pp Some True by (simp add: play_quiet.simps [of "pl s"])
      ultimately show ?thesis
        using left s1 by (intro exI [of _ "finish_sys ?t"]) (auto simp: finish_sys_def)
    next
      case False
      let ?u = "?t\<lparr>pcv := InStream sid\<rparr>"
      have s2: "player_step ?t ?u" by (rule player_step.played_more) (use False in auto)
      have iu: "psys_inv ?u" using player_step_inv [OF s2 player_step_inv [OF s1 1(3)]] .
      obtain qs where qs: "play_quiet q = (qs, p')" "ps = x # qs"
        using 1(2) pp Some False by (auto simp: play_quiet.simps [of "pl s"] split: prod.splits)
      obtain t where "player_step\<^sup>*\<^sup>* ?u t" "pcv t = AtRun" "pl t = p'" "accepted t = accepted ?u"
        "\<exists>rest. handled t = handled ?u @ map (\<lambda>e. (sid, e, True)) qs @ rest
           \<and> (\<forall>x \<in> set rest. \<not> snd (snd x))"
        using 1(1) [of e ?u x qs p'] pp Some False qs(1) iu by auto
      with s1 s2 qs(2) show ?thesis
        by (intro exI [of _ t]) (auto intro: converse_rtranclp_into_rtranclp)
    qed
  qed
qed

text \<open>A state in which a chunk has been accepted and waits.\<close>

lemma demo_reachable:
  "reachable (init_psys\<lparr>pl := push [1] START ''s'' newPlayer,
     accepted := [(''s'', \<lparr>data = [1], status = START\<rparr>)]\<rparr>)"
  using reachable.step [OF reachable.init player_step.arrive, of "''s''" START "[1]"]
  by (simp add: init_psys_def accepts_def newPlayer_def)

lemma demo_started:
  "reachable (init_psys\<lparr>pl := push [1] START ''s'' newPlayer, pcv := InStream ''s'',
     accepted := [(''s'', \<lparr>data = [1], status = START\<rparr>)]\<rparr>)"
  using reachable.step [OF demo_reachable player_step.start]
  by (simp add: init_psys_def hasStream_def currentStream_def newPlayer_def push_def)

section \<open>Properties\<close>

text \<open>
  In every reachable state of the player, whatever the connections push and whatever times
  out: the queue is well formed (each waiting stream listed once and holding a chunk list, the
  closed ids at most 16 and none of them waiting), and the stream the loop is playing or waiting
  for is the head of the queue, so no other stream can cut in.
\<close>

theorem player_safe:
  assumes "reachable s"
  shows "player_inv (pl s) \<and> card (closedSet (pl s)) \<le> maxClosedStreams
     \<and> (in_stream (pcv s) = Some sid \<longrightarrow> currentStream (pl s) = sid)"
proof -
  have "psys_inv s" using assms by (rule reachable_inv)
  moreover have "card (closedSet (pl s)) \<le> length (closedOrder (pl s))"
    using \<open>psys_inv s\<close> by (metis card_length player_inv_def psys_inv_def)
  ultimately show ?thesis
    by (auto simp: psys_inv_def player_inv_def currentStream_def)
qed

theorem player_safe_witness:
  "player_inv (push [1] START ''s'' newPlayer) \<and> currentStream (push [1] START ''s'' newPlayer) = ''s''"
  using player_safe [OF demo_started, of "''s''"] by simp

text \<open>
  C10. Nothing is lost silently or played out of order: in every reachable state the chunks of a
  stream the queue accepted are, in order, those handled (played, or discarded when the stream
  was finished) followed by those that still wait.
\<close>

theorem player_conservation:
  assumes "reachable s"
  shows "accepted_of sid s = handled_of sid s @ stream_chunks (pl s) sid"
  using reachable_inv [OF assms] by (simp add: psys_inv_def)

text \<open>
  A stream at the head of the queue, with nothing arriving, is played in order up to and
  including its first END or ONESHOT chunk, or to its last chunk if it has none; then it is
  closed and the streams behind it are as they were.
\<close>

theorem quiet_playback:
  assumes "player_inv p" and "queue_of p = (sid, es) # q"
  shows "\<exists>p'. play_quiet p = (upto_terminal es, p') \<and> queue_of p' = q \<and> sid \<in> closedSet p'"
  using play_quiet_queue [OF assms] by (cases "play_quiet p") auto

definition demo_queue :: player where
  "demo_queue = push [3] END ''s'' (push [2] ONESHOT ''o'' (push [1] START ''s'' newPlayer))"

lemma demo_queue_inv: "player_inv demo_queue"
  by (simp add: demo_queue_def push_inv newPlayer_inv)

lemma demo_queue_eval:
  "queue_of demo_queue = (''s'', [\<lparr>data = [1], status = START\<rparr>, \<lparr>data = [3], status = END\<rparr>])
     # [(''o'', [\<lparr>data = [2], status = ONESHOT\<rparr>])]"
  by (simp add: demo_queue_def newPlayer_def push_def queue_of_def stream_chunks_def Let_def)

theorem quiet_playback_witness:
  "\<exists>p'. play_quiet demo_queue =
      (upto_terminal [\<lparr>data = [1], status = START\<rparr>, \<lparr>data = [3], status = END\<rparr>], p')
     \<and> queue_of p' = [(''o'', [\<lparr>data = [2], status = ONESHOT\<rparr>])] \<and> ''s'' \<in> closedSet p'"
  by (rule quiet_playback [OF demo_queue_inv demo_queue_eval])

theorem player_conservation_witness:
  "accepted_of ''s'' (init_psys\<lparr>pl := push [1] START ''s'' newPlayer,
       accepted := [(''s'', \<lparr>data = [1], status = START\<rparr>)]\<rparr>)
   = handled_of ''s'' (init_psys\<lparr>pl := push [1] START ''s'' newPlayer,
       accepted := [(''s'', \<lparr>data = [1], status = START\<rparr>)]\<rparr>)
     @ stream_chunks (push [1] START ''s'' newPlayer) ''s''"
  using player_conservation [OF demo_reachable, of "''s''"] by simp

text \<open>
  The loop always gets through: from any reachable state at the head of \<open>run\<close> with a
  stream waiting there is a run in which nothing arrives, the stream is played up to its
  terminal chunk, and the loop is back at \<open>run\<close> with that stream closed and the next one at the
  head. A stream without terminal chunk blocks nothing for longer than its time-out.
\<close>

theorem head_stream_finishes:
  assumes "reachable s" and "pcv s = AtRun" and "queue_of (pl s) = (sid, es) # q"
  shows "\<exists>t. player_step\<^sup>*\<^sup>* s t \<and> pcv t = AtRun \<and> accepted t = accepted s
     \<and> queue_of (pl t) = q \<and> sid \<in> closedSet (pl t)
     \<and> map (\<lambda>x. (fst x, fst (snd x))) (filter (\<lambda>x. snd (snd x)) (handled t))
       = map (\<lambda>x. (fst x, fst (snd x))) (filter (\<lambda>x. snd (snd x)) (handled s))
           @ map (\<lambda>e. (sid, e)) (upto_terminal es)"
proof -
  have inv: "psys_inv s" using assms(1) by (rule reachable_inv)
  have "order (pl s) \<noteq> []" "currentStream (pl s) = sid"
    using assms(3) by (cases "order (pl s)"; simp add: queue_of_def currentStream_def)+
  then have st: "player_step s (s\<lparr>pcv := InStream sid\<rparr>)" (is "player_step s ?s1")
    using player_step.start [of s] assms(2) by (simp add: hasStream_def)
  have i1: "psys_inv ?s1" using st inv by (rule player_step_inv)
  have pi: "player_inv (pl s)" using inv by (simp add: psys_inv_def)
  obtain ps p' where pq: "play_quiet (pl s) = (ps, p')" by (cases "play_quiet (pl s)")
  then have r: "ps = upto_terminal es" "queue_of p' = q" "sid \<in> closedSet p'"
    using play_quiet_queue [OF pi assms(3)] by auto
  obtain t rest where t: "player_step\<^sup>*\<^sup>* ?s1 t" "pcv t = AtRun" "pl t = p'" "accepted t = accepted s"
    "handled t = handled s @ map (\<lambda>e. (sid, e, True)) ps @ rest" "\<forall>x \<in> set rest. \<not> snd (snd x)"
    using play_quiet_run [of ?s1 ps p' sid] pq i1 by auto
  have "filter (\<lambda>x. snd (snd x)) (map (\<lambda>e. (sid, e, True)) ps) = map (\<lambda>e. (sid, e, True)) ps"
    by (induction ps) auto
  moreover have "filter (\<lambda>x. snd (snd x)) rest = []" using t(6) by (simp add: filter_empty_conv)
  ultimately show ?thesis
    using st t r by (intro exI [of _ t]) (auto simp: comp_def intro: converse_rtranclp_into_rtranclp)
qed

theorem head_stream_finishes_witness:
  "\<exists>t. player_step\<^sup>*\<^sup>* (init_psys\<lparr>pl := push [1] START ''s'' newPlayer,
       accepted := [(''s'', \<lparr>data = [1], status = START\<rparr>)]\<rparr>) t
     \<and> pcv t = AtRun \<and> queue_of (pl t) = [] \<and> ''s'' \<in> closedSet (pl t)"
proof -
  have "queue_of (push [1] START ''s'' newPlayer) = (''s'', [\<lparr>data = [1], status = START\<rparr>]) # []"
    by (simp add: newPlayer_def push_def queue_of_def stream_chunks_def Let_def)
  then show ?thesis
    using head_stream_finishes [OF demo_reachable, of "''s''" "[\<lparr>data = [1], status = START\<rparr>]" "[]"]
    by (auto simp: init_psys_def)
qed

end
