(* ===== verification/GoFmt.thy ===== *)
theory GoFmt
  imports Prelude
begin

text \<open>
  The part of Go's \<open>fmt\<close> package the program uses: decimal numbers and \<open>Sprintf\<close> with string
  operands and the verbs \<open>%s\<close>, \<open>%v\<close> and \<open>%%\<close>. The formats of the program are constants
  without flags or widths, so those are left out; what \<open>Sprintf\<close> prints when the operands do not
  match the format (too many, too few, a wrong verb) is modelled, because a format can be empty.
\<close>

section \<open>Decimal numbers\<close>

fun dec :: "nat \<Rightarrow> gostring" where
  "dec n = (if n < 10 then [char_of (48 + n)] else dec (n div 10) @ [char_of (48 + n mod 10)])"

declare dec.simps [simp del]

definition undec :: "gostring \<Rightarrow> nat" where
  "undec s = foldl (\<lambda>a c. a * 10 + (of_char c - 48)) 0 s"

lemma undec_dec: "undec (dec n) = n"
proof (induction n rule: dec.induct)
  case (1 n)
  show ?case
  proof (cases "n < 10")
    case True
    then show ?thesis by (subst dec.simps) (simp add: undec_def)
  next
    case False
    then have "dec n = dec (n div 10) @ [char_of (48 + n mod 10)]"
      by (subst dec.simps) simp
    then have "undec (dec n) = undec (dec (n div 10)) * 10 + n mod 10"
      by (simp add: undec_def)
    with 1 False show ?thesis by simp
  qed
qed

lemma dec_inj [simp]: "dec m = dec n \<longleftrightarrow> m = n"
  by (metis undec_dec)

lemma dec_nonempty [simp]: "dec n \<noteq> []"
  by (subst dec.simps) simp

section \<open>Sprintf on string operands\<close>

text \<open>\<open>%!(EXTRA string=a, string=b)\<close>, when operands are left over.\<close>

fun extra_list :: "gostring list \<Rightarrow> gostring" where
  "extra_list [] = ''''"
| "extra_list [a] = ''string='' @ a"
| "extra_list (a # b # as) = ''string='' @ a @ '', '' @ extra_list (b # as)"

definition extra :: "gostring list \<Rightarrow> gostring" where
  "extra args = (if args = [] then '''' else ''%!(EXTRA '' @ extra_list args @ '')'')"

fun sprintf :: "gostring \<Rightarrow> gostring list \<Rightarrow> gostring" where
  "sprintf [] args = extra args"
| "sprintf [c] args = (if c = CHR ''%'' then ''%!(NOVERB)'' @ extra args else c # extra args)"
| "sprintf (c # v # f) args =
     (if c \<noteq> CHR ''%'' then c # sprintf (v # f) args
      else if v = CHR ''%'' then CHR ''%'' # sprintf f args
      else case args of
             [] \<Rightarrow> ''%!'' @ [v] @ ''(MISSING)'' @ sprintf f []
           | a # as \<Rightarrow>
               if v = CHR ''s'' \<or> v = CHR ''v'' then a @ sprintf f as
               else ''%!'' @ [v] @ ''(string='' @ a @ '')'' @ sprintf f as)"

text \<open>A format that is literal text prints itself; each \<open>%s\<close> prints its operand.\<close>

lemma sprintf_plain:
  "CHR ''%'' \<notin> set f \<Longrightarrow> sprintf (f @ g) args = f @ sprintf g args" if "g \<noteq> []" for g
proof (induction f)
  case (Cons c f)
  with that show ?case by (cases "f @ g") auto
qed simp

lemma sprintf_text: "CHR ''%'' \<notin> set f \<Longrightarrow> sprintf f [] = f"
proof (induction f)
  case (Cons c f)
  then show ?case by (cases f) (auto simp: extra_def)
qed (simp add: extra_def)

lemma sprintf_verb:
  "CHR ''%'' \<notin> set f \<Longrightarrow> sprintf (f @ ''%s'' @ g) (a # as) = f @ a @ sprintf g as"
  by (simp add: sprintf_plain)

text \<open>An operand is printed as it is: a percent sign in it starts no verb.\<close>

lemma sprintf_no_verbs: "sprintf '''' (a # as) = ''%!(EXTRA '' @ extra_list (a # as) @ '')''"
  by (simp add: extra_def)

end
