(* ===== verification/EmuServer.thy ===== *)
theory EmuServer
  imports Playback GoFmt
begin

text \<open>
  The gRPC endpoint of the emulator, \<open>app/radio-bridge-emulator/server.go\<close>, and the recording
  subscribers it serves, the channel part of \<open>recorder.go\<close>. One connection is one call of
  \<open>Connect\<close> with its own ONESHOT counter; the player is shared by all connections.
\<close>

section \<open>Receiving\<close>

text \<open>
  The stream id a received chunk is queued under, and the counter after it: ONESHOT chunks get
  an id made from the connection's counter, stream chunks need a non-empty id, anything else is
  discarded.
\<close>

definition oneshot_id :: "64 word \<Rightarrow> gostring" where
  "oneshot_id n = ''__oneshot_'' @ dec (unat n)"

definition route_chunk :: "64 word \<Rightarrow> AudioChunk \<Rightarrow> 64 word \<times> gostring option" where
  "route_chunk counter c =
     (case ChunkStatus c of
        ONESHOT \<Rightarrow> (counter + 1, Some (oneshot_id (counter + 1)))
      | START \<Rightarrow> (counter, if ChunkStreamId c = '''' then None else Some (ChunkStreamId c))
      | CONTINUE \<Rightarrow> (counter, if ChunkStreamId c = '''' then None else Some (ChunkStreamId c))
      | END \<Rightarrow> (counter, if ChunkStreamId c = '''' then None else Some (ChunkStreamId c))
      | _ \<Rightarrow> (counter, None))"

definition receive_chunk :: "AudioChunk \<Rightarrow> 64 word \<times> player \<Rightarrow> 64 word \<times> player" where
  "receive_chunk c st =
     (case route_chunk (fst st) c of
        (counter', None) \<Rightarrow> (counter', snd st)
      | (counter', Some sid) \<Rightarrow> (counter', push (OggOpusData c) (ChunkStatus c) sid (snd st)))"

text \<open>
  What \<open>stream.Recv()\<close> returns: a chunk, \<open>io.EOF\<close>, or an error, with whether its status code is
  \<open>Canceled\<close>. An event also says whether the stream's context has an error by then. The loop
  returns \<open>Some\<close> of the error \<open>Connect\<close> returns, or \<open>None\<close> while it waits for more.
\<close>

datatype recv = RecvChunk AudioChunk | RecvEOF | RecvError bool gostring

fun recv_loop ::
  "(recv \<times> bool) list \<Rightarrow> 64 word \<times> player \<Rightarrow> gostring option option \<times> (64 word \<times> player)" where
  "recv_loop [] st = (None, st)"
| "recv_loop ((r, ctxErr) # evs) st =
     (if r = RecvEOF \<or> ctxErr then (Some None, st)
      else case r of
             RecvError canceled msg \<Rightarrow> (Some (if canceled then None else Some msg), st)
           | RecvChunk c \<Rightarrow> recv_loop evs (receive_chunk c st)
           | RecvEOF \<Rightarrow> (Some None, st))"

text \<open>\<open>Connect\<close> starts with a counter of its own at zero.\<close>

definition connect_recv ::
  "(recv \<times> bool) list \<Rightarrow> player \<Rightarrow> gostring option option \<times> player" where
  "connect_recv evs p = (case recv_loop evs (0, p) of (r, st) \<Rightarrow> (r, snd st))"

section \<open>Sending recordings\<close>

text \<open>
  The goroutine that forwards recordings: each iteration takes \<open>ctx.Done()\<close> or receives from the
  subscription, which may be closed; a failed send ends it.
\<close>

datatype sub_event = SubCtxDone | SubClosed | SubData bytes bool

fun forward_loop :: "sub_event list \<Rightarrow> AudioChunk list" where
  "forward_loop [] = []"
| "forward_loop (SubCtxDone # evs) = []"
| "forward_loop (SubClosed # evs) = []"
| "forward_loop (SubData d ok # evs) =
     (if ok then \<lparr>OggOpusData = d, ChunkStatus = ONESHOT, ChunkStreamId = ''''\<rparr> # forward_loop evs
      else [])"

section \<open>Facts\<close>

lemma oneshot_id_nonempty [simp]: "oneshot_id n \<noteq> ''''"
  by (simp add: oneshot_id_def)

lemma oneshot_id_inj [simp]: "oneshot_id m = oneshot_id n \<longleftrightarrow> m = n"
  by (simp add: oneshot_id_def word_unat_eq_iff)

lemma route_chunk_id: "route_chunk n c = (n', Some sid) \<Longrightarrow> sid \<noteq> '''' \<and> valid_status (ChunkStatus c)"
  by (auto simp: route_chunk_def split: StreamStatus.splits if_splits)

text \<open>A received chunk changes the player by at most one push under a non-empty id.\<close>

lemma receive_chunk_push:
  "snd (receive_chunk c (n, p)) = p \<or>
   (\<exists>sid. sid \<noteq> '''' \<and> snd (receive_chunk c (n, p)) = push (OggOpusData c) (ChunkStatus c) sid p)"
  by (auto simp: receive_chunk_def split: prod.splits option.splits dest: route_chunk_id)

lemma receive_chunk_inv: "player_inv (snd st) \<Longrightarrow> player_inv (snd (receive_chunk c st))"
  using receive_chunk_push [of c "fst st" "snd st"] by (auto simp: push_inv)

lemma recv_loop_inv: "player_inv (snd st) \<Longrightarrow> player_inv (snd (snd (recv_loop evs st)))"
  by (induction evs st rule: recv_loop.induct) (auto simp: receive_chunk_inv split: recv.splits)

text \<open>The receive loop is one of the pushers of the player's step relation.\<close>

lemma receive_reachable:
  assumes "reachable s"
  shows "\<exists>t. reachable t \<and> pl t = snd (receive_chunk c (n, pl s)) \<and> pcv t = pcv s"
proof (cases "snd (receive_chunk c (n, pl s)) = pl s")
  case True
  with assms show ?thesis by metis
next
  case False
  then obtain sid where "sid \<noteq> ''''"
    "snd (receive_chunk c (n, pl s)) = push (OggOpusData c) (ChunkStatus c) sid (pl s)"
    using receive_chunk_push [of c n "pl s"] by blast
  with reachable.step [OF assms player_step.arrive [of sid s "ChunkStatus c" "OggOpusData c"]]
  show ?thesis by force
qed

lemma newPlayer_empty [simp]:
  "queue_of newPlayer = []" "closedSet newPlayer = {}" "order newPlayer = []"
  by (simp_all add: newPlayer_def queue_of_def)

lemma connect_recv_player: "snd (connect_recv evs p) = snd (snd (recv_loop evs (0, p)))"
  by (simp add: connect_recv_def case_prod_unfold)

definition oneshot_chunk :: "bytes \<Rightarrow> AudioChunk" where
  "oneshot_chunk d = \<lparr>OggOpusData = d, ChunkStatus = ONESHOT, ChunkStreamId = ''''\<rparr>"

definition oneshot_events :: "bytes list \<Rightarrow> (recv \<times> bool) list" where
  "oneshot_events ds = map (\<lambda>d. (RecvChunk (oneshot_chunk d), False)) ds"

lemma receive_oneshot:
  "receive_chunk (oneshot_chunk d) (n, p) = (n + 1, push d ONESHOT (oneshot_id (n + 1)) p)"
  by (simp add: receive_chunk_def route_chunk_def oneshot_chunk_def)

text \<open>ONESHOT chunks received while the counter is at \<open>k\<close> line up behind what is queued.\<close>

lemma oneshots_line_up:
  "player_inv p \<Longrightarrow> k + length ds < 2 ^ 64 \<Longrightarrow>
   \<forall>i. k < i \<and> i \<le> k + length ds \<longrightarrow>
     oneshot_id (of_nat i) \<notin> closedSet p \<and> oneshot_id (of_nat i) \<notin> set (order p) \<Longrightarrow>
   queue_of (snd (snd (recv_loop (oneshot_events ds) (of_nat k, p)))) =
     queue_of p @ map (\<lambda>(i, d). (oneshot_id (of_nat i), [\<lparr>data = d, status = ONESHOT\<rparr>]))
       (enumerate (Suc k) ds)"
proof (induction ds arbitrary: k p)
  case Nil
  then show ?case by (simp add: oneshot_events_def)
next
  case (Cons d ds)
  let ?id = "oneshot_id (of_nat (Suc k))"
  let ?p = "push d ONESHOT ?id p"
  have id: "?id \<notin> closedSet p" "?id \<notin> set (order p)" using Cons.prems(3) by auto
  have q: "queue_of ?p = queue_of p @ [(?id, [\<lparr>data = d, status = ONESHOT\<rparr>])]"
    using Cons.prems(1) id by (simp add: queue_laws q_push_new queue_of_ids del: of_nat_Suc)
  have o: "set (order ?p) = insert ?id (set (order p))"
    using arg_cong [OF q, of "\<lambda>q. fst ` set q"] by (simp add: queue_of_ids del: of_nat_Suc)
  have fresh: "oneshot_id (of_nat i) \<noteq> ?id" if "Suc k < i" "i \<le> Suc k + length ds" for i
  proof -
    have "i mod 2 ^ 64 = i" "Suc k mod 2 ^ 64 = Suc k" using that Cons.prems(2) by simp_all
    then have "unat (of_nat i :: 64 word) \<noteq> unat (of_nat (Suc k) :: 64 word)"
      using that by (simp only: unat_of_nat) simp
    then show ?thesis by (metis oneshot_id_inj)
  qed
  have "queue_of (snd (snd (recv_loop (oneshot_events ds) (of_nat (Suc k), ?p)))) =
     queue_of ?p @ map (\<lambda>(i, d). (oneshot_id (of_nat i), [\<lparr>data = d, status = ONESHOT\<rparr>]))
       (enumerate (Suc (Suc k)) ds)"
    using Cons.prems fresh o by (intro Cons.IH) (auto simp: push_inv)
  then show ?case
    using q by (simp add: oneshot_events_def receive_oneshot add.commute)
qed

lemma closed_oneshots_dropped:
  "\<forall>i. k < i \<and> i \<le> k + length ds \<longrightarrow> oneshot_id (of_nat i) \<in> closedSet p \<Longrightarrow>
   recv_loop (oneshot_events ds) (of_nat k, p) = (None, (of_nat (k + length ds), p))"
proof (induction ds arbitrary: k)
  case Nil
  then show ?case by (simp add: oneshot_events_def)
next
  case (Cons d ds)
  have "oneshot_id (of_nat (Suc k)) \<in> closedSet p" using Cons.prems by auto
  then have "push d ONESHOT (oneshot_id (of_nat (Suc k))) p = p"
    by (simp add: push_dropped del: of_nat_Suc)
  moreover have "recv_loop (oneshot_events ds) (of_nat (Suc k), p) =
      (None, (of_nat (Suc k + length ds), p))"
    using Cons.prems by (intro Cons.IH) auto
  ultimately show ?case
    by (simp add: oneshot_events_def receive_oneshot add.commute)
qed

section \<open>Properties\<close>

text \<open>
  ONESHOT chunks received on a connection to an idle player are queued as streams of their
  own, one chunk each, in the order received, so they are played one after the other and none
  is merged into another or lost, for any number below \<open>2^64\<close>.
\<close>

theorem oneshots_queued:
  assumes "length ds < 2 ^ 64"
  shows "queue_of (snd (connect_recv (oneshot_events ds) newPlayer)) =
    map (\<lambda>(i, d). (oneshot_id (of_nat i), [\<lparr>data = d, status = ONESHOT\<rparr>])) (enumerate 1 ds)"
  using oneshots_line_up [of newPlayer 0 ds] assms newPlayer_inv
  by (simp add: connect_recv_player)

theorem oneshots_queued_witness:
  "queue_of (snd (connect_recv (oneshot_events [[7], [8]]) newPlayer)) =
    map (\<lambda>(i, d). (oneshot_id (of_nat i), [\<lparr>data = d, status = ONESHOT\<rparr>])) (enumerate 1 [[7], [8]])"
  by (rule oneshots_queued) simp

text \<open>
  The ONESHOT ids are unique within a connection only, while the closed ids are remembered
  for the whole player: if the ids 1 to \<open>n\<close> were played out on an earlier connection, the first
  \<open>n\<close> ONESHOT chunks of a new connection are all discarded without being played. (The comment
  in \<open>Connect\<close> says the counter alone makes the ids unique.)
\<close>

theorem oneshots_lost_after_reconnect:
  assumes "\<forall>i \<in> {1..length ds}. oneshot_id (of_nat i) \<in> closedSet p"
  shows "connect_recv (oneshot_events ds) p = (None, p)"
  using closed_oneshots_dropped [of 0 ds p] assms by (simp add: connect_recv_def)

text \<open>The state after a first connection sent one ONESHOT chunk and it was played.\<close>

definition after_first_connection :: player where
  "after_first_connection =
     snd (play_quiet (snd (connect_recv (oneshot_events [[7]]) newPlayer)))"

lemma after_first_connection_closed: "oneshot_id 1 \<in> closedSet after_first_connection"
proof -
  let ?p = "snd (connect_recv (oneshot_events [[7]]) newPlayer)"
  have "queue_of ?p = [(oneshot_id 1, [\<lparr>data = [7], status = ONESHOT\<rparr>])]"
    using oneshots_line_up [of newPlayer 0 "[[7]]"] newPlayer_inv by (simp add: connect_recv_player)
  moreover have "player_inv ?p"
    using recv_loop_inv [of "(0, newPlayer)" "oneshot_events [[7]]"] newPlayer_inv
    by (simp add: connect_recv_player)
  ultimately show ?thesis
    using play_quiet_queue [of ?p "oneshot_id 1"]
    by (auto simp: after_first_connection_def split: prod.splits)
qed

theorem oneshots_lost_after_reconnect_witness:
  "connect_recv (oneshot_events [[8]]) after_first_connection = (None, after_first_connection)"
  by (rule oneshots_lost_after_reconnect) (simp add: after_first_connection_closed)

text \<open>
  Chunks without a usable stream are discarded and change nothing, the connection's counter
  included: those of a status that is neither ONESHOT nor START, CONTINUE or END (UNKNOWN among
  them, which the proto file promises to treat as ONESHOT), and stream chunks with an empty id.
\<close>

theorem unusable_chunk_discarded:
  assumes "ChunkStatus c \<noteq> ONESHOT"
    and "is_stream_status (ChunkStatus c) \<Longrightarrow> ChunkStreamId c = ''''"
  shows "receive_chunk c st = st"
  using assms by (cases "ChunkStatus c") (auto simp: receive_chunk_def route_chunk_def)

theorem unusable_chunk_discarded_witness:
  "receive_chunk \<lparr>OggOpusData = [1], ChunkStatus = UNKNOWN, ChunkStreamId = ''s''\<rparr> (0, newPlayer)
     = (0, newPlayer)"
  by (rule unusable_chunk_discarded) simp_all

end
