(* ===== verification/Registry.thy ===== *)
theory Registry
  imports Prelude
begin

text \<open>
  The session registry, \<open>app/wl-game-server/session_registry.go\<close>: the map from callsigns, a
  player's own and those of its peers, to the session that holds them. Sessions are pointers in
  the code and numbers here. The read-write lock makes each operation atomic.

  The sessions and the dispatcher use the registry through the locale \<open>session_store\<close>.
\<close>

type_synonym session_id = nat

record SessionRegistry =
  sessions :: "gostring \<rightharpoonup> session_id"

definition NewSessionRegistry :: SessionRegistry where
  "NewSessionRegistry = \<lparr>sessions = Map.empty\<rparr>"

definition Register :: "gostring \<Rightarrow> session_id \<Rightarrow> SessionRegistry \<Rightarrow> SessionRegistry" where
  "Register callsign s r = r\<lparr>sessions := (sessions r)(callsign \<mapsto> s)\<rparr>"

definition Unregister :: "gostring \<Rightarrow> SessionRegistry \<Rightarrow> SessionRegistry" where
  "Unregister callsign r = r\<lparr>sessions := (sessions r)(callsign := None)\<rparr>"

definition Lookup :: "SessionRegistry \<Rightarrow> gostring \<Rightarrow> session_id option" where
  "Lookup r callsign = sessions r callsign"

section \<open>The interface\<close>

locale session_store =
  fixes put :: "gostring \<Rightarrow> 's \<Rightarrow> 'r \<Rightarrow> 'r"
    and del :: "gostring \<Rightarrow> 'r \<Rightarrow> 'r"
    and get :: "'r \<Rightarrow> gostring \<Rightarrow> 's option"
    and empty :: 'r
  assumes get_empty: "get empty k = None"
    and get_put: "get (put k s r) k' = (if k' = k then Some s else get r k')"
    and get_del: "get (del k r) k' = (if k' = k then None else get r k')"
begin

definition put_all :: "gostring list \<Rightarrow> 's \<Rightarrow> 'r \<Rightarrow> 'r" where
  "put_all ks s r = fold (\<lambda>k. put k s) ks r"

definition del_all :: "gostring list \<Rightarrow> 'r \<Rightarrow> 'r" where
  "del_all ks r = fold del ks r"

lemma get_put_all: "get (put_all ks s r) k = (if k \<in> set ks then Some s else get r k)"
  by (induction ks arbitrary: r) (auto simp: put_all_def get_put)

lemma get_del_all: "get (del_all ks r) k = (if k \<in> set ks then None else get r k)"
  by (induction ks arbitrary: r) (auto simp: del_all_def get_del)

text \<open>Taking back the keys of one owner leaves the others' keys alone.\<close>

lemma del_put_all:
  assumes "\<forall>k \<in> set ks. get r k = None"
  shows "get (del_all ks (put_all ks s r)) k = get r k"
  using assms by (simp add: get_put_all get_del_all)

end

interpretation reg: session_store Register Unregister Lookup NewSessionRegistry
  by unfold_locales
    (simp_all add: Register_def Unregister_def Lookup_def NewSessionRegistry_def)

lemmas registry_laws = reg.get_empty reg.get_put reg.get_del

end
