(* ===== verification/ConvLog.thy ===== *)
theory ConvLog
  imports Prelude
begin

text \<open>
  The shared conversation log, \<open>app/wl-game-server/conversation_log.go\<close>: appending with an
  optional window, and the text the whole log is rendered to for the prompts. The window size is
  a Go \<open>int\<close>; zero and negative sizes mean no window.
\<close>

record ConversationEntry =
  Sender :: gostring
  Receiver :: gostring
  Message :: gostring

record ConversationLog =
  entries :: "ConversationEntry list"
  maxEntries :: int

definition NewConversationLog :: "int \<Rightarrow> ConversationLog" where
  "NewConversationLog n = \<lparr>entries = [], maxEntries = n\<rparr>"

definition Append :: "ConversationEntry \<Rightarrow> ConversationLog \<Rightarrow> ConversationLog" where
  "Append e l =
     (let es = entries l @ [e]
      in if maxEntries l > 0 \<and> int (length es) > maxEntries l
         then l\<lparr>entries := drop (nat (int (length es) - maxEntries l)) es\<rparr>
         else l\<lparr>entries := es\<rparr>)"

text \<open>The loop of \<open>Render\<close>, \<open>i\<close> the index of the entry at hand and \<open>b\<close> the builder.\<close>

fun render_loop :: "nat \<Rightarrow> ConversationEntry list \<Rightarrow> gostring \<Rightarrow> gostring" where
  "render_loop i [] b = b"
| "render_loop i (e # es) b =
     (let b = (if i > 0 then b @ [newline] else b)
      in render_loop (Suc i) es
           (b @ ''['' @ Sender e @ ''] -> ['' @ Receiver e @ ''] '' @ Message e))"

definition Render :: "ConversationLog \<Rightarrow> gostring" where
  "Render l = render_loop 0 (entries l) ''''"

section \<open>The window\<close>

lemma Append_max [simp]: "maxEntries (Append e l) = maxEntries l"
  by (simp add: Append_def Let_def)

lemma Append_entries:
  "entries (Append e l) =
     (if maxEntries l > 0
      then drop (Suc (length (entries l)) - nat (maxEntries l)) (entries l @ [e])
      else entries l @ [e])"
  by (auto simp: Append_def Let_def nat_diff_distrib' nat_add_distrib)

lemma last_n_snoc:
  "drop (length (drop (n - k) xs @ [x]) - k) (drop (n - k) xs @ [x]) = drop (Suc n - k) (xs @ [x])"
  if "length xs = n" "k > 0"
  using that by (cases "n < k") (auto simp: Suc_diff_le)

section \<open>Reading a rendered log back\<close>

definition render_entry :: "ConversationEntry \<Rightarrow> gostring" where
  "render_entry e = ''['' @ Sender e @ ''] -> ['' @ Receiver e @ ''] '' @ Message e"

fun join_lines :: "gostring list \<Rightarrow> gostring" where
  "join_lines [] = ''''"
| "join_lines [l] = l"
| "join_lines (l # m # ls) = l @ newline # join_lines (m # ls)"

lemma render_loop_join:
  "es \<noteq> [] \<Longrightarrow> render_loop i es b =
     (if i > 0 then b @ [newline] else b) @ join_lines (map render_entry es)"
proof (induction i es b rule: render_loop.induct)
  case (2 i e es b)
  then show ?case by (cases es) (simp_all add: render_entry_def Let_def)
qed simp

lemma Render_join: "Render l = join_lines (map render_entry (entries l))"
  by (cases "entries l = []") (simp_all add: Render_def render_loop_join)

text \<open>A line-by-line reader of the format \<open>Render\<close> writes.\<close>

fun split_lines :: "gostring \<Rightarrow> gostring \<Rightarrow> gostring list" where
  "split_lines acc [] = [acc]"
| "split_lines acc (c # cs) =
     (if c = newline then acc # split_lines '''' cs else split_lines (acc @ [c]) cs)"

definition read_entry :: "gostring \<Rightarrow> ConversationEntry" where
  "read_entry l =
     (let a = drop 1 l; s = takeWhile (\<lambda>c. c \<noteq> CHR '']'') a;
          b = drop (length s + 6) a; r = takeWhile (\<lambda>c. c \<noteq> CHR '']'') b
      in \<lparr>Sender = s, Receiver = r, Message = drop (length r + 2) b\<rparr>)"

definition read_log :: "gostring \<Rightarrow> ConversationEntry list" where
  "read_log s = (if s = '''' then [] else map read_entry (split_lines '''' s))"

text \<open>Entries whose fields do not contain the delimiters of the format.\<close>

definition plain_entry :: "ConversationEntry \<Rightarrow> bool" where
  "plain_entry e \<longleftrightarrow> CHR '']'' \<notin> set (Sender e) \<and> CHR '']'' \<notin> set (Receiver e)
     \<and> newline \<notin> set (Sender e) \<and> newline \<notin> set (Receiver e) \<and> newline \<notin> set (Message e)"

lemma split_lines_line: "newline \<notin> set l \<Longrightarrow> split_lines acc l = [acc @ l]"
  by (induction l arbitrary: acc) auto

lemma split_lines_cons:
  "newline \<notin> set l \<Longrightarrow> split_lines acc (l @ newline # r) = (acc @ l) # split_lines '''' r"
  by (induction l arbitrary: acc) auto

lemma split_join: "\<forall>l \<in> set ls. newline \<notin> set l \<Longrightarrow> ls \<noteq> [] \<Longrightarrow> split_lines '''' (join_lines ls) = ls"
  by (induction ls rule: join_lines.induct) (auto simp: split_lines_line split_lines_cons)

lemma takeWhile_upto: "d \<notin> set s \<Longrightarrow> takeWhile (\<lambda>c. c \<noteq> d) (s @ d # t) = s"
  by (induction s) auto

lemma read_render_entry: "plain_entry e \<Longrightarrow> read_entry (render_entry e) = e"
  by (cases e) (simp add: plain_entry_def read_entry_def render_entry_def Let_def takeWhile_upto
      numeral_eq_Suc)

lemma render_entry_line: "plain_entry e \<Longrightarrow> newline \<notin> set (render_entry e)"
  by (auto simp: plain_entry_def render_entry_def newline_def)

lemma join_render_nonempty: "es \<noteq> [] \<Longrightarrow> join_lines (map render_entry es) \<noteq> ''''"
  by (cases "map render_entry es" rule: join_lines.cases) (auto simp: render_entry_def)

section \<open>Properties\<close>

text \<open>
  However many utterances are appended to a new log, it holds the last \<open>max\<close> of them in the
  order they were appended when \<open>max\<close> is positive, and all of them otherwise.
\<close>

theorem log_keeps_last:
  "entries (fold Append es (NewConversationLog n)) =
     (if n > 0 then drop (length es - nat n) es else es)"
proof -
  have "entries (fold Append es (NewConversationLog n)) =
      (if n > 0 then drop (length es - nat n) es else es) \<and>
    maxEntries (fold Append es (NewConversationLog n)) = n"
  proof (induction es rule: rev_induct)
    case Nil
    then show ?case by (simp add: NewConversationLog_def)
  next
    case (snoc e es)
    then show ?case using last_n_snoc [of es "length es" "nat n" e] by (simp add: Append_entries)
  qed
  then show ?thesis by simp
qed

text \<open>
  The rendered log determines the log: reading the text back line by line gives the entries
  as they were appended, in order and with sender, receiver and message, as long as callsigns
  have no closing bracket and nothing has a line break.
\<close>

theorem render_reads_back:
  assumes "\<forall>e \<in> set (entries l). plain_entry e"
  shows "read_log (Render l) = entries l"
proof (cases "entries l = []")
  case True
  then show ?thesis by (simp add: Render_join read_log_def)
next
  case False
  with assms have "split_lines '''' (Render l) = map render_entry (entries l)"
    unfolding Render_join by (intro split_join) (auto simp: render_entry_line)
  with assms False show ?thesis
    by (simp add: read_log_def Render_join join_render_nonempty read_render_entry map_idI)
qed

theorem render_reads_back_witness:
  "read_log (Render \<lparr>entries = [\<lparr>Sender = ''S4AB'', Receiver = ''S4CQ'', Message = ''hello [over]''\<rparr>,
      \<lparr>Sender = ''S4CQ'', Receiver = ''S4AB'', Message = ''''\<rparr>], maxEntries = 0\<rparr>)
   = [\<lparr>Sender = ''S4AB'', Receiver = ''S4CQ'', Message = ''hello [over]''\<rparr>,
      \<lparr>Sender = ''S4CQ'', Receiver = ''S4AB'', Message = ''''\<rparr>]"
  by (subst render_reads_back) (simp_all add: plain_entry_def newline_def)

end
