(* ===== verification/Persona.thy ===== *)
theory Persona
  imports Utf8 GoFmt
begin

text \<open>
  The characters of the peers, \<open>app/wl-game-server/persona.go\<close>: the system instruction made from
  a character template and the common rules, and the scenario that assigns characters in the
  order the peers are issued. The Japanese texts are given by their code points.
\<close>

definition baseInstructionRules :: gostring where
  "baseInstructionRules =
     encode_runes [20197, 19979, 12398, 12523, 12540, 12523, 12395, 24517, 12378, 24467,
     12387, 12390, 12367, 12384, 12373, 12356] @ '':'' @ [newline] @ ''- '' @ encode_runes
     [22238, 31572, 12399, 26085, 26412, 35486, 12391, 12289, 35201, 28857, 12398, 12415,
     12434] @ ''1'' @ encode_runes [25991, 12363, 12425] @ ''2'' @ encode_runes [25991,
     12391, 36848, 12409, 12390, 12367, 12384, 12373, 12356, 10] @ ''- '' @ encode_runes
     [26368, 22823] @ ''60'' @ encode_runes [25991, 23383, 31243, 24230, 12395, 21454,
     12417, 12390, 12367, 12384, 12373, 12356, 65288, 12501, 12457, 12540, 12510, 12483,
     12488, 37096, 20998, 12434, 38500, 12367, 65289, 10] @ ''- '' @ encode_runes [12510,
     12540, 12463, 12480, 12454, 12531, 35352, 27861, 12420, 31623, 26465, 26360, 12365,
     12399, 20351, 12431, 12378, 12289, 12503, 12524, 12540, 12531, 12486, 12461, 12473,
     12488, 12391, 22238, 31572, 12375, 12390, 12367, 12384, 12373, 12356, 10] @ ''- '' @
     encode_runes [28961, 32218, 20132, 20449, 12425, 12375, 12356, 21475, 35519, 12391,
     35441, 12375, 12390, 12367, 12384, 12373, 12356, 10] @ ''- '' @ encode_runes [20250,
     35441, 12398, 25991, 33032, 12434, 36367, 12414, 12360, 12390, 33258, 28982, 12395,
     38609, 35527, 12434, 32154, 12369, 12390, 12367, 12384, 12373, 12356, 10] @ ''- '' @
     encode_runes [12467, 12540, 12523, 12469, 12452, 12531, 12399, 38899, 22768, 12391,
     35501, 12415, 19978, 12370, 12425, 12428, 12427, 12383, 12417, 12289] @ ''1'' @
     encode_runes [25991, 23383, 12378, 12388, 26085, 26412, 35486, 12398, 12459, 12479,
     12459, 12490, 35501, 12415, 12395, 22793, 25563, 12375, 12390, 20986, 21147, 12375,
     12390, 12367, 12384, 12373, 12356, 10] @ ''  - '' @ encode_runes [25968, 23383, 12399,
     12300, 12476, 12525] @ '' '' @ encode_runes [12452, 12481] @ '' '' @ encode_runes
     [12491, 12540] @ '' '' @ encode_runes [12469, 12531] @ '' '' @ encode_runes [12520,
     12531] @ '' '' @ encode_runes [12468, 12540] @ '' '' @ encode_runes [12525, 12463] @
     '' '' @ encode_runes [12490, 12490] @ '' '' @ encode_runes [12495, 12481] @ '' '' @
     encode_runes [12461, 12517, 12540, 12301, 10] @ ''  - '' @ encode_runes [12450, 12523,
     12501, 12449, 12505, 12483, 12488, 12399, 12300, 12456, 12540] @ '' '' @ encode_runes
     [12499, 12540] @ '' '' @ encode_runes [12471, 12540] @ '' '' @ encode_runes [12487,
     12451, 12540] @ '' '' @ encode_runes [12452, 12540] @ '' '' @ encode_runes [12456,
     12501] @ '' '' @ encode_runes [12472, 12540] @ '' '' @ encode_runes [12456, 12452,
     12481] @ '' '' @ encode_runes [12450, 12452] @ '' '' @ encode_runes [12472, 12455,
     12452] @ '' '' @ encode_runes [12465, 12540] @ '' '' @ encode_runes [12456, 12523] @
     '' '' @ encode_runes [12456, 12512] @ '' '' @ encode_runes [12456, 12492] @ '' '' @
     encode_runes [12458, 12540] @ '' '' @ encode_runes [12500, 12540] @ '' '' @
     encode_runes [12461, 12517, 12540] @ '' '' @ encode_runes [12450, 12540, 12523] @
     '' '' @ encode_runes [12456, 12473] @ '' '' @ encode_runes [12486, 12451, 12540] @
     '' '' @ encode_runes [12518, 12540] @ '' '' @ encode_runes [12502, 12452] @ '' '' @
     encode_runes [12480, 12502, 12522, 12517, 12540] @ '' '' @ encode_runes [12456, 12483,
     12463, 12473] @ '' '' @ encode_runes [12527, 12452] @ '' '' @ encode_runes [12476,
     12483, 12488, 12301, 10] @ ''  - '' @ encode_runes [21508, 35501, 12415, 12398, 21306,
     20999, 12426, 12395, 12399, 21322, 35282, 12473, 12506, 12540, 12473, 12434, 20837,
     12428, 12390, 12367, 12384, 12373, 12356, 10] @ ''  - '' @ encode_runes [20363] @
     '': S4CQ '' @ encode_runes [8594] @ '' '' @ encode_runes [12300, 12456, 12473] @ '' ''
     @ encode_runes [12520, 12531] @ '' '' @ encode_runes [12471, 12540] @ '' '' @
     encode_runes [12461, 12517, 12540, 12301, 12289] @ ''S4AK '' @ encode_runes [8594] @
     '' '' @ encode_runes [12300, 12456, 12473] @ '' '' @ encode_runes [12520, 12531] @
     '' '' @ encode_runes [12456, 12540] @ '' '' @ encode_runes [12465, 12540, 12301, 10] @
     ''- '' @ encode_runes [27598, 22238, 12398, 36820, 31572, 12399, 20197, 19979, 12398,
     12501, 12457, 12540, 12510, 12483, 12488, 12434, 23432, 12387, 12390, 12367, 12384,
     12373, 12356, 65288, 12467, 12540, 12523, 12469, 12452, 12531, 37096, 20998, 12399,
     19978, 35352, 12398, 35501, 12415, 22793, 25563, 12434, 36969, 29992, 12377, 12427,
     12371, 12392, 65289, 10] @ ''  - <'' @ encode_runes [30456, 25163, 12467, 12540,
     12523, 12469, 12452, 12531, 12398, 35501, 12415] @ ''>'' @ encode_runes [12290, 12371,
     12385, 12425] @ ''<'' @ encode_runes [33258, 20998, 12467, 12540, 12523, 12469, 12452,
     12531, 12398, 35501, 12415] @ ''>'' @ encode_runes [12290] @ '' <'' @ encode_runes
     [22238, 31572, 20869, 23481] @ ''>'' @ encode_runes [12290] @ '' '' @ encode_runes
     [12393, 12358, 12382, 12290]"

record Persona =
  Character :: gostring

definition zeroPersona :: Persona where
  "zeroPersona = \<lparr>Character = ''''\<rparr>"

definition SystemInstruction :: "Persona \<Rightarrow> gostring \<Rightarrow> gostring" where
  "SystemInstruction p selfCallsign =
     sprintf (Character p) [selfCallsign] @ [newline] @ baseInstructionRules"

record Scenario =
  Personas :: "Persona list"

text \<open>The index is the position in a \<open>range\<close> loop, hence never negative.\<close>

definition PersonaFor :: "Scenario \<Rightarrow> nat \<Rightarrow> Persona" where
  "PersonaFor s idx =
     (let n = length (Personas s) in if n = 0 then zeroPersona else Personas s ! (idx mod n))"

definition defaultCharacter_0 :: gostring where
  "defaultCharacter_0 =
     encode_runes [12354, 12394, 12383, 12399, 12450, 12510, 12481, 12517, 12450, 28961,
     32218, 12398, 12458, 12506, 12524, 12540, 12479, 12540, 12391, 12377, 12290, 12354,
     12394, 12383, 12398, 12467, 12540, 12523, 12469, 12452, 12531, 12399]"

definition defaultCharacter_1 :: gostring where
  "defaultCharacter_1 =
     encode_runes [12391, 12377, 12290]"

definition defaultCharacter :: gostring where
  "defaultCharacter = defaultCharacter_0 @ ''%s'' @ defaultCharacter_1"

definition defaultScenario :: Scenario where
  "defaultScenario = \<lparr>Personas = [\<lparr>Character = defaultCharacter\<rparr>]\<rparr>"

section \<open>Templates without further verbs\<close>

lemma percent_byte: "CHR ''%'' = char_byte n \<longleftrightarrow> n mod 256 = 37"
proof -
  have "CHR ''%'' = char_byte n \<longleftrightarrow> byte_of (CHR ''%'') = byte_of (char_byte n)"
    by (metis char_of_char)
  also have "\<dots> \<longleftrightarrow> n mod 256 = 37" by auto
  finally show ?thesis .
qed

lemma percent_low: "n < 128 \<Longrightarrow> CHR ''%'' \<noteq> char_byte (128 + n)"
  by (simp add: percent_byte)

lemma percent_encode_rune: "CHR ''%'' \<in> set (encode_rune r) \<longleftrightarrow> r = 37"
proof (cases "r < 128")
  case True
  then show ?thesis using percent_byte [of r] by (auto simp: encode_rune_def)
next
  case False
  have "CHR ''%'' \<notin> set (encode_rune r)" if "r < 2048"
  proof -
    have "r div 64 < 64" using that by auto
    then show ?thesis
      using that False percent_low [of "64 + r div 64"] percent_low [of "r mod 64"]
      by (auto simp: encode_rune_def)
  qed
  moreover have "CHR ''%'' \<notin> set (encode_rune r)" if "\<not> r < 2048" "r < 65536"
  proof -
    have "r div 4096 < 16" using that by auto
    then show ?thesis
      using that False percent_low [of "96 + r div 4096"] percent_low [of "r div 64 mod 64"]
        percent_low [of "r mod 64"]
      by (auto simp: encode_rune_def percent_byte)
  qed
  moreover have "CHR ''%'' \<notin> set (encode_rune r)" if "\<not> r < 65536"
  proof -
    have "r div 262144 < 5 \<or> \<not> valid_rune r" using that by (auto simp: valid_rune_def)
    then show ?thesis
      using that False percent_low [of "112 + r div 262144"] percent_low [of "r div 4096 mod 64"]
        percent_low [of "r div 64 mod 64"] percent_low [of "r mod 64"]
      by (auto simp: encode_rune_def percent_byte)
  qed
  ultimately show ?thesis using False by auto
qed

lemma percent_encode_runes [simp]: "CHR ''%'' \<in> set (encode_runes rs) \<longleftrightarrow> 37 \<in> set rs"
  by (induction rs) (auto simp: encode_runes_def percent_encode_rune)

lemma PersonaFor_default [simp]: "PersonaFor defaultScenario i = \<lparr>Character = defaultCharacter\<rparr>"
  by (simp add: PersonaFor_def defaultScenario_def)

lemma SystemInstruction_zero:
  "SystemInstruction zeroPersona cs = ''%!(EXTRA string='' @ cs @ '')'' @ [newline] @ baseInstructionRules"
  by (simp add: SystemInstruction_def zeroPersona_def extra_def)

lemma default_template:
  "CHR ''%'' \<notin> set defaultCharacter_0" "CHR ''%'' \<notin> set defaultCharacter_1"
  by (simp_all add: defaultCharacter_0_def defaultCharacter_1_def)

section \<open>Properties\<close>

text \<open>
  Whatever position a peer is issued at, the default scenario gives it a character, and its
  system instruction is the character's text with the peer's own callsign in place of the verb,
  followed by the common rules.
\<close>

theorem default_instruction:
  "SystemInstruction (PersonaFor defaultScenario i) cs =
     defaultCharacter_0 @ cs @ defaultCharacter_1 @ [newline] @ baseInstructionRules"
  by (simp add: SystemInstruction_def defaultCharacter_def sprintf_plain sprintf_text default_template)

end
