(* ===== verification/Json.thy ===== *)
theory Json
  imports Utf8 "HOL-Library.Monad_Syntax"
begin

text \<open>
  The part of Go's \<open>encoding/json\<close> the program uses: \<open>Unmarshal\<close>, as a parser from text to values
  and the rules that store a value into a field of a struct, and \<open>Marshal\<close> for strings, arrays and
  objects with the escapes Go writes.

  Both work on runes. \<open>Unmarshal\<close> replaces invalid UTF-8 inside strings by U+FFFD and accepts no
  byte above 127 outside them, so it sees an input as its runes.
\<close>

section \<open>Values\<close>

datatype json =
    JNull
  | JBool bool
  | JNumber "rune list"
  | JString gostring
  | JArray "json list"
  | JObject "(gostring \<times> json) list"

text \<open>Invalid bytes of a string are replaced.\<close>

definition sanitize :: "gostring \<Rightarrow> gostring" where
  "sanitize s = encode_runes (runes s)"

lemma sanitize_valid [simp]: "valid_utf8 s \<Longrightarrow> sanitize s = s"
  by (simp add: sanitize_def valid_utf8_def)

section \<open>Parsing\<close>

definition is_ws :: "rune \<Rightarrow> bool" where
  "is_ws r \<longleftrightarrow> r = 32 \<or> r = 9 \<or> r = 13 \<or> r = 10"

definition skip_ws :: "rune list \<Rightarrow> rune list" where
  "skip_ws s = dropWhile is_ws s"

text \<open>The next token must be the rune \<open>c\<close>.\<close>

definition expect :: "rune \<Rightarrow> rune list \<Rightarrow> rune list option" where
  "expect c s = (case skip_ws s of [] \<Rightarrow> None | x # xs \<Rightarrow> if x = c then Some xs else None)"

definition hex_digit :: "rune \<Rightarrow> nat option" where
  "hex_digit r =
     (if between 48 57 r then Some (r - 48)
      else if between 97 102 r then Some (r - 87)
      else if between 65 70 r then Some (r - 55)
      else None)"

definition hex4 :: "rune list \<Rightarrow> nat option" where
  "hex4 s =
     (case map hex_digit (take 4 s) of
        [Some a, Some b, Some c, Some d] \<Rightarrow> Some (((a * 16 + b) * 16 + c) * 16 + d)
      | _ \<Rightarrow> None)"

definition surrogate :: "nat \<Rightarrow> bool" where
  "surrogate u \<longleftrightarrow> between 55296 57343 u"

text \<open>A high surrogate followed by an escaped low one is one rune.\<close>

definition low_half :: "nat \<Rightarrow> rune list \<Rightarrow> rune option" where
  "low_half u s =
     (if take 2 s = [92, 117] then
        case hex4 (drop 2 s) of
          None \<Rightarrow> None
        | Some v \<Rightarrow>
            if between 55296 56319 u \<and> between 56320 57343 v
            then Some ((u - 55296) * 1024 + (v - 56320) + 65536) else None
      else None)"

definition simple_escape :: "rune \<Rightarrow> rune option" where
  "simple_escape e =
     (if e = 34 \<or> e = 92 \<or> e = 47 then Some e
      else if e = 98 then Some 8 else if e = 102 then Some 12 else if e = 110 then Some 10
      else if e = 114 then Some 13 else if e = 116 then Some 9 else None)"

definition prepend :: "'a \<Rightarrow> ('a list \<times> 'b) option \<Rightarrow> ('a list \<times> 'b) option" where
  "prepend x res = (case res of None \<Rightarrow> None | Some (xs, r) \<Rightarrow> Some (x # xs, r))"

text \<open>A string literal after its opening quote: its runes and the text behind the closing quote.\<close>

function parse_string :: "rune list \<Rightarrow> (rune list \<times> rune list) option" where
  "parse_string s =
     (case s of
        [] \<Rightarrow> None
      | c # cs \<Rightarrow>
          if c = 34 then Some ([], cs)
          else if c < 32 then None
          else if c \<noteq> 92 then prepend c (parse_string cs)
          else case cs of
                 [] \<Rightarrow> None
               | e # es \<Rightarrow>
                   if e \<noteq> 117 then
                     case simple_escape e of None \<Rightarrow> None | Some r \<Rightarrow> prepend r (parse_string es)
                   else case hex4 es of
                          None \<Rightarrow> None
                        | Some u \<Rightarrow>
                            if \<not> surrogate u then prepend u (parse_string (drop 4 es))
                            else case low_half u (drop 4 es) of
                                   Some r \<Rightarrow> prepend r (parse_string (drop 10 es))
                                 | None \<Rightarrow> prepend rune_error (parse_string (drop 4 es)))"
  by pat_completeness auto
termination by (relation "measure length") auto

declare parse_string.simps [simp del]

definition is_digit :: "rune \<Rightarrow> bool" where
  "is_digit r = between 48 57 r"

text \<open>At least one digit.\<close>

definition digits1 :: "rune list \<Rightarrow> (rune list \<times> rune list) option" where
  "digits1 s =
     (case takeWhile is_digit s of [] \<Rightarrow> None | ds \<Rightarrow> Some (ds, dropWhile is_digit s))"

definition scan_int :: "rune list \<Rightarrow> (rune list \<times> rune list) option" where
  "scan_int s = (if take 1 s = [48] then Some ([48], drop 1 s) else digits1 s)"

definition scan_frac :: "rune list \<Rightarrow> (rune list \<times> rune list) option" where
  "scan_frac s = (if take 1 s = [46] then prepend 46 (digits1 (drop 1 s)) else Some ([], s))"

definition scan_exp :: "rune list \<Rightarrow> (rune list \<times> rune list) option" where
  "scan_exp s =
     (case s of
        c # cs \<Rightarrow>
          if c = 101 \<or> c = 69 then
            prepend c (case cs of
                         d # ds \<Rightarrow> if d = 43 \<or> d = 45 then prepend d (digits1 ds) else digits1 cs
                       | [] \<Rightarrow> None)
          else Some ([], s)
      | [] \<Rightarrow> Some ([], s))"

definition scan_number :: "rune list \<Rightarrow> (rune list \<times> rune list) option" where
  "scan_number s = do {
     (m, s) \<leftarrow> Some (if take 1 s = [45] then ([45], drop 1 s) else ([], s));
     (i, s) \<leftarrow> scan_int s;
     (f, s) \<leftarrow> scan_frac s;
     (e, s) \<leftarrow> scan_exp s;
     Some (m @ i @ f @ e, s)
   }"

definition lit :: "gostring \<Rightarrow> rune list" where
  "lit = map of_char"

definition parse_scalar :: "rune list \<Rightarrow> (json \<times> rune list) option" where
  "parse_scalar s =
     (if take 4 s = lit ''null'' then Some (JNull, drop 4 s)
      else if take 4 s = lit ''true'' then Some (JBool True, drop 4 s)
      else if take 5 s = lit ''false'' then Some (JBool False, drop 5 s)
      else case scan_number s of None \<Rightarrow> None | Some (n, r) \<Rightarrow> Some (JNumber n, r))"

definition maxNestingDepth :: nat where
  "maxNestingDepth = 10000"

text \<open>
  The values, \<open>d\<close> the number of objects and arrays that are open. The fuel is the first argument;
  \<open>2 * length s + 2\<close> is enough, see \<open>parse_fuel\<close> below.
\<close>

fun parse_value :: "nat \<Rightarrow> nat \<Rightarrow> rune list \<Rightarrow> (json \<times> rune list) option"
  and parse_members :: "nat \<Rightarrow> nat \<Rightarrow> rune list \<Rightarrow> ((gostring \<times> json) list \<times> rune list) option"
  and parse_elements :: "nat \<Rightarrow> nat \<Rightarrow> rune list \<Rightarrow> (json list \<times> rune list) option" where
  "parse_value 0 d s = None"
| "parse_value (Suc f) d s =
     (case skip_ws s of
        [] \<Rightarrow> None
      | c # cs \<Rightarrow>
          if c = 123 then
            if d \<ge> maxNestingDepth then None
            else case expect 125 cs of
                   Some r \<Rightarrow> Some (JObject [], r)
                 | None \<Rightarrow> do { (kvs, r) \<leftarrow> parse_members f (Suc d) cs; Some (JObject kvs, r) }
          else if c = 91 then
            if d \<ge> maxNestingDepth then None
            else case expect 93 cs of
                   Some r \<Rightarrow> Some (JArray [], r)
                 | None \<Rightarrow> do { (vs, r) \<leftarrow> parse_elements f (Suc d) cs; Some (JArray vs, r) }
          else if c = 34 then do { (t, r) \<leftarrow> parse_string cs; Some (JString (encode_runes t), r) }
          else parse_scalar (c # cs))"
| "parse_members 0 d s = None"
| "parse_members (Suc f) d s = do {
     s \<leftarrow> expect 34 s;
     (k, s) \<leftarrow> parse_string s;
     s \<leftarrow> expect 58 s;
     (v, s) \<leftarrow> parse_value f d s;
     case expect 44 s of
       Some s \<Rightarrow> do { (kvs, r) \<leftarrow> parse_members f d s; Some ((encode_runes k, v) # kvs, r) }
     | None \<Rightarrow> do { r \<leftarrow> expect 125 s; Some ([(encode_runes k, v)], r) }
   }"
| "parse_elements 0 d s = None"
| "parse_elements (Suc f) d s = do {
     (v, s) \<leftarrow> parse_value f d s;
     case expect 44 s of
       Some s \<Rightarrow> do { (vs, r) \<leftarrow> parse_elements f d s; Some (v # vs, r) }
     | None \<Rightarrow> do { r \<leftarrow> expect 93 s; Some ([v], r) }
   }"

definition parse_json :: "gostring \<Rightarrow> json option" where
  "parse_json t =
     (let s = runes t
      in case parse_value (2 * length s + 2) 0 s of
           None \<Rightarrow> None
         | Some (v, r) \<Rightarrow> if skip_ws r = [] then Some v else None)"

section \<open>Storing a value into a struct\<close>

text \<open>
  Field names match up to case; two runes outside ASCII, the long s and the Kelvin sign, fold to
  ASCII letters. Each store returns the new value and whether the types agreed: on a mismatch
  \<open>Unmarshal\<close> goes on and returns an error at the end. \<open>null\<close> is no mismatch and stores nothing.
\<close>

definition fold_rune :: "rune \<Rightarrow> rune" where
  "fold_rune r =
     (if between 97 122 r then r - 32 else if r = 383 then 83 else if r = 8490 then 75 else r)"

definition field_matches :: "gostring \<Rightarrow> gostring \<Rightarrow> bool" where
  "field_matches name key \<longleftrightarrow> map fold_rune (runes key) = map fold_rune (runes name)"

fun store_string :: "json \<Rightarrow> gostring \<Rightarrow> gostring \<times> bool" where
  "store_string JNull old = (old, True)"
| "store_string (JString s) old = (s, True)"
| "store_string _ old = (old, False)"

text \<open>A struct is stored from an object, member by member, in the order of the text.\<close>

fun store_members ::
  "(gostring \<Rightarrow> json \<Rightarrow> 'a \<Rightarrow> 'a \<times> bool) \<Rightarrow> (gostring \<times> json) list \<Rightarrow> 'a \<Rightarrow> 'a \<times> bool" where
  "store_members f [] x = (x, True)"
| "store_members f ((k, v) # kvs) x =
     (case f k v x of (y, ok) \<Rightarrow> (case store_members f kvs y of (z, ok') \<Rightarrow> (z, ok \<and> ok')))"

fun store_struct :: "(gostring \<Rightarrow> json \<Rightarrow> 'a \<Rightarrow> 'a \<times> bool) \<Rightarrow> json \<Rightarrow> 'a \<Rightarrow> 'a \<times> bool" where
  "store_struct f JNull x = (x, True)"
| "store_struct f (JObject kvs) x = store_members f kvs x"
| "store_struct f _ x = (x, False)"

text \<open>
  \<open>json.Unmarshal\<close> into a struct that holds \<open>x\<close>: a syntax error stores nothing.
\<close>

definition unmarshal :: "(gostring \<Rightarrow> json \<Rightarrow> 'a \<Rightarrow> 'a \<times> bool) \<Rightarrow> gostring \<Rightarrow> 'a \<Rightarrow> 'a \<times> bool" where
  "unmarshal f t x = (case parse_json t of None \<Rightarrow> (x, False) | Some v \<Rightarrow> store_struct f v x)"

text \<open>
  Storing an array into a slice reuses the elements the slice has, the ones beyond its length
  but within its capacity too. \<open>backing\<close> are the elements written so far; beyond them the memory
  is zero. An empty array makes a new slice, \<open>null\<close> gives nil.
\<close>

record 'a slice =
  backing :: "'a list"
  slen :: nat

definition slice_elems :: "'a slice \<Rightarrow> 'a list" where
  "slice_elems s = take (slen s) (backing s)"

fun store_elements :: "(json \<Rightarrow> 'a \<Rightarrow> 'a \<times> bool) \<Rightarrow> 'a \<Rightarrow> json list \<Rightarrow> 'a list \<Rightarrow> 'a list \<times> bool" where
  "store_elements f z [] old = (old, True)"
| "store_elements f z (v # vs) old =
     (let (y, ok) = f v (case old of [] \<Rightarrow> z | x # _ \<Rightarrow> x);
          (ys, ok') = store_elements f z vs (tl old)
      in (y # ys, ok \<and> ok'))"

fun store_slice :: "(json \<Rightarrow> 'a \<Rightarrow> 'a \<times> bool) \<Rightarrow> 'a \<Rightarrow> json \<Rightarrow> 'a slice \<Rightarrow> 'a slice \<times> bool" where
  "store_slice f z JNull s = (\<lparr>backing = [], slen = 0\<rparr>, True)"
| "store_slice f z (JArray vs) s =
     (if vs = [] then (\<lparr>backing = [], slen = 0\<rparr>, True)
      else case store_elements f z vs (backing s) of
             (ys, ok) \<Rightarrow> (\<lparr>backing = ys, slen = length vs\<rparr>, ok))"
| "store_slice f z _ s = (s, False)"

section \<open>Marshal\<close>

definition hex_char :: "nat \<Rightarrow> rune" where
  "hex_char n = (if n < 10 then 48 + n else 87 + n)"

definition u_escape :: "nat \<Rightarrow> rune list" where
  "u_escape n =
     [92, 117, hex_char (n div 4096 mod 16), hex_char (n div 256 mod 16),
      hex_char (n div 16 mod 16), hex_char (n mod 16)]"

text \<open>\<open>appendString\<close> with HTML escaping, for one rune and the bytes it was decoded from.\<close>

definition escape :: "rune \<times> gostring \<Rightarrow> rune list" where
  "escape seg =
     (case seg of (r, bs) \<Rightarrow>
        if r = 34 \<or> r = 92 then [92, r]
        else if r = 8 then [92, 98] else if r = 12 then [92, 102] else if r = 10 then [92, 110]
        else if r = 13 then [92, 114] else if r = 9 then [92, 116]
        else if r < 32 \<or> r = 60 \<or> r = 62 \<or> r = 38 then u_escape r
        else if r = rune_error \<and> length bs = 1 then u_escape r
        else if r = 8232 \<or> r = 8233 then u_escape r
        else [r])"

definition quote :: "gostring \<Rightarrow> rune list" where
  "quote s = 34 # concat (map escape (segments s)) @ [34]"

fun join_with :: "'a \<Rightarrow> 'a list list \<Rightarrow> 'a list" where
  "join_with c [] = []"
| "join_with c [x] = x"
| "join_with c (x # y # zs) = x @ c # join_with c (y # zs)"

fun print_json :: "json \<Rightarrow> rune list" where
  "print_json JNull = lit ''null''"
| "print_json (JBool b) = (if b then lit ''true'' else lit ''false'')"
| "print_json (JNumber n) = n"
| "print_json (JString s) = quote s"
| "print_json (JArray vs) = 91 # join_with 44 (map print_json vs) @ [93]"
| "print_json (JObject kvs) =
     123 # join_with 44 (map (\<lambda>(k, v). quote k @ 58 # print_json v) kvs) @ [125]"

definition marshal :: "json \<Rightarrow> gostring" where
  "marshal j = encode_runes (print_json j)"

section \<open>What Marshal writes is read back\<close>

lemma expect_cons [simp]: "\<not> is_ws x \<Longrightarrow> expect c (x # xs) = (if x = c then Some xs else None)"
  by (simp add: expect_def skip_ws_def)

lemma hex_digit_char: "n < 16 \<Longrightarrow> hex_digit (hex_char n) = Some n"
  by (simp add: hex_digit_def hex_char_def between_def)

lemma hex_digits_value:
  fixes n :: nat
  assumes "n < 65536"
  shows "((n div 4096 mod 16 * 16 + n div 256 mod 16) * 16 + n div 16 mod 16) * 16 + n mod 16 = n"
proof -
  have "n div 4096 mod 16 = n div 4096" using assms by (intro mod_less) auto
  moreover have "n div 4096 = n div 256 div 16" "n div 256 = n div 16 div 16"
    by (simp_all flip: div_mult2_eq)
  moreover have "m div 16 * 16 + m mod 16 = m" for m :: nat by (rule div_mult_mod_eq)
  ultimately show ?thesis by metis
qed

lemma hex4_u_escape: "n < 65536 \<Longrightarrow> hex4 (drop 2 (u_escape n) @ rest) = Some n"
  using hex_digits_value [of n] by (simp add: u_escape_def hex4_def hex_digit_char)

lemma parse_u_escape:
  assumes "n < 65536" and "\<not> surrogate n"
  shows "parse_string (u_escape n @ rest) = prepend n (parse_string rest)"
proof -
  obtain hs where hs: "u_escape n = 92 # 117 # hs" "length hs = 4" by (simp add: u_escape_def)
  then have "hex4 (hs @ rest) = Some n" using hex4_u_escape [OF assms(1), of rest] by simp
  with hs assms(2) show ?thesis by (subst parse_string.simps) simp
qed

lemma valid_not_surrogate: "valid_rune r \<Longrightarrow> \<not> surrogate r"
  by (auto simp: valid_rune_def surrogate_def between_def)

lemma parse_escape:
  assumes "valid_rune r"
  shows "parse_string (escape (r, bs) @ rest) = prepend r (parse_string rest)"
proof -
  have simple: "parse_string ([92, e] @ rest) = prepend x (parse_string rest)"
    if "simple_escape e = Some x" "e \<noteq> 117" for e x
    using that by (subst parse_string.simps) simp
  have plain: "parse_string ([r] @ rest) = prepend r (parse_string rest)"
    if "r \<noteq> 34" "r \<noteq> 92" "\<not> r < 32"
    using that by (subst parse_string.simps) simp
  have u: "parse_string (u_escape r @ rest) = prepend r (parse_string rest)" if "r < 65536"
    using that parse_u_escape valid_not_surrogate [OF assms] by blast
  show ?thesis
    unfolding escape_def prod.case using simple plain u
    by (auto simp: simple_escape_def rune_error_def)
qed

lemma parse_segments:
  "\<forall>x \<in> set segs. valid_rune (fst x) \<Longrightarrow>
   parse_string (concat (map escape segs) @ 34 # rest) = Some (map fst segs, rest)"
proof (induction segs)
  case Nil
  show ?case by (subst parse_string.simps) simp
next
  case (Cons x segs)
  then show ?case
    using parse_escape [of "fst x" "snd x" "concat (map escape segs) @ 34 # rest"]
    by (simp add: prepend_def)
qed

lemma parse_quote:
  "parse_string (tl (quote s) @ rest) = Some (runes s, rest)"
  using parse_segments [of "segments s" rest] segments_valid
  by (force simp: quote_def runes_def)

fun sanitized :: "json \<Rightarrow> json" where
  "sanitized (JString s) = JString (sanitize s)"
| "sanitized (JArray vs) = JArray (map sanitized vs)"
| "sanitized (JObject kvs) = JObject (map (\<lambda>(k, v). (sanitize k, sanitized v)) kvs)"
| "sanitized v = v"

fun no_numbers :: "json \<Rightarrow> bool" where
  "no_numbers (JNumber n) = False"
| "no_numbers (JArray vs) = list_all no_numbers vs"
| "no_numbers (JObject kvs) = list_all (\<lambda>(k, v). no_numbers v) kvs"
| "no_numbers v = True"

text \<open>\<open>nested n v\<close>: objects and arrays are nested at most \<open>n\<close> deep.\<close>

fun nested :: "nat \<Rightarrow> json \<Rightarrow> bool" where
  "nested n (JArray vs) = (case n of 0 \<Rightarrow> False | Suc m \<Rightarrow> list_all (nested m) vs)"
| "nested n (JObject kvs) = (case n of 0 \<Rightarrow> False | Suc m \<Rightarrow> list_all (\<lambda>(k, v). nested m v) kvs)"
| "nested n v = True"

lemma nested_mono: "nested m v \<Longrightarrow> m \<le> n \<Longrightarrow> nested n v"
proof (induction v arbitrary: m n)
  case (JArray vs)
  obtain k l where kl: "m = Suc k" "n = Suc l" "k \<le> l"
    using JArray.prems by (cases m; cases n) auto
  have "nested l v" if "v \<in> set vs" for v
    by (rule JArray.IH [of v k l]) (use that JArray.prems(1) kl in \<open>auto simp: list_all_iff\<close>)
  then show ?case by (simp add: kl list_all_iff)
next
  case (JObject kvs)
  obtain k l where kl: "m = Suc k" "n = Suc l" "k \<le> l"
    using JObject.prems by (cases m; cases n) auto
  have "nested l (snd kv)" if "kv \<in> set kvs" for kv
    by (rule JObject.IH [of kv "snd kv" k l])
      (use that JObject.prems(1) kl in \<open>auto simp: list_all_iff snds.simps\<close>)
  then show ?case by (auto simp: kl list_all_iff)
qed simp_all

definition starts_value :: "rune list \<Rightarrow> bool" where
  "starts_value s \<longleftrightarrow> s \<noteq> [] \<and> \<not> is_ws (hd s) \<and> hd s \<noteq> 93 \<and> hd s \<noteq> 125"

lemma print_starts: "no_numbers v \<Longrightarrow> starts_value (print_json v @ rest)"
  by (cases v) (auto simp: starts_value_def is_ws_def lit_def quote_def)

definition reads :: "json \<Rightarrow> bool" where
  "reads v \<longleftrightarrow> (\<forall>n d f rest. nested n v \<longrightarrow> d + n \<le> maxNestingDepth \<longrightarrow>
     2 * length (print_json v) + 1 \<le> f \<longrightarrow>
     parse_value f d (print_json v @ rest) = Some (sanitized v, rest))"

lemma no_ws [simp]: "\<not> is_ws 123" "\<not> is_ws 125" "\<not> is_ws 91" "\<not> is_ws 93" "\<not> is_ws 34"
  "\<not> is_ws 44" "\<not> is_ws 58"
  by (simp_all add: is_ws_def)

lemma read_elements:
  "\<forall>v \<in> set vs. reads v \<and> nested n v \<Longrightarrow> vs \<noteq> [] \<Longrightarrow> d + n \<le> maxNestingDepth \<Longrightarrow>
   2 * length (join_with 44 (map print_json vs)) + 2 \<le> f \<Longrightarrow>
   parse_elements f d (join_with 44 (map print_json vs) @ 93 # rest) = Some (map sanitized vs, rest)"
proof (induction vs arbitrary: f)
  case (Cons v vs)
  then obtain g where f: "f = Suc g" by (cases f) auto
  have v: "parse_value g d (print_json v @ r) = Some (sanitized v, r)" for r
    using Cons.prems f by (cases vs) (auto simp: reads_def)
  show ?case
  proof (cases vs)
    case Nil
    then show ?thesis using v by (simp add: f)
  next
    case (Cons w ws)
    have "parse_elements g d (join_with 44 (map print_json vs) @ 93 # rest)
        = Some (map sanitized vs, rest)"
      using Cons.prems Cons f by (intro Cons.IH) auto
    then show ?thesis using v Cons by (simp add: f)
  qed
qed simp

definition print_member :: "gostring \<times> json \<Rightarrow> rune list" where
  "print_member = (\<lambda>(k, v). quote k @ 58 # print_json v)"

lemma read_members:
  "\<forall>kv \<in> set kvs. reads (snd kv) \<and> nested n (snd kv) \<Longrightarrow> kvs \<noteq> [] \<Longrightarrow> d + n \<le> maxNestingDepth \<Longrightarrow>
   2 * length (join_with 44 (map print_member kvs)) + 2 \<le> f \<Longrightarrow>
   parse_members f d (join_with 44 (map print_member kvs) @ 125 # rest) =
     Some (map (\<lambda>(k, v). (sanitize k, sanitized v)) kvs, rest)"
proof (induction kvs arbitrary: f)
  case (Cons kv kvs)
  then obtain g where f: "f = Suc g" by (cases f) auto
  obtain k v where kv: "kv = (k, v)" by (cases kv)
  have q: "quote k = 34 # tl (quote k)" by (simp add: quote_def)
  have v: "parse_value g d (print_json v @ r) = Some (sanitized v, r)" for r
    using Cons.prems f kv by (cases kvs) (auto simp: reads_def print_member_def)
  show ?case
  proof (cases kvs)
    case Nil
    then show ?thesis using v
      by (subst f, subst parse_members.simps)
        (simp add: kv print_member_def parse_quote sanitize_def, subst q, simp add: parse_quote)
  next
    case (Cons w ws)
    have "parse_members g d (join_with 44 (map print_member kvs) @ 125 # rest)
        = Some (map (\<lambda>(k, v). (sanitize k, sanitized v)) kvs, rest)"
      using Cons.prems Cons f by (intro Cons.IH) auto
    then show ?thesis using v Cons
      by (subst f, subst parse_members.simps)
        (simp add: kv print_member_def parse_quote sanitize_def, subst q, simp add: parse_quote)
  qed
qed simp

lemma print_object:
  "print_json (JObject kvs) = 123 # join_with 44 (map print_member kvs) @ [125]"
  by (simp add: print_member_def)

lemma join_starts:
  "xs \<noteq> [] \<Longrightarrow> starts_value (hd xs @ 44 # []) \<Longrightarrow> hd xs \<noteq> [] \<Longrightarrow> starts_value (join_with 44 xs @ r)"
  by (cases xs; cases "tl xs") (auto simp: starts_value_def)

lemma expect_starts: "starts_value s \<Longrightarrow> expect 93 s = None \<and> expect 125 s = None"
  by (cases s) (auto simp: starts_value_def)

lemma print_nonempty: "no_numbers v \<Longrightarrow> print_json v \<noteq> []"
  by (cases v) (auto simp: lit_def quote_def)

lemma reads_array:
  assumes "\<And>v. v \<in> set vs \<Longrightarrow> no_numbers v \<Longrightarrow> reads v" and "no_numbers (JArray vs)"
  shows "reads (JArray vs)"
  unfolding reads_def
proof (intro allI impI)
  fix n d f rest
  assume n: "nested n (JArray vs)" and d: "d + n \<le> maxNestingDepth"
    and f: "2 * length (print_json (JArray vs)) + 1 \<le> f"
  obtain m where m: "n = Suc m" "list_all (nested m) vs" using n by (cases n) auto
  obtain g where g: "f = Suc g" using f by (cases f) auto
  show "parse_value f d (print_json (JArray vs) @ rest) = Some (sanitized (JArray vs), rest)"
  proof (cases "vs = []")
    case True
    then show ?thesis using d m by (simp add: g skip_ws_def)
  next
    case False
    then have "starts_value (join_with 44 (map print_json vs) @ 93 # rest)"
      using assms(2) print_starts print_nonempty
      by (intro join_starts) (auto simp: hd_map list_all_iff)
    moreover have "parse_elements g (Suc d) (join_with 44 (map print_json vs) @ 93 # rest)
        = Some (map sanitized vs, rest)"
      using assms False m d f g
      by (intro read_elements [of vs m]) (auto simp: list_all_iff)
    ultimately show ?thesis using d m by (simp add: g skip_ws_def expect_starts)
  qed
qed

lemma reads_object:
  assumes "\<And>k v. (k, v) \<in> set kvs \<Longrightarrow> no_numbers v \<Longrightarrow> reads v" and "no_numbers (JObject kvs)"
  shows "reads (JObject kvs)"
  unfolding reads_def
proof (intro allI impI)
  fix n d f rest
  assume n: "nested n (JObject kvs)" and d: "d + n \<le> maxNestingDepth"
    and f: "2 * length (print_json (JObject kvs)) + 1 \<le> f"
  obtain m where m: "n = Suc m" "list_all (\<lambda>(k, v). nested m v) kvs" using n by (cases n) auto
  obtain g where g: "f = Suc g" using f by (cases f) auto
  show "parse_value f d (print_json (JObject kvs) @ rest) = Some (sanitized (JObject kvs), rest)"
  proof (cases "kvs = []")
    case True
    then show ?thesis using d m by (simp add: g skip_ws_def)
  next
    case False
    then have "starts_value (join_with 44 (map print_member kvs) @ 125 # rest)"
      by (intro join_starts)
        (auto simp: hd_map print_member_def quote_def starts_value_def split: prod.splits)
    moreover have "parse_members g (Suc d) (join_with 44 (map print_member kvs) @ 125 # rest)
        = Some (map (\<lambda>(k, v). (sanitize k, sanitized v)) kvs, rest)"
      using assms False m d f g unfolding print_object
      by (intro read_members [of kvs m]) (auto simp: list_all_iff)
    ultimately show ?thesis
      using d m unfolding print_object by (simp add: g skip_ws_def expect_starts)
  qed
qed

lemma parse_literals:
  assumes "0 < f"
  shows "parse_value f d (lit ''null'' @ rest) = Some (JNull, rest)"
    and "parse_value f d (lit ''true'' @ rest) = Some (JBool True, rest)"
    and "parse_value f d (lit ''false'' @ rest) = Some (JBool False, rest)"
  using assms by (cases f; simp add: lit_def parse_scalar_def skip_ws_def is_ws_def)+

lemma reads_all: "no_numbers v \<Longrightarrow> reads v"
proof (induction v)
  case JNull
  then show ?case by (auto simp: reads_def intro!: parse_literals)
next
  case (JBool b)
  then show ?case by (auto simp: reads_def intro!: parse_literals)
next
  case (JString s)
  have "parse_value (Suc g) d (quote s @ rest) = Some (JString (sanitize s), rest)" for g d rest
    using parse_quote [of s rest] by (simp add: quote_def skip_ws_def sanitize_def)
  then show ?case
    by (auto simp: reads_def Suc_le_eq elim!: less_natE)
next
  case (JArray vs)
  then show ?case by (intro reads_array) auto
next
  case (JObject kvs)
  then show ?case by (intro reads_object) (auto simp: snds.simps)
qed simp

lemma set_join_with: "set (join_with c xs) \<subseteq> insert c (\<Union> (set ` set xs))"
  by (induction c xs rule: join_with.induct) auto

lemma hex_char_valid: "n < 16 \<Longrightarrow> valid_rune (hex_char n)"
  by (simp add: hex_char_def valid_rune_def)

lemma ascii_valid: "r < 128 \<Longrightarrow> valid_rune r"
  by (simp add: valid_rune_def)

lemma u_escape_valid: "r \<in> set (u_escape n) \<Longrightarrow> valid_rune r"
  by (auto simp: u_escape_def hex_char_valid ascii_valid)

lemma escape_valid: "valid_rune (fst x) \<Longrightarrow> r \<in> set (escape x) \<Longrightarrow> valid_rune r"
  by (cases x) (simp add: escape_def ascii_valid split: if_splits; auto simp: ascii_valid dest: u_escape_valid)

lemma quote_valid: "r \<in> set (quote s) \<Longrightarrow> valid_rune r"
  by (auto simp: quote_def dest!: escape_valid [OF segments_valid]) (simp_all add: valid_rune_def)

lemma print_valid: "no_numbers v \<Longrightarrow> r \<in> set (print_json v) \<Longrightarrow> valid_rune r"
proof (induction v arbitrary: r)
  case (JArray vs)
  have "valid_rune q" if "q \<in> set (print_json v)" "v \<in> set vs" for q v
    using that JArray by (auto simp: list_all_iff)
  moreover have "r = 91 \<or> r = 93 \<or> r = 44 \<or> (\<exists>v \<in> set vs. r \<in> set (print_json v))"
    using JArray(3) set_join_with [of 44 "map print_json vs"] by auto
  ultimately show ?case by (auto simp: valid_rune_def)
next
  case (JObject kvs)
  have "valid_rune q" if "q \<in> set (print_member kv)" "kv \<in> set kvs" for q kv
    using that JObject quote_valid
    by (auto simp: print_member_def list_all_iff snds.simps) (auto simp: valid_rune_def)
  moreover have "r = 123 \<or> r = 125 \<or> r = 44 \<or> (\<exists>kv \<in> set kvs. r \<in> set (print_member kv))"
    using JObject(3) set_join_with [of 44 "map print_member kvs"] unfolding print_object by auto
  ultimately show ?case by (auto simp: valid_rune_def)
qed (auto simp: lit_def valid_rune_def quote_valid split: if_splits dest: quote_valid)

text \<open>Parsing what was printed gives the value, its strings made valid UTF-8.\<close>

lemma parse_marshal:
  assumes "no_numbers v" and "nested maxNestingDepth v"
  shows "parse_json (marshal v) = Some (sanitized v)"
proof -
  have "runes (marshal v) = print_json v"
    using print_valid [OF assms(1)] by (simp add: marshal_def runes_encode_runes)
  moreover have "parse_value (2 * length (print_json v) + 2) 0 (print_json v @ []) = Some (sanitized v, [])"
    using assms reads_all [OF assms(1), unfolded reads_def, rule_format, where n = maxNestingDepth
        and d = 0 and f = "2 * length (print_json v) + 2" and rest = "[]"]
    by (simp del: parse_value.simps)
  ultimately show ?thesis by (simp add: parse_json_def skip_ws_def)
qed

section \<open>The fuel is enough\<close>

lemma skip_ws_length: "length (skip_ws s) \<le> length s"
  by (simp add: skip_ws_def length_dropWhile_le)

lemma expect_length: "expect c s = Some r \<Longrightarrow> length r < length s"
  using skip_ws_length [of s] by (auto simp: expect_def split: list.splits if_splits)

lemma prepend_SomeD: "prepend x res = Some (xs, r) \<Longrightarrow> \<exists>ys. res = Some (ys, r)"
  by (auto simp: prepend_def split: option.splits)

lemma parse_string_step:
  assumes "parse_string (c # cs) = Some (x, r)"
  shows "cs = r \<or> (\<exists>n y. parse_string (drop n cs) = Some (y, r))"
proof -
  have d: "drop n es = drop (Suc n) (e # es)" for n and e and es :: "rune list" by simp
  have d0: "cs = drop 0 cs" by simp
  show ?thesis
    using assms
    by (subst (asm) parse_string.simps)
      (auto split: list.splits option.splits if_splits dest!: prepend_SomeD
        intro: exI [of _ 0] exI [of _ 1] exI [of _ 5] exI [of _ 11])
qed

lemma parse_string_length: "parse_string s = Some (x, r) \<Longrightarrow> length r < length s"
proof (induction s arbitrary: x rule: length_induct)
  case (1 s)
  obtain c cs where s: "s = c # cs" using 1(2) by (cases s) (auto simp: parse_string.simps)
  from parse_string_step [of c cs x r] 1(2) s consider "cs = r"
    | n y where "parse_string (drop n cs) = Some (y, r)" by auto
  then show ?case
  proof cases
    case 2
    moreover have "length (drop n cs) < length s" by (simp add: s)
    ultimately have "length r < length (drop n cs)" using 1(1) by blast
    with s show ?thesis by simp
  qed (simp add: s)
qed

lemma digits1_length: "digits1 s = Some (x, r) \<Longrightarrow> length r < length s"
  by (cases s) (auto simp: digits1_def length_dropWhile_le less_Suc_eq_le split: list.splits if_splits)

lemma scan_int_length: "scan_int s = Some (x, r) \<Longrightarrow> length r < length s"
  by (cases s) (auto simp: scan_int_def split: if_splits dest: digits1_length)

lemma scan_frac_length: "scan_frac s = Some (x, r) \<Longrightarrow> length r \<le> length s"
  by (auto simp: scan_frac_def split: if_splits dest!: prepend_SomeD digits1_length)

lemma scan_exp_length: "scan_exp s = Some (x, r) \<Longrightarrow> length r \<le> length s"
  by (auto simp: scan_exp_def split: list.splits if_splits dest!: prepend_SomeD digits1_length)

lemma scan_number_length: "scan_number s = Some (x, r) \<Longrightarrow> length r < length s"
  by (fastforce simp: scan_number_def split: if_splits Option.bind_splits
      dest!: scan_int_length scan_frac_length scan_exp_length)

lemma parse_scalar_length: "parse_scalar s = Some (v, r) \<Longrightarrow> length r < length s"
  by (auto simp: parse_scalar_def lit_def split: if_splits option.splits dest: scan_number_length)
    (auto simp: min_def dest!: arg_cong [where f = length] split: if_splits)

lemma parse_length:
  "parse_value f d s = Some (v, r) \<Longrightarrow> length r < length s"
  "parse_members f d s = Some (kvs, r) \<Longrightarrow> length r < length s"
  "parse_elements f d s = Some (vs, r) \<Longrightarrow> length r < length s"
proof (induction f d s and f d s and f d s arbitrary: v r and kvs r and vs r
    rule: parse_value_parse_members_parse_elements.induct)
  case (2 f d s)
  have "length (skip_ws s) \<le> length s" by (rule skip_ws_length)
  with 2 show ?case
    by (fastforce split: list.splits if_splits option.splits Option.bind_splits
        dest!: expect_length parse_string_length parse_scalar_length)
next
  case (4 f d s)
  then show ?case
    by (fastforce split: option.splits Option.bind_splits dest!: expect_length parse_string_length)
next
  case (6 f d s)
  then show ?case
    by (fastforce split: option.splits Option.bind_splits dest!: expect_length parse_string_length)
qed simp_all

lemma bind_same: "(\<And>x. m = Some x \<Longrightarrow> f x = g x) \<Longrightarrow> Option.bind m f = Option.bind m g"
  by (cases m) auto

lemma parse_fuel:
  "2 * length s + 1 \<le> f \<Longrightarrow> f \<le> g \<Longrightarrow> parse_value g d s = parse_value f d s"
  "2 * length s + 2 \<le> f \<Longrightarrow> f \<le> g \<Longrightarrow> parse_members g d s = parse_members f d s"
  "2 * length s + 2 \<le> f \<Longrightarrow> f \<le> g \<Longrightarrow> parse_elements g d s = parse_elements f d s"
proof (induction f d s and f d s and f d s arbitrary: g and g and g
    rule: parse_value_parse_members_parse_elements.induct)
  case (2 f d s)
  obtain h where g: "g = Suc h" "f \<le> h" using 2(3,4) by (cases g) auto
  show ?case
  proof (cases "skip_ws s")
    case (Cons c cs)
    then have "2 * length cs + 2 \<le> f" using 2(3) skip_ws_length [of s] by simp
    then have f: "2 * length cs + 2 \<le> f" .
    have m: "parse_members h (Suc d) cs = parse_members f (Suc d) cs"
      if "c = 123" "\<not> maxNestingDepth \<le> d" "expect 125 cs = None"
      by (rule 2(1)) (use that Cons f g in simp_all)
    have e: "parse_elements h (Suc d) cs = parse_elements f (Suc d) cs"
      if "c = 91" "\<not> maxNestingDepth \<le> d" "expect 93 cs = None"
      by (rule 2(2)) (use that Cons f g in simp_all)
    from Cons show ?thesis
      by (simp add: g(1) m e split: option.splits)
  qed (simp add: g)
next
  case (4 f d s)
  obtain h where g: "g = Suc h" "f \<le> h" using 4(3,4) by (cases g) auto
  show ?case
    unfolding g(1) parse_members.simps
  proof (rule bind_same, rule bind_same, clarify, rule bind_same)
    fix s1 k s2 s3
    assume "expect 34 s = Some s1" "parse_string s1 = Some (k, s2)" "expect 58 s2 = Some s3"
    then have s3: "length s3 < length s" by (auto dest!: expect_length parse_string_length)
    note s = \<open>expect 34 s = Some s1\<close> \<open>parse_string s1 = Some (k, s2)\<close> \<open>expect 58 s2 = Some s3\<close>
    have v: "parse_value h d s3 = parse_value f d s3"
      by (rule 4(1) [OF s(1) s(2) refl s(3)]) (use s3 g 4(3) in simp_all)
    have m: "parse_members h d s5 = parse_members f d s5"
      if "parse_value f d s3 = Some (v, s4)" "expect 44 s4 = Some s5" for v s4 s5
    proof -
      have "length s5 < length s"
        using s3 that by (auto dest!: expect_length parse_length)
      then show ?thesis
        by (intro 4(2) [OF s(1) s(2) refl s(3) that(1) refl that(2)]) (use g 4(3) in simp_all)
    qed
    show "parse_value h d s3 \<bind>
        (\<lambda>(v, s). case expect 44 s of
            None \<Rightarrow> expect 125 s \<bind> (\<lambda>r. Some ([(encode_runes k, v)], r))
          | Some s \<Rightarrow> parse_members h d s \<bind> (\<lambda>(kvs, r). Some ((encode_runes k, v) # kvs, r))) =
      parse_value f d s3 \<bind>
        (\<lambda>(v, s). case expect 44 s of
            None \<Rightarrow> expect 125 s \<bind> (\<lambda>r. Some ([(encode_runes k, v)], r))
          | Some s \<Rightarrow> parse_members f d s \<bind> (\<lambda>(kvs, r). Some ((encode_runes k, v) # kvs, r)))"
      unfolding v by (rule bind_same) (auto simp: m split: option.splits)
  qed
next
  case (6 f d s)
  obtain h where g: "g = Suc h" "f \<le> h" using 6(3,4) by (cases g) auto
  have v: "parse_value h d s = parse_value f d s" by (intro 6(1)) (use 6(3) g in simp_all)
  show ?case
    unfolding g(1) parse_elements.simps v
  proof (rule bind_same, clarify)
    fix v s1
    assume e: "parse_value f d s = Some (v, s1)"
    have "parse_elements h d s2 = parse_elements f d s2" if "expect 44 s1 = Some s2" for s2
      by (rule 6(2) [OF e refl that])
        (use 6(3) g e that in \<open>auto dest!: expect_length parse_length\<close>)
    then show "(case expect 44 s1 of
            None \<Rightarrow> expect 93 s1 \<bind> (\<lambda>r. Some ([v], r))
          | Some s \<Rightarrow> parse_elements h d s \<bind> (\<lambda>(vs, r). Some (v # vs, r))) =
      (case expect 44 s1 of
            None \<Rightarrow> expect 93 s1 \<bind> (\<lambda>r. Some ([v], r))
          | Some s \<Rightarrow> parse_elements f d s \<bind> (\<lambda>(vs, r). Some (v # vs, r)))"
      by (auto split: option.splits)
  qed
qed simp_all

end
