(* ===== verification/GoQuote.thy ===== *)
theory GoQuote
  imports Utf8
begin

text \<open>
  Go's \<open>%q\<close> (\<open>strconv.Quote\<close>), which the start-up errors of the game server use for file names. Which
  runes outside ASCII are printable is a table of the library, the parameter \<open>isPrint\<close>.
\<close>

definition hexd :: "nat \<Rightarrow> char" where
  "hexd n = char_of (if n < 10 then 48 + n else 87 + n)"

fun hex_digits :: "nat \<Rightarrow> nat \<Rightarrow> gostring" where
  "hex_digits 0 n = ''''"
| "hex_digits (Suc k) n = hex_digits k (n div 16) @ [hexd (n mod 16)]"

definition backslash :: char where
  "backslash = CHR 0x5C"

definition quote_rune :: "(rune \<Rightarrow> bool) \<Rightarrow> rune \<times> gostring \<Rightarrow> gostring" where
  "quote_rune isPrint seg =
     (case seg of (r, bs) \<Rightarrow>
        if r = rune_error \<and> length bs = 1 then [backslash, CHR ''x''] @ hex_digits 2 (of_char (hd bs))
        else if r = 34 \<or> r = 92 then [backslash, char_of r]
        else if (if r < 128 then 32 \<le> r \<and> r < 127 else isPrint r) then encode_rune r
        else if r = 7 then [backslash, CHR ''a''] else if r = 8 then [backslash, CHR ''b'']
        else if r = 12 then [backslash, CHR ''f''] else if r = 10 then [backslash, CHR ''n'']
        else if r = 13 then [backslash, CHR ''r''] else if r = 9 then [backslash, CHR ''t'']
        else if r = 11 then [backslash, CHR ''v'']
        else if r < 32 \<or> r = 127 then [backslash, CHR ''x''] @ hex_digits 2 r
        else if r < 65536 then [backslash, CHR ''u''] @ hex_digits 4 r
        else [backslash, CHR ''U''] @ hex_digits 8 r)"

definition go_quote :: "(rune \<Rightarrow> bool) \<Rightarrow> gostring \<Rightarrow> gostring" where
  "go_quote isPrint s = [CHR 0x22] @ concat (map (quote_rune isPrint) (segments s)) @ [CHR 0x22]"

end
