(* ===== verification/Gemini.thy ===== *)
theory Gemini
  imports Persona Json GoQuote
begin

text \<open>
  The requests to the language model, \<open>app/wl-game-server/gemini.go\<close>: transcription, the answers
  of the question handler and of the peers, and the reading of the response schema. The service
  and its client library are outside the repository: the call \<open>GenerateContent\<close> is the parameter
  \<open>gen\<close> of the operations, from the request to an error or a response (a pointer, possibly nil).
\<close>

section \<open>What the client library exchanges\<close>

datatype schema_type =
  TypeUnspecified | TypeObject | TypeArray | TypeString | TypeNumber | TypeInteger | TypeBoolean

datatype schema = Schema
  (schemaType: schema_type)
  (schemaProperties: "(gostring \<times> schema) list option")
  (schemaItems: "schema option")
  (schemaRequired: "gostring list")

datatype part = PartText gostring | PartBytes bytes gostring

record request =
  reqModel :: gostring
  reqParts :: "part list"
  reqSystem :: "gostring option"
  reqMIMEType :: gostring
  reqSchema :: "schema option"
  reqModalities :: "gostring list"
  reqVoice :: "gostring option"

text \<open>A part of a response has a text, empty when there is none, and possibly inline data.\<close>

record resp_part =
  partText :: gostring
  partInline :: "bytes option"

text \<open>
  The pointers of a response, each possibly nil: the response, its candidates, their content, and
  the parts of the content.
\<close>

type_synonym content = "resp_part option list"
type_synonym candidate = "content option"
type_synonym response = "candidate option list"
type_synonym genai = "request \<Rightarrow> gostring + response option"

definition nil_deref :: gostring where
  "nil_deref = ''runtime error: invalid memory address or nil pointer dereference''"

text \<open>
  \<open>len(resp.Candidates) == 0 || resp.Candidates[0].Content == nil || len(...Parts) == 0\<close>,
  then \<open>resp.Candidates[0].Content.Parts[0]\<close>; a nil pointer on the way panics.
\<close>

definition first_part :: "gostring \<Rightarrow> response \<Rightarrow> resp_part go" where
  "first_part msg cs =
     (case cs of
        [] \<Rightarrow> Error msg
      | None # _ \<Rightarrow> Panic nil_deref
      | Some None # _ \<Rightarrow> Error msg
      | Some (Some []) # _ \<Rightarrow> Error msg
      | Some (Some (None # _)) # _ \<Rightarrow> Panic nil_deref
      | Some (Some (Some p # _)) # _ \<Rightarrow> Return p)"

section \<open>The processor\<close>

record GeminiConfig =
  APIKey :: gostring
  TranscribeModel :: gostring
  ReasoningModel :: gostring
  TTSModel :: gostring
  TranscribePromptFile :: gostring
  TranscribeSchemaFile :: gostring

record GeminiProcessor =
  procCfg :: GeminiConfig
  transcribePrompt :: gostring
  transcribeSchema :: schema

record TranscriptionItem =
  receiver :: gostring
  sender :: gostring
  message :: gostring

record TranscriptionResult =
  Items :: "TranscriptionItem slice"

definition zero_item :: TranscriptionItem where
  "zero_item = \<lparr>receiver = '''', sender = '''', message = ''''\<rparr>"

definition empty_slice :: "'a slice" where
  "empty_slice = \<lparr>backing = [], slen = 0\<rparr>"

definition store_item :: "gostring \<Rightarrow> json \<Rightarrow> TranscriptionItem \<Rightarrow> TranscriptionItem \<times> bool" where
  "store_item k v i =
     (if field_matches ''receiver'' k then
        (case store_string v (receiver i) of (s, ok) \<Rightarrow> (i\<lparr>receiver := s\<rparr>, ok))
      else if field_matches ''sender'' k then
        (case store_string v (sender i) of (s, ok) \<Rightarrow> (i\<lparr>sender := s\<rparr>, ok))
      else if field_matches ''message'' k then
        (case store_string v (message i) of (s, ok) \<Rightarrow> (i\<lparr>message := s\<rparr>, ok))
      else (i, True))"

definition store_result :: "gostring \<Rightarrow> json \<Rightarrow> TranscriptionResult \<Rightarrow> TranscriptionResult \<times> bool" where
  "store_result k v t =
     (if field_matches ''item'' k then
        (case store_slice (store_struct store_item) zero_item v (Items t) of
           (s, ok) \<Rightarrow> (t\<lparr>Items := s\<rparr>, ok))
      else (t, True))"

text \<open>
  The details of the JSON library's error are left out of the message.
\<close>

definition transcribe_request :: "GeminiProcessor \<Rightarrow> bytes \<Rightarrow> request" where
  "transcribe_request p oggData =
     \<lparr>reqModel = TranscribeModel (procCfg p),
      reqParts = [PartText (transcribePrompt p), PartBytes oggData ''audio/ogg''],
      reqSystem = None, reqMIMEType = ''application/json'',
      reqSchema = Some (transcribeSchema p), reqModalities = [], reqVoice = None\<rparr>"

definition Transcribe :: "genai \<Rightarrow> GeminiProcessor \<Rightarrow> bytes \<Rightarrow> TranscriptionResult go" where
  "Transcribe gen p oggData =
     (case gen (transcribe_request p oggData) of
        Inl err \<Rightarrow> Error (''GenerateContent: '' @ err)
      | Inr None \<Rightarrow> Error ''empty response from Gemini''
      | Inr (Some resp) \<Rightarrow>
          go_bind (first_part ''empty response from Gemini'' resp) (\<lambda>part.
            let text = partText part
            in if text = '''' then Error ''empty response from Gemini''
               else case unmarshal store_result text \<lparr>Items = empty_slice\<rparr> of
                      (result, ok) \<Rightarrow>
                        if ok then Return result else Error ''json.Unmarshal''))"

definition Reason :: "TranscriptionResult \<Rightarrow> gostring go" where
  "Reason t = Return ''OK''"

definition askSystemPromptTemplate_0 :: gostring where
  "askSystemPromptTemplate_0 =
     encode_runes [12354, 12394, 12383, 12399, 12450, 12510, 12481, 12517, 12450, 28961,
     32218, 12398, 12458, 12506, 12524, 12540, 12479, 12540, 12391, 12377, 12290, 12354,
     12394, 12383, 12398, 12467, 12540, 12523, 12469, 12452, 12531, 12399]"

definition askSystemPromptTemplate_1 :: gostring where
  "askSystemPromptTemplate_1 =
     encode_runes [12391, 12377, 12290, 10, 30456, 25163, 12398, 12467, 12540, 12523,
     12469, 12452, 12531]"

definition askSystemPromptTemplate_2 :: gostring where
  "askSystemPromptTemplate_2 =
     encode_runes [12363, 12425, 36074, 21839, 12434, 21463, 12369, 12390, 12356, 12414,
     12377, 12290, 10, 20197, 19979, 12398, 12523, 12540, 12523, 12395, 24517, 12378,
     24467, 12387, 12390, 12367, 12384, 12373, 12356] @ '':'' @ [newline] @ ''- '' @
     encode_runes [22238, 31572, 12399, 26085, 26412, 35486, 12391, 12289, 35201, 28857,
     12398, 12415, 12434] @ ''1'' @ encode_runes [25991, 12391, 36848, 12409, 12390, 12367,
     12384, 12373, 12356, 10] @ ''- '' @ encode_runes [26368, 22823] @ ''60'' @
     encode_runes [25991, 23383, 31243, 24230, 12395, 21454, 12417, 12390, 12367, 12384,
     12373, 12356, 65288, 12501, 12457, 12540, 12510, 12483, 12488, 37096, 20998, 12434,
     38500, 12367, 65289, 10] @ ''- '' @ encode_runes [12510, 12540, 12463, 12480, 12454,
     12531, 35352, 27861, 12420, 31623, 26465, 26360, 12365, 12399, 20351, 12431, 12378,
     12289, 12503, 12524, 12540, 12531, 12486, 12461, 12473, 12488, 12391, 22238, 31572,
     12375, 12390, 12367, 12384, 12373, 12356, 10] @ ''- '' @ encode_runes [28961, 32218,
     20132, 20449, 12425, 12375, 12356, 21475, 35519, 12391, 35441, 12375, 12390, 12367,
     12384, 12373, 12356, 10] @ ''- '' @ encode_runes [12467, 12540, 12523, 12469, 12452,
     12531, 12399, 38899, 22768, 12391, 35501, 12415, 19978, 12370, 12425, 12428, 12427,
     12383, 12417, 12289] @ ''1'' @ encode_runes [25991, 23383, 12378, 12388, 26085, 26412,
     35486, 12398, 12459, 12479, 12459, 12490, 35501, 12415, 12395, 22793, 25563, 12375,
     12390, 20986, 21147, 12375, 12390, 12367, 12384, 12373, 12356, 10] @ ''  - '' @
     encode_runes [25968, 23383, 12399, 12300, 12476, 12525] @ '' '' @ encode_runes [12452,
     12481] @ '' '' @ encode_runes [12491, 12540] @ '' '' @ encode_runes [12469, 12531] @
     '' '' @ encode_runes [12520, 12531] @ '' '' @ encode_runes [12468, 12540] @ '' '' @
     encode_runes [12525, 12463] @ '' '' @ encode_runes [12490, 12490] @ '' '' @
     encode_runes [12495, 12481] @ '' '' @ encode_runes [12461, 12517, 12540, 12301, 10] @
     ''  - '' @ encode_runes [12450, 12523, 12501, 12449, 12505, 12483, 12488, 12399,
     12300, 12456, 12540] @ '' '' @ encode_runes [12499, 12540] @ '' '' @ encode_runes
     [12471, 12540] @ '' '' @ encode_runes [12487, 12451, 12540] @ '' '' @ encode_runes
     [12452, 12540] @ '' '' @ encode_runes [12456, 12501] @ '' '' @ encode_runes [12472,
     12540] @ '' '' @ encode_runes [12456, 12452, 12481] @ '' '' @ encode_runes [12450,
     12452] @ '' '' @ encode_runes [12472, 12455, 12452] @ '' '' @ encode_runes [12465,
     12540] @ '' '' @ encode_runes [12456, 12523] @ '' '' @ encode_runes [12456, 12512] @
     '' '' @ encode_runes [12456, 12492] @ '' '' @ encode_runes [12458, 12540] @ '' '' @
     encode_runes [12500, 12540] @ '' '' @ encode_runes [12461, 12517, 12540] @ '' '' @
     encode_runes [12450, 12540, 12523] @ '' '' @ encode_runes [12456, 12473] @ '' '' @
     encode_runes [12486, 12451, 12540] @ '' '' @ encode_runes [12518, 12540] @ '' '' @
     encode_runes [12502, 12452] @ '' '' @ encode_runes [12480, 12502, 12522, 12517, 12540]
     @ '' '' @ encode_runes [12456, 12483, 12463, 12473] @ '' '' @ encode_runes [12527,
     12452] @ '' '' @ encode_runes [12476, 12483, 12488, 12301, 10] @ ''  - '' @
     encode_runes [21508, 35501, 12415, 12398, 21306, 20999, 12426, 12395, 12399, 21322,
     35282, 12473, 12506, 12540, 12473, 12434, 20837, 12428, 12390, 12367, 12384, 12373,
     12356, 10] @ ''  - '' @ encode_runes [20363] @ '': S4CQ '' @ encode_runes [8594] @
     '' '' @ encode_runes [12300, 12456, 12473] @ '' '' @ encode_runes [12520, 12531] @
     '' '' @ encode_runes [12471, 12540] @ '' '' @ encode_runes [12461, 12517, 12540,
     12301, 12289] @ ''S4AK '' @ encode_runes [8594] @ '' '' @ encode_runes [12300, 12456,
     12473] @ '' '' @ encode_runes [12520, 12531] @ '' '' @ encode_runes [12456, 12540] @
     '' '' @ encode_runes [12465, 12540, 12301, 10] @ ''- '' @ encode_runes [20197, 19979,
     12398, 12501, 12457, 12540, 12510, 12483, 12488, 12434, 23432, 12387, 12390, 12367,
     12384, 12373, 12356, 65288, 12467, 12540, 12523, 12469, 12452, 12531, 37096, 20998,
     12399, 19978, 35352, 12398, 35501, 12415, 22793, 25563, 12434, 36969, 29992, 12377,
     12427, 12371, 12392, 65289, 10] @ ''  - <'' @ encode_runes [30456, 25163, 12467,
     12540, 12523, 12469, 12452, 12531, 12398, 35501, 12415] @ ''>'' @ encode_runes [12290,
     12371, 12385, 12425] @ ''<'' @ encode_runes [33258, 20998, 12467, 12540, 12523, 12469,
     12452, 12531, 12398, 35501, 12415] @ ''>'' @ encode_runes [12290] @ '' <'' @
     encode_runes [22238, 31572, 20869, 23481] @ ''>'' @ encode_runes [12290] @ '' '' @
     encode_runes [12393, 12358, 12382, 12290]"

definition askSystemPromptTemplate :: gostring where
  "askSystemPromptTemplate = askSystemPromptTemplate_0 @ ''%s'' @ askSystemPromptTemplate_1 @ ''%s'' @ askSystemPromptTemplate_2"

text \<open>A request of one user text with a system instruction, and the text of its answer.\<close>

definition text_request :: "gostring \<Rightarrow> gostring \<Rightarrow> gostring \<Rightarrow> request" where
  "text_request model system prompt =
     \<lparr>reqModel = model, reqParts = [PartText prompt], reqSystem = Some system, reqMIMEType = '''',
      reqSchema = None, reqModalities = [], reqVoice = None\<rparr>"

definition text_answer :: "gostring \<Rightarrow> gostring + response option \<Rightarrow> gostring go" where
  "text_answer name reply =
     (case reply of
        Inl err \<Rightarrow> Error (''GenerateContent ('' @ name @ ''): '' @ err)
      | Inr None \<Rightarrow> Error (''empty response from Gemini '' @ name)
      | Inr (Some resp) \<Rightarrow>
          go_bind (first_part (''empty response from Gemini '' @ name) resp) (\<lambda>part.
            if partText part = '''' then Error (''empty text from Gemini '' @ name)
            else Return (partText part)))"

definition Ask ::
  "genai \<Rightarrow> GeminiProcessor \<Rightarrow> gostring \<Rightarrow> gostring \<Rightarrow> gostring \<Rightarrow> gostring go" where
  "Ask gen p sndr rcv question =
     (let systemPrompt = sprintf askSystemPromptTemplate [rcv, sndr]
      in text_answer ''Ask'' (gen (text_request (TranscribeModel (procCfg p)) systemPrompt question)))"

definition generateReplyPromptTemplate_0 :: gostring where
  "generateReplyPromptTemplate_0 =
     encode_runes [20197, 19979, 12399, 28961, 32218, 20132, 20449, 12398, 12525, 12464,
     12391, 12377, 12290, 12354, 12394, 12383, 12398, 12467, 12540, 12523, 12469, 12452,
     12531, 12399]"

definition generateReplyPromptTemplate_1 :: gostring where
  "generateReplyPromptTemplate_1 =
     encode_runes [12391, 12377, 12290, 10, 21508, 34892, 12399, 12300] @ ''['' @
     encode_runes [30330, 35328, 32773] @ ''] -> ['' @ encode_runes [23550, 35937] @ ''] ''
     @ encode_runes [12513, 12483, 12475, 12540, 12472, 20869, 23481, 12301, 12398, 24418,
     24335, 12391, 12377, 12290, 10] @ ''--- '' @ encode_runes [12371, 12428, 12414, 12391,
     12398, 20132, 20449] @ '' ---'' @ [newline]"

definition generateReplyPromptTemplate_2 :: gostring where
  "generateReplyPromptTemplate_2 =
     [newline] @ ''--- '' @ encode_runes [12371, 12371, 12414, 12391] @ '' ---'' @
     encode_runes [10, 30452, 21069, 12398, 12354, 12394, 12383, 23451, 12398, 12513,
     12483, 12475, 12540, 12472, 12395, 23550, 12375, 12289]"

definition generateReplyPromptTemplate_3 :: gostring where
  "generateReplyPromptTemplate_3 =
     '' '' @ encode_runes [12392, 12375, 12390, 27425, 12398] @ ''1'' @ encode_runes
     [20132, 20449, 12434, 36820, 12375, 12390, 12367, 12384, 12373, 12356, 12290]"

definition generateReplyPromptTemplate :: gostring where
  "generateReplyPromptTemplate = generateReplyPromptTemplate_0 @ ''%s'' @ generateReplyPromptTemplate_1 @ ''%s'' @ generateReplyPromptTemplate_2 @ ''%s'' @ generateReplyPromptTemplate_3"

definition GenerateReply ::
  "genai \<Rightarrow> GeminiProcessor \<Rightarrow> Persona \<Rightarrow> gostring \<Rightarrow> gostring \<Rightarrow> gostring go" where
  "GenerateReply gen p persona selfCallsign history =
     (let systemPrompt = SystemInstruction persona selfCallsign;
          prompt = sprintf generateReplyPromptTemplate [selfCallsign, history, selfCallsign]
      in text_answer ''GenerateReply''
           (gen (text_request (ReasoningModel (procCfg p)) systemPrompt prompt)))"

section \<open>The schema\<close>

text \<open>
  \<open>raw[k]\<close> of the map an object is decoded into: the last member of that name. Ranging over a map
  visits each key once, in any order; here in the order of the last occurrences. \<open>convertSchema\<close>
  has no failing path of its own, so the errors of its recursive calls are nil and it is a total
  function.
\<close>

fun raw_get :: "(gostring \<times> 'a) list \<Rightarrow> gostring \<Rightarrow> 'a option" where
  "raw_get [] k = None"
| "raw_get ((k', v) # kvs) k =
     (case raw_get kvs k of Some w \<Rightarrow> Some w | None \<Rightarrow> if k' = k then Some v else None)"

definition schema_type_of :: "json option \<Rightarrow> schema_type" where
  "schema_type_of t =
     (case t of
        Some (JString s) \<Rightarrow>
          if s = ''object'' then TypeObject else if s = ''array'' then TypeArray
          else if s = ''string'' then TypeString else if s = ''number'' then TypeNumber
          else if s = ''integer'' then TypeInteger else if s = ''boolean'' then TypeBoolean
          else TypeUnspecified
      | _ \<Rightarrow> TypeUnspecified)"

definition required_of :: "json option \<Rightarrow> gostring list" where
  "required_of r =
     (case r of
        Some (JArray rs) \<Rightarrow> concat (map (\<lambda>x. case x of JString s \<Rightarrow> [s] | _ \<Rightarrow> []) rs)
      | _ \<Rightarrow> [])"

fun last_members :: "(gostring \<times> 'a) list \<Rightarrow> (gostring \<times> 'a) list" where
  "last_members [] = []"
| "last_members ((k, v) # kvs) =
     (if k \<in> fst ` set kvs then last_members kvs else (k, v) # last_members kvs)"

lemma last_members_subset: "set (last_members kvs) \<subseteq> set kvs"
  by (induction kvs rule: last_members.induct) auto

lemma raw_get_member: "raw_get kvs k = Some v \<Longrightarrow> (k, v) \<in> set kvs"
  by (induction kvs k rule: raw_get.induct) (auto split: option.splits if_splits)

lemma member_size: "(k, v) \<in> set kvs \<Longrightarrow> size v < size (JObject kvs)"
  by (induction kvs) auto

function convertSchema :: "(gostring \<times> json) list \<Rightarrow> schema" where
  "convertSchema raw =
     Schema (schema_type_of (raw_get raw ''type''))
       (case raw_get raw ''properties'' of
          Some (JObject props) \<Rightarrow>
            Some (concat (map (\<lambda>(k, v). case v of JObject vm \<Rightarrow> [(k, convertSchema vm)] | _ \<Rightarrow> [])
              (last_members props)))
        | _ \<Rightarrow> None)
       (case raw_get raw ''items'' of
          Some (JObject items) \<Rightarrow> Some (convertSchema items)
        | _ \<Rightarrow> None)
       (required_of (raw_get raw ''required''))"
  by pat_completeness auto
termination
proof (relation "measure (\<lambda>raw. size (JObject raw))")
  fix raw :: "(gostring \<times> json) list" and v props x k w vm
  assume "raw_get raw ''properties'' = Some v" "v = JObject props" "x \<in> set (last_members props)"
    "(k, w) = x" "w = JObject vm"
  then have "(''properties'', JObject props) \<in> set raw" "(k, JObject vm) \<in> set props"
    using raw_get_member [of raw "''properties''" v] last_members_subset [of props] by auto
  from this [THEN member_size] show "(vm, raw) \<in> measure (\<lambda>raw. size (JObject raw))" by simp
next
  fix raw :: "(gostring \<times> json) list" and v items
  assume "raw_get raw ''items'' = Some v" "v = JObject items"
  then have "(''items'', JObject items) \<in> set raw"
    using raw_get_member [of raw "''items''" v] by simp
  from member_size [OF this] show "(items, raw) \<in> measure (\<lambda>raw. size (JObject raw))" by simp
qed simp

declare convertSchema.simps [simp del]

text \<open>Unmarshalling into a map takes an object, or \<open>null\<close>, which leaves the nil map.\<close>

definition parseSchema :: "gostring \<Rightarrow> schema go" where
  "parseSchema data =
     (case parse_json data of
        Some (JObject raw) \<Rightarrow> Return (convertSchema raw)
      | Some JNull \<Rightarrow> Return (convertSchema [])
      | _ \<Rightarrow> Error ''json.Unmarshal'')"

text \<open>
  \<open>NewGeminiProcessor\<close>: the outcome of \<open>genai.NewClient\<close>, then the two files, of which the second must
  parse.
\<close>

definition NewGeminiProcessor ::
  "gostring option \<Rightarrow> (gostring \<Rightarrow> gostring + gostring) \<Rightarrow> (rune \<Rightarrow> bool) \<Rightarrow> GeminiConfig \<Rightarrow> GeminiProcessor go" where
  "NewGeminiProcessor clientErr readFile isPrint cfg =
     (case clientErr of
        Some e \<Rightarrow> Error (''genai.NewClient: '' @ e)
      | None \<Rightarrow>
     (case readFile (TranscribePromptFile cfg) of
        Inl e \<Rightarrow> Error (''read prompt file '' @ go_quote isPrint (TranscribePromptFile cfg) @ '': '' @ e)
      | Inr prompt \<Rightarrow>
     (case readFile (TranscribeSchemaFile cfg) of
        Inl e \<Rightarrow> Error (''read schema file '' @ go_quote isPrint (TranscribeSchemaFile cfg) @ '': '' @ e)
      | Inr schemaBytes \<Rightarrow>
          go_bind (go_wrap ''parse schema'' (parseSchema schemaBytes)) (\<lambda>schema.
            Return \<lparr>procCfg = cfg, transcribePrompt = prompt, transcribeSchema = schema\<rparr>))))"

text \<open>The content of \<open>transcribe_schema.json\<close>.\<close>

definition string_schema_json :: json where
  "string_schema_json = JObject [(''type'', JString ''string'')]"

definition item_fields :: "gostring list" where
  "item_fields = [''receiver'', ''sender'', ''message'']"

definition transcribe_schema_json :: json where
  "transcribe_schema_json =
     JObject [(''type'', JString ''object''),
       (''properties'', JObject [(''item'',
          JObject [(''type'', JString ''array''),
            (''items'', JObject [(''type'', JString ''object''),
               (''properties'', JObject (map (\<lambda>f. (f, string_schema_json)) item_fields)),
               (''propertyOrdering'', JArray (map JString item_fields)),
               (''required'', JArray (map JString item_fields))])])]),
       (''propertyOrdering'', JArray [JString ''item''])]"

section \<open>Field names\<close>

lemma runes_ascii: "\<forall>c \<in> set s. byte_of c < 128 \<Longrightarrow> runes s = map of_char s"
proof -
  assume a: "\<forall>c \<in> set s. byte_of c < 128"
  then have "encode_runes (map of_char s) = s"
    by (induction s) (simp_all add: encode_runes_def encode_rune_def)
  with a runes_encode_runes [of "map of_char s"] show ?thesis by (simp add: ascii_valid)
qed

lemma valid_utf8_ascii: "\<forall>c \<in> set s. byte_of c < 128 \<Longrightarrow> valid_utf8 s"
proof -
  assume a: "\<forall>c \<in> set s. byte_of c < 128"
  then have "encode_runes (map of_char s) = s"
    by (induction s) (simp_all add: encode_runes_def encode_rune_def)
  with a show ?thesis by (simp add: valid_utf8_def runes_ascii)
qed

lemmas field_names = field_matches_def runes_ascii fold_rune_def between_def

section \<open>Reading a transcription\<close>

definition item_json :: "TranscriptionItem \<Rightarrow> json" where
  "item_json i = JObject [(''receiver'', JString (receiver i)), (''sender'', JString (sender i)),
     (''message'', JString (message i))]"

definition result_json :: "TranscriptionItem list \<Rightarrow> json" where
  "result_json its = JObject [(''item'', JArray (map item_json its))]"

definition valid_item :: "TranscriptionItem \<Rightarrow> bool" where
  "valid_item i \<longleftrightarrow> valid_utf8 (receiver i) \<and> valid_utf8 (sender i) \<and> valid_utf8 (message i)"

lemma result_json_read:
  assumes "\<forall>i \<in> set its. valid_item i"
  shows "parse_json (marshal (result_json its)) = Some (result_json its)"
proof -
  have "nested 3 (result_json its)"
    by (simp add: result_json_def item_json_def list_all_iff numeral_eq_Suc)
  then have "nested maxNestingDepth (result_json its)"
    by (rule nested_mono) (simp add: maxNestingDepth_def)
  moreover have "no_numbers (result_json its)"
    by (simp add: result_json_def item_json_def list_all_iff)
  moreover have "sanitized (result_json its) = result_json its"
    using assms by (simp add: result_json_def item_json_def valid_item_def valid_utf8_ascii)
  ultimately show ?thesis by (simp add: parse_marshal)
qed

lemma store_item_json: "store_struct store_item (item_json i) x = (i, True)"
  by (simp add: item_json_def store_item_def field_names)

lemma store_items: "store_elements (store_struct store_item) z (map item_json its) [] = (its, True)"
  by (induction its) (simp_all add: store_item_json)

lemma result_json_stored:
  "store_struct store_result (result_json its) \<lparr>Items = empty_slice\<rparr> = (t, ok) \<Longrightarrow>
   ok \<and> slice_elems (Items t) = its"
  by (auto simp: result_json_def store_result_def field_names empty_slice_def slice_elems_def
      store_items split: if_splits)

lemma ask_template:
  "CHR ''%'' \<notin> set askSystemPromptTemplate_0" "CHR ''%'' \<notin> set askSystemPromptTemplate_1"
  "CHR ''%'' \<notin> set askSystemPromptTemplate_2"
  by (simp_all add: askSystemPromptTemplate_0_def askSystemPromptTemplate_1_def
      askSystemPromptTemplate_2_def newline_def)

lemma reply_template:
  "CHR ''%'' \<notin> set generateReplyPromptTemplate_0" "CHR ''%'' \<notin> set generateReplyPromptTemplate_1"
  "CHR ''%'' \<notin> set generateReplyPromptTemplate_2" "CHR ''%'' \<notin> set generateReplyPromptTemplate_3"
  by (simp_all add: generateReplyPromptTemplate_0_def generateReplyPromptTemplate_1_def
      generateReplyPromptTemplate_2_def generateReplyPromptTemplate_3_def newline_def)

definition text_reply :: "gostring \<Rightarrow> gostring + response option" where
  "text_reply t = Inr (Some [Some (Some [Some \<lparr>partText = t, partInline = None\<rparr>])])"

lemma transcribe_reads:
  assumes "gen (transcribe_request p ogg) = text_reply (marshal (result_json its))"
    and "\<forall>i \<in> set its. valid_item i"
  shows "\<exists>t. Transcribe gen p ogg = Return t \<and> slice_elems (Items t) = its"
proof -
  let ?text = "marshal (result_json its)"
  obtain t ok where s: "store_struct store_result (result_json its) \<lparr>Items = empty_slice\<rparr> = (t, ok)"
    by (cases "store_struct store_result (result_json its) \<lparr>Items = empty_slice\<rparr>")
  have "?text \<noteq> ''''" using result_json_read [OF assms(2)] by (auto simp: parse_json_def skip_ws_def)
  then have "Transcribe gen p ogg = Return t"
    using result_json_stored [OF s] s result_json_read [OF assms(2)]
    by (simp add: Transcribe_def assms(1) text_reply_def first_part_def unmarshal_def)
  with result_json_stored [OF s] show ?thesis by simp
qed

section \<open>Properties\<close>

text \<open>
  C38. When the service answers a transcription request with the JSON text of a list of items, the
  handler gets exactly these items, in order, with their receivers, senders and messages: the
  field names of the struct, of the schema and the reading of the text agree.
\<close>

theorem transcription_read:
  assumes "gen (transcribe_request p ogg) = text_reply (marshal (result_json its))"
    and "\<forall>i \<in> set its. valid_item i"
  shows "\<exists>t. Transcribe gen p ogg = Return t \<and> slice_elems (Items t) = its"
  using assms by (rule transcribe_reads)

definition demo_processor :: GeminiProcessor where
  "demo_processor = \<lparr>procCfg = \<lparr>APIKey = ''k'', TranscribeModel = ''m'', ReasoningModel = ''r'',
     TTSModel = '''', TranscribePromptFile = ''p'', TranscribeSchemaFile = ''s''\<rparr>,
     transcribePrompt = ''transcribe'',
     transcribeSchema = convertSchema []\<rparr>"

definition demo_items :: "TranscriptionItem list" where
  "demo_items = [\<lparr>receiver = ''S4CQ'', sender = ''S4AB'', message = ''hi''\<rparr>,
     \<lparr>receiver = ''S4CE'', sender = '''', message = ''''\<rparr>]"

theorem transcription_read_witness:
  "\<exists>t. Transcribe (\<lambda>req. text_reply (marshal (result_json demo_items))) demo_processor [1] = Return t
     \<and> slice_elems (Items t) = demo_items"
  by (rule transcription_read) (simp_all add: demo_items_def valid_item_def valid_utf8_ascii)

text \<open>
  The schema sent with a transcription request, read from the schema file, is an object whose
  one property is an array of objects with the three string properties the code decodes, all of
  them required. (The property order the file asks for is not passed on.)
\<close>

theorem transcribe_schema_converted:
  "(case transcribe_schema_json of JObject raw \<Rightarrow> convertSchema raw | _ \<Rightarrow> convertSchema []) =
     Schema TypeObject
       (Some [(''item'', Schema TypeArray None
          (Some (Schema TypeObject
             (Some (map (\<lambda>f. (f, Schema TypeString None None [])) item_fields)) None item_fields))
          [])])
       None []"
  by (simp add: transcribe_schema_json_def string_schema_json_def item_fields_def convertSchema.simps
      schema_type_of_def required_of_def)

text \<open>
  The question handler's system prompt is the template with the receiver's callsign as the
  operator's own and the sender's as the caller's, and the question is the only user text.
\<close>

theorem ask_prompt:
  "Ask gen p sndr rcv question = text_answer ''Ask'' (gen
     \<lparr>reqModel = TranscribeModel (procCfg p), reqParts = [PartText question],
      reqSystem = Some (askSystemPromptTemplate_0 @ rcv @ askSystemPromptTemplate_1 @ sndr
        @ askSystemPromptTemplate_2),
      reqMIMEType = '''', reqSchema = None, reqModalities = [], reqVoice = None\<rparr>)"
  by (simp add: Ask_def text_request_def askSystemPromptTemplate_def sprintf_plain sprintf_text
      ask_template)

text \<open>
  A peer's prompt holds the whole history between the two markers and its own callsign in both
  places; percent signs in the history start no verb. Whatever the response, the answer is the
  text of its first part, never empty, or an error, or a panic on a nil part.
\<close>

theorem reply_prompt:
  "GenerateReply gen p persona self history = text_answer ''GenerateReply'' (gen
     \<lparr>reqModel = ReasoningModel (procCfg p),
      reqParts = [PartText (generateReplyPromptTemplate_0 @ self @ generateReplyPromptTemplate_1
        @ history @ generateReplyPromptTemplate_2 @ self @ generateReplyPromptTemplate_3)],
      reqSystem = Some (SystemInstruction persona self), reqMIMEType = '''', reqSchema = None,
      reqModalities = [], reqVoice = None\<rparr>) \<and>
   (text_answer ''GenerateReply'' r = Return t \<longleftrightarrow>
      t \<noteq> '''' \<and> (\<exists>part parts cands. r = Inr (Some (Some (Some (Some part # parts)) # cands)) \<and> partText part = t))"
proof
  show "text_answer ''GenerateReply'' r = Return t \<longleftrightarrow>
      t \<noteq> '''' \<and> (\<exists>part parts cands. r = Inr (Some (Some (Some (Some part # parts)) # cands)) \<and> partText part = t)"
    by (auto simp: text_answer_def first_part_def go_bind_Return_iff
        split: sum.splits option.splits list.splits if_splits)
qed (simp add: GenerateReply_def text_request_def generateReplyPromptTemplate_def sprintf_plain
    sprintf_text reply_template)

end
