(* ===== verification/TtsStream.thy ===== *)
theory TtsStream
  imports Proto
begin

text \<open>
  Streaming a chunked answer to the radio bridge: \<open>app/wl-game-server/outgoing.go\<close> and
  \<open>app/wl-game-server/tts_stream.go\<close>.

  Every chunk's speech is generated by a goroutine of its own, which puts its one result in a
  channel of capacity one. The main loop takes the results in index order and sends each
  successful one at once; to choose a packet's status it polls later channels without
  blocking. What the scheduler and the context decide is an explicit argument, a \<open>sched\<close>:
  which polls find a result, and which of the two-way selects take \<open>ctx.Done()\<close>.
\<close>

section \<open>Packets\<close>

record outgoingAudio =
  Data :: bytes
  Status :: StreamStatus
  StreamID :: gostring

definition oneshot :: "bytes \<Rightarrow> outgoingAudio" where
  "oneshot d = \<lparr>Data = d, Status = ONESHOT, StreamID = ''''\<rparr>"

section \<open>Parallel generation\<close>

record ttsChunkResult =
  ogg :: bytes
  err :: "gostring option"

text \<open>
  The goroutine of one chunk: generate PCM, then encode it. \<open>gen\<close> is
  \<open>GeneratePCM24kFromPrompt\<close> and \<open>enc\<close> is \<open>encodePCMToOggOpus\<close>, each with its Go result
  of a value or an error; \<open>gen\<close> gets the index because two calls with one prompt may differ.
\<close>

definition chunk_goroutine ::
  "(nat \<Rightarrow> gostring \<Rightarrow> gostring + 'pcm) \<Rightarrow> ('pcm \<Rightarrow> gostring + bytes) \<Rightarrow> nat \<Rightarrow> gostring
     \<Rightarrow> ttsChunkResult" where
  "chunk_goroutine gen enc idx ttsPrompt =
     (case gen idx ttsPrompt of
        Inl e \<Rightarrow> \<lparr>ogg = [], err = Some e\<rparr>
      | Inr pcm \<Rightarrow>
          (case enc pcm of
             Inl e \<Rightarrow> \<lparr>ogg = [], err = Some e\<rparr>
           | Inr d \<Rightarrow> \<lparr>ogg = d, err = None\<rparr>))"

definition generateChunksParallel ::
  "(nat \<Rightarrow> gostring \<Rightarrow> gostring + 'pcm) \<Rightarrow> ('pcm \<Rightarrow> gostring + bytes) \<Rightarrow> gostring list
     \<Rightarrow> ttsChunkResult list" where
  "generateChunksParallel gen enc prompts =
     map (\<lambda>(i, p). chunk_goroutine gen enc i p) (enumerate 0 prompts)"

section \<open>The sending loop\<close>

text \<open>
  \<open>ready i j\<close>: when the look-ahead of chunk \<open>i\<close> polls the channel of chunk \<open>j\<close>, its result is
  there. \<open>cancel_get i\<close>, \<open>cancel_send i\<close>: the select that waits for chunk \<open>i\<close>'s result, or
  sends chunk \<open>i\<close>, takes the \<open>ctx.Done()\<close> branch.
\<close>

record sched =
  ready :: "nat \<Rightarrow> nat \<Rightarrow> bool"
  cancel_get :: "nat \<Rightarrow> bool"
  cancel_send :: "nat \<Rightarrow> bool"

text \<open>
  \<open>cached\<close> and \<open>sentCount\<close> are the code's variables; \<open>taken\<close> are the channels that have been
  received from (they stay empty afterwards) and \<open>sent\<close> the packets put on \<open>sendCh\<close>.
\<close>

record tts_state =
  cached :: "ttsChunkResult option list"
  taken :: "nat set"
  sentCount :: nat
  sent :: "outgoingAudio list"

datatype got = Got ttsChunkResult | GotCancelled | GotNothing | GotPanic

text \<open>
  \<open>getResult\<close>. \<open>GotNothing\<close> is the case the code must avoid: waiting on a channel whose only
  value has been received already, which ends only when the context does. \<open>GotPanic\<close> is an index
  out of range.
\<close>

definition getResult :: "sched \<Rightarrow> ttsChunkResult list \<Rightarrow> nat \<Rightarrow> tts_state \<Rightarrow> got \<times> tts_state" where
  "getResult sc results i st =
     (if \<not> i < length (cached st) then (GotPanic, st)
      else case cached st ! i of
        Some r \<Rightarrow> (Got r, st\<lparr>cached := (cached st)[i := None]\<rparr>)
      | None \<Rightarrow>
          if \<not> i < length results then (GotPanic, st)
          else if cancel_get sc i then (GotCancelled, st)
          else if i \<in> taken st then (GotNothing, st)
          else (Got (results ! i), st\<lparr>taken := insert i (taken st)\<rparr>))"

text \<open>
  The look-ahead loop of chunk \<open>i\<close>, from \<open>j\<close> for at most \<open>k\<close> more chunks: skip cached failures;
  stop at a cached success or at the first channel polled. The result is \<open>hasNext\<close>, or None for an
  index out of range.
\<close>

fun lookAhead ::
  "sched \<Rightarrow> ttsChunkResult list \<Rightarrow> nat \<Rightarrow> nat \<Rightarrow> nat \<Rightarrow> tts_state \<Rightarrow> bool option \<times> tts_state"
where
  "lookAhead sc results i 0 j st = (Some False, st)"
| "lookAhead sc results i (Suc k) j st =
     (if \<not> j < length (cached st) then (None, st)
      else case cached st ! j of
        Some r \<Rightarrow> if err r = None then (Some True, st) else lookAhead sc results i k (Suc j) st
      | None \<Rightarrow>
          if \<not> j < length results then (None, st)
          else if ready sc i j \<and> j \<notin> taken st then
            (Some (err (results ! j) = None),
             st\<lparr>cached := (cached st)[j := Some (results ! j)], taken := insert j (taken st)\<rparr>)
          else (Some True, st))"

definition chunkStatus :: "nat \<Rightarrow> bool \<Rightarrow> StreamStatus" where
  "chunkStatus n hasNext = (if n = 0 then START else if \<not> hasNext then END else CONTINUE)"

datatype stream_end = Finished | CtxErr | Deadlock | OutOfRange

text \<open>
  The loop over the chunks: \<open>k\<close> chunks are left and the next index is \<open>i\<close>. Waiting for room in
  \<open>sendCh\<close> delays a packet and changes nothing that is sent; how long it lasts, and that it may last
  until the context is cancelled, is a matter of who takes from the channel (theory \<open>BridgeConn\<close>).
\<close>

fun stream_loop ::
  "sched \<Rightarrow> gostring \<Rightarrow> ttsChunkResult list \<Rightarrow> nat \<Rightarrow> nat \<Rightarrow> tts_state \<Rightarrow> stream_end \<times> tts_state"
where
  "stream_loop sc sid results 0 i st = (Finished, st)"
| "stream_loop sc sid results (Suc k) i st =
     (case getResult sc results i st of
        (GotPanic, st1) \<Rightarrow> (OutOfRange, st1)
      | (GotCancelled, st1) \<Rightarrow> (CtxErr, st1)
      | (GotNothing, st1) \<Rightarrow> (Deadlock, st1)
      | (Got res, st1) \<Rightarrow>
          if err res \<noteq> None then stream_loop sc sid results k (Suc i) st1
          else
            (case lookAhead sc results i k (Suc i) st1 of
               (None, st2) \<Rightarrow> (OutOfRange, st2)
             | (Some hasNext, st2) \<Rightarrow>
                 let out = \<lparr>Data = ogg res, Status = chunkStatus (sentCount st2) hasNext,
                            StreamID = sid\<rparr>
                 in if cancel_send sc i then (CtxErr, st2)
                    else stream_loop sc sid results k (Suc i)
                           (st2\<lparr>sent := sent st2 @ [out], sentCount := Suc (sentCount st2)\<rparr>)))"

definition init_tts :: "nat \<Rightarrow> tts_state" where
  "init_tts n = \<lparr>cached = replicate n None, taken = {}, sentCount = 0, sent = []\<rparr>"

text \<open>
  \<open>streamTTSChunks\<close>: the packets it puts on \<open>sendCh\<close> and how it returns. \<open>sid\<close> is
  \<open>uuid.NewString()\<close>.
\<close>

definition streamTTSChunks ::
  "sched \<Rightarrow> gostring \<Rightarrow> (nat \<Rightarrow> gostring \<Rightarrow> gostring + 'pcm) \<Rightarrow> ('pcm \<Rightarrow> gostring + bytes)
     \<Rightarrow> gostring list \<Rightarrow> (gostring \<Rightarrow> gostring) \<Rightarrow> stream_end \<times> outgoingAudio list" where
  "streamTTSChunks sc sid gen enc chunks buildPrompt =
     (if length chunks = 0 then (Finished, [])
      else
        (let prompts = map buildPrompt chunks;
             results = generateChunksParallel gen enc prompts;
             n = length prompts
         in case stream_loop sc sid results n 0 (init_tts n) of
              (e, st) \<Rightarrow> (e, sent st)))"

section \<open>The invariant of the loop\<close>

text \<open>
  Before chunk \<open>i\<close>: a later channel has been received from exactly when its result is cached,
  and the cached result is the one the goroutine produced.
\<close>

definition tts_inv :: "ttsChunkResult list \<Rightarrow> nat \<Rightarrow> tts_state \<Rightarrow> bool" where
  "tts_inv results i st \<longleftrightarrow>
     length (cached st) = length results \<and> sentCount st = length (sent st) \<and>
     (\<forall>j. i \<le> j \<and> j < length results \<longrightarrow>
        (j \<in> taken st \<longleftrightarrow> cached st ! j \<noteq> None) \<and>
        (cached st ! j = None \<or> cached st ! j = Some (results ! j)))"

lemma tts_inv_init: "tts_inv results 0 (init_tts (length results))"
  by (simp add: tts_inv_def init_tts_def)

lemma tts_inv_Suc: "tts_inv results i st \<Longrightarrow> tts_inv results (Suc i) st"
  by (simp add: tts_inv_def)

lemma getResult_ok:
  assumes "tts_inv results i st" and "i < length results"
  shows "(\<exists>st1. getResult sc results i st = (Got (results ! i), st1) \<and>
            tts_inv results (Suc i) st1 \<and> sent st1 = sent st)
         \<or> (cancel_get sc i \<and> getResult sc results i st = (GotCancelled, st))"
proof (cases "cached st ! i")
  case None
  with assms show ?thesis by (auto simp: tts_inv_def getResult_def)
next
  case (Some r)
  with assms have "r = results ! i" by (auto simp: tts_inv_def)
  with Some assms show ?thesis by (auto simp: tts_inv_def getResult_def)
qed

lemma lookAhead_inv:
  assumes "tts_inv results i st" and "i \<le> j" and "j + k = length results"
    and "lookAhead sc results m k j st = (b, st')"
  shows "b \<noteq> None \<and> tts_inv results i st' \<and> sent st' = sent st"
  using assms
proof (induction sc results m k j st rule: lookAhead.induct)
  case (1 sc results m j st)
  then show ?case by auto
next
  case (2 sc results m k j st)
  have "j < length (cached st)" "j < length results" using 2 by (auto simp: tts_inv_def)
  note 2 = 2 this
  show ?case
  proof (cases "cached st ! j")
    case None
    with 2 show ?thesis by (auto simp: tts_inv_def nth_list_update split: if_splits)
  next
    case (Some r)
    with 2 show ?thesis by (auto split: if_splits)
  qed
qed

section \<open>What the loop sends\<close>

abbreviation succeeded :: "ttsChunkResult \<Rightarrow> bool" where
  "succeeded r \<equiv> err r = None"

text \<open>The first packet of a stream is its START; no other packet is.\<close>

definition stream_shape :: "outgoingAudio list \<Rightarrow> bool" where
  "stream_shape ps \<longleftrightarrow>
     (\<forall>p < length ps. (p = 0 \<longrightarrow> Status (ps ! p) = START) \<and>
        (p \<noteq> 0 \<longrightarrow> Status (ps ! p) = CONTINUE \<or> Status (ps ! p) = END))"

lemma stream_shape_Nil [simp]: "stream_shape []"
  by (simp add: stream_shape_def)

lemma stream_shape_snoc:
  "stream_shape ps \<Longrightarrow> Status p = chunkStatus (length ps) b \<Longrightarrow> stream_shape (ps @ [p])"
  by (auto simp: stream_shape_def chunkStatus_def nth_append less_Suc_eq)

lemma stream_shape_starts:
  assumes "stream_shape ps"
  shows "map (\<lambda>p. Status p = START) ps = map (\<lambda>i. i = 0) [0..<length ps]"
proof (rule nth_equalityI)
  fix i assume "i < length (map (\<lambda>p. Status p = START) ps)"
  then have i: "i < length ps" by simp
  with assms have "Status (ps ! i) = START \<longleftrightarrow> i = 0"
    unfolding stream_shape_def by (cases "i = 0") force+
  with i show "map (\<lambda>p. Status p = START) ps ! i = map (\<lambda>i. i = 0) [0..<length ps] ! i" by simp
qed simp

lemma drop_nth_split: "i < length xs \<Longrightarrow> drop i xs = xs ! i # drop (Suc i) xs"
  by (rule Cons_nth_drop_Suc [symmetric])

text \<open>
  One lemma carries the properties below: the loop never deadlocks; what it sends is, in index
  order, audio of successful chunks under one stream id, all of it unless the context is
  cancelled; and it keeps the shape of the stream.
\<close>

lemma stream_loop_sends:
  assumes "stream_loop sc sid rs k i st = (e, st')" and "tts_inv rs i st" and "i + k = length rs"
  shows "e \<noteq> Deadlock \<and> e \<noteq> OutOfRange \<and>
    (e = CtxErr \<longrightarrow> (\<exists>j. cancel_get sc j \<or> cancel_send sc j)) \<and>
    (stream_shape (sent st) \<longrightarrow> stream_shape (sent st')) \<and>
    (\<exists>ps rest. sent st' = sent st @ ps \<and> (\<forall>p \<in> set ps. StreamID p = sid) \<and>
       map ogg (filter succeeded (drop i rs)) = map Data ps @ rest \<and>
       (e = Finished \<longrightarrow> rest = []))"
  using assms
proof (induction k arbitrary: i st)
  case 0
  then show ?case by auto
next
  case (Suc k)
  have i: "i < length rs" using Suc.prems by simp
  consider (cancel) "cancel_get sc i" "getResult sc rs i st = (GotCancelled, st)"
    | (got) st1 where "getResult sc rs i st = (Got (rs ! i), st1)"
        "tts_inv rs (Suc i) st1" "sent st1 = sent st"
    using getResult_ok [OF Suc.prems(2) i, of sc] by blast
  then show ?case
  proof cases
    case cancel
    with Suc.prems show ?thesis by auto
  next
    case got
    note d = drop_nth_split [OF i]
    show ?thesis
    proof (cases "succeeded (rs ! i)")
      case False
      then have "stream_loop sc sid rs k (Suc i) st1 = (e, st')"
        using Suc.prems(1) got(1) by simp
      moreover have "filter succeeded (drop i rs) = filter succeeded (drop (Suc i) rs)"
        using False by (simp add: d)
      ultimately show ?thesis
        using Suc.IH [OF _ got(2)] Suc.prems(3) got(3) by simp
    next
      case True
      obtain o' st2 where l': "lookAhead sc rs i k (Suc i) st1 = (o', st2)"
        by (cases "lookAhead sc rs i k (Suc i) st1")
      have i2: "o' \<noteq> None" "tts_inv rs (Suc i) st2" "sent st2 = sent st"
        using lookAhead_inv [OF got(2) _ _ l'] Suc.prems(3) got(3) by auto
      then obtain b where l: "lookAhead sc rs i k (Suc i) st1 = (Some b, st2)" using l' by auto
      define out where "out = \<lparr>Data = ogg (rs ! i), Status = chunkStatus (sentCount st2) b,
        StreamID = sid\<rparr>"
      define st3 where "st3 = st2\<lparr>sent := sent st2 @ [out], sentCount := Suc (sentCount st2)\<rparr>"
      have i3: "tts_inv rs (Suc i) st3" using i2 by (simp add: tts_inv_def st3_def)
      have c: "sentCount st2 = length (sent st)" using i2 by (simp add: tts_inv_def)
      show ?thesis
      proof (cases "cancel_send sc i")
        case True
        with \<open>succeeded (rs ! i)\<close> Suc.prems got l i2 show ?thesis by (auto simp: Let_def)
      next
        case False
        then have "stream_loop sc sid rs k (Suc i) st3 = (e, st')"
          using True Suc.prems(1) got l by (simp add: Let_def out_def st3_def)
        then have IH: "e \<noteq> Deadlock \<and> e \<noteq> OutOfRange \<and>
            (e = CtxErr \<longrightarrow> (\<exists>j. cancel_get sc j \<or> cancel_send sc j)) \<and>
            (stream_shape (sent st3) \<longrightarrow> stream_shape (sent st')) \<and>
            (\<exists>ps rest. sent st' = sent st3 @ ps \<and> (\<forall>p \<in> set ps. StreamID p = sid) \<and>
               map ogg (filter succeeded (drop (Suc i) rs)) = map Data ps @ rest \<and>
               (e = Finished \<longrightarrow> rest = []))"
          using Suc.IH [OF _ i3] Suc.prems(3) by simp
        have "stream_shape (sent st) \<longrightarrow> stream_shape (sent st3)"
          using stream_shape_snoc [of "sent st" out b] c i2 by (simp add: st3_def out_def)
        moreover obtain ps rest where
          "sent st' = sent st3 @ ps" "\<forall>p \<in> set ps. StreamID p = sid"
          "map ogg (filter succeeded (drop (Suc i) rs)) = map Data ps @ rest"
          "e = Finished \<longrightarrow> rest = []"
          using IH by blast
        then have "sent st' = sent st @ (out # ps)" "\<forall>p \<in> set (out # ps). StreamID p = sid"
          "map ogg (filter succeeded (drop i rs)) = map Data (out # ps) @ rest"
          "e = Finished \<longrightarrow> rest = []"
          using i2 True by (auto simp: st3_def out_def d)
        ultimately show ?thesis using IH by blast
      qed
    qed
  qed
qed

text \<open>When every chunk succeeds, the look-ahead answers exactly whether a chunk is left.\<close>

lemma lookAhead_all_ok:
  assumes "tts_inv rs i st" and "i \<le> j" and "j + k = length rs" and "\<forall>r \<in> set rs. succeeded r"
  shows "fst (lookAhead sc rs m k j st) = Some (0 < k)"
proof (cases k)
  case 0
  then show ?thesis by simp
next
  case (Suc k')
  with assms have "cached st ! j = None \<or> cached st ! j = Some (rs ! j)" "succeeded (rs ! j)"
    "j < length (cached st)" "j < length rs"
    by (auto simp: tts_inv_def)
  with Suc show ?thesis by (auto split: option.splits)
qed

lemma stream_loop_all_ok:
  assumes "stream_loop sc sid rs k i st = (Finished, st')" and "tts_inv rs i st"
    and "i + k = length rs" and "\<forall>r \<in> set rs. succeeded r" and "length (sent st) = i"
  shows "map Status (sent st') = map Status (sent st)
     @ map (\<lambda>j. chunkStatus j (Suc j < length rs)) [i..<length rs]"
  using assms
proof (induction k arbitrary: i st)
  case 0
  then show ?case by simp
next
  case (Suc k)
  have i: "i < length rs" and ok: "succeeded (rs ! i)" using Suc.prems by auto
  obtain st1 where got: "getResult sc rs i st = (Got (rs ! i), st1)"
      "tts_inv rs (Suc i) st1" "sent st1 = sent st"
    using getResult_ok [OF Suc.prems(2) i, of sc] Suc.prems(1) by auto
  obtain o' st2 where l: "lookAhead sc rs i k (Suc i) st1 = (o', st2)"
    by (cases "lookAhead sc rs i k (Suc i) st1")
  have i2: "tts_inv rs (Suc i) st2" "sent st2 = sent st"
    using lookAhead_inv [OF got(2) _ _ l] Suc.prems(3) got(3) by auto
  have b: "o' = Some (0 < k)"
    using lookAhead_all_ok [OF got(2) order_refl, of k sc i] l Suc.prems by simp
  have c: "sentCount st2 = i" using i2 Suc.prems(5) by (simp add: tts_inv_def)
  define out where "out = \<lparr>Data = ogg (rs ! i), Status = chunkStatus i (0 < k), StreamID = sid\<rparr>"
  define st3 where "st3 = st2\<lparr>sent := sent st2 @ [out], sentCount := Suc (sentCount st2)\<rparr>"
  have "stream_loop sc sid rs k (Suc i) st3 = (Finished, st')"
    using Suc.prems(1) got l b c ok
    by (simp add: Let_def out_def st3_def split: if_splits)
  moreover have "tts_inv rs (Suc i) st3" using i2 by (simp add: tts_inv_def st3_def)
  ultimately have "map Status (sent st') = map Status (sent st3)
     @ map (\<lambda>j. chunkStatus j (Suc j < length rs)) [Suc i..<length rs]"
    using Suc.IH [of "Suc i" st3] Suc.prems i2 by (simp add: st3_def)
  moreover have "(0 < k) = (Suc i < length rs)" using Suc.prems(3) by auto
  ultimately show ?case
    using i i2 by (simp add: st3_def out_def upt_conv_Cons)
qed

section \<open>The whole stream\<close>

lemma framing_list:
  assumes "2 \<le> n"
  shows "map (\<lambda>j. chunkStatus j (Suc j < n)) [0..<n] = START # replicate (n - 2) CONTINUE @ [END]"
proof -
  obtain m where n: "n = Suc (Suc m)"
    using assms by (metis add_2_eq_Suc le_Suc_ex)
  then have "[0..<n] = [0..<Suc m] @ [Suc m]" by simp
  also have "[0..<Suc m] = 0 # [1..<Suc m]" by (simp only: upt_conv_Cons One_nat_def)
  finally have "[0..<n] = 0 # [1..<n - 1] @ [n - 1]" using n by simp
  moreover have "map (\<lambda>j. chunkStatus j (Suc j < n)) [1..<n - 1] = replicate (n - 2) CONTINUE"
    by (intro nth_equalityI) (auto simp: chunkStatus_def)
  ultimately show ?thesis using assms by (simp add: chunkStatus_def)
qed

definition no_cancel :: "sched \<Rightarrow> bool" where
  "no_cancel sc \<longleftrightarrow> (\<forall>i. \<not> cancel_get sc i \<and> \<not> cancel_send sc i)"

text \<open>The audio of the chunks whose generation and encoding succeed, in order.\<close>

definition chunk_audio ::
  "(nat \<Rightarrow> gostring \<Rightarrow> gostring + 'pcm) \<Rightarrow> ('pcm \<Rightarrow> gostring + bytes) \<Rightarrow> gostring list
     \<Rightarrow> bytes list" where
  "chunk_audio gen enc prompts =
     map ogg (filter succeeded (generateChunksParallel gen enc prompts))"

lemma length_generate [simp]: "length (generateChunksParallel gen enc ps) = length ps"
  by (simp add: generateChunksParallel_def)

lemma streamTTSChunks_loop:
  assumes "streamTTSChunks sc sid gen enc chunks bp = (e, ps)"
  obtains st where
    "stream_loop sc sid (generateChunksParallel gen enc (map bp chunks)) (length chunks) 0
       (init_tts (length chunks)) = (e, st)" and "sent st = ps"
proof (cases "chunks = []")
  case True
  with assms that show ?thesis
    by (auto simp: streamTTSChunks_def generateChunksParallel_def init_tts_def)
next
  case False
  with assms that show ?thesis
    by (auto simp: streamTTSChunks_def Let_def split: prod.splits)
qed

lemma streamTTSChunks_sends:
  assumes "streamTTSChunks sc sid gen enc chunks bp = (e, ps)"
  shows "e \<noteq> Deadlock \<and> e \<noteq> OutOfRange \<and> (e = CtxErr \<longrightarrow> (\<exists>j. cancel_get sc j \<or> cancel_send sc j)) \<and>
    stream_shape ps \<and> (\<forall>p \<in> set ps. StreamID p = sid) \<and>
    (\<exists>rest. chunk_audio gen enc (map bp chunks) = map Data ps @ rest \<and> (e = Finished \<longrightarrow> rest = []))"
proof -
  let ?rs = "generateChunksParallel gen enc (map bp chunks)"
  obtain st where st: "stream_loop sc sid ?rs (length chunks) 0 (init_tts (length chunks)) = (e, st)"
    "sent st = ps"
    using assms by (rule streamTTSChunks_loop)
  have "tts_inv ?rs 0 (init_tts (length chunks))" using tts_inv_init [of ?rs] by simp
  from stream_loop_sends [OF st(1) this] st(2) show ?thesis
    by (auto simp: init_tts_def chunk_audio_def)
qed

lemma streamTTSChunks_in_range: "fst (streamTTSChunks sc sid gen enc chunks bp) \<noteq> OutOfRange"
  using streamTTSChunks_sends [of sc sid gen enc chunks bp] by (metis prod.collapse)

lemma streamTTSChunks_finishes:
  "no_cancel sc \<Longrightarrow> fst (streamTTSChunks sc sid gen enc chunks bp) = Finished"
  using streamTTSChunks_sends [of sc sid gen enc chunks bp]
  by (cases "streamTTSChunks sc sid gen enc chunks bp"; cases "fst (streamTTSChunks sc sid gen enc chunks bp)")
    (auto simp: no_cancel_def)

section \<open>Properties\<close>

text \<open>
  C11. Without a cancelled context the call returns normally and sends exactly the audio of the
  chunks whose generation and encoding succeeded, in the order of the answer: a failed chunk is
  skipped and stops nothing, whichever results are ready at whichever poll.
\<close>

theorem stream_sends_successes_in_order:
  assumes "no_cancel sc"
  shows "\<exists>ps. streamTTSChunks sc sid gen enc chunks bp = (Finished, ps) \<and>
     map Data ps = chunk_audio gen enc (map bp chunks)"
proof -
  obtain e ps where s: "streamTTSChunks sc sid gen enc chunks bp = (e, ps)"
    by (cases "streamTTSChunks sc sid gen enc chunks bp")
  moreover have "e = Finished"
    using streamTTSChunks_finishes [OF assms, of sid gen enc chunks bp] s by simp
  ultimately show ?thesis using streamTTSChunks_sends [OF s] by auto
qed

definition demo_sched :: sched where
  "demo_sched = \<lparr>ready = (\<lambda>i j. True), cancel_get = (\<lambda>i. False), cancel_send = (\<lambda>i. False)\<rparr>"

text \<open>Generation for the witnesses: the first byte of the prompt, failing on the prompt \<open>!\<close>.\<close>

definition demo_gen :: "nat \<Rightarrow> gostring \<Rightarrow> gostring + bytes" where
  "demo_gen i p = (if p = ''!'' then Inl ''tts'' else Inr (map of_char p))"

lemma no_cancel_demo: "no_cancel demo_sched"
  by (simp add: no_cancel_def demo_sched_def)

theorem stream_sends_successes_in_order_witness:
  "\<exists>ps. streamTTSChunks demo_sched ''u'' demo_gen Inr [''a'', ''!'', ''b''] (\<lambda>t. t) = (Finished, ps) \<and>
     map Data ps = [[97], [98]]"
  using stream_sends_successes_in_order
    [OF no_cancel_demo, of "''u''" demo_gen Inr "[''a'', ''!'', ''b'']" "\<lambda>t. t"]
  by (simp add: chunk_audio_def generateChunksParallel_def chunk_goroutine_def demo_gen_def)

text \<open>
  Whatever the schedule and even when the context is cancelled, the loop never waits for a
  result it has already taken; what it has sent is a prefix of the successful audio, all under
  one stream id; and only the first packet of the stream, and always the first, is a START.
\<close>

theorem stream_safety:
  "fst (streamTTSChunks sc sid gen enc chunks bp) \<noteq> Deadlock
   \<and> (\<exists>rest. map Data (snd (streamTTSChunks sc sid gen enc chunks bp)) @ rest
        = chunk_audio gen enc (map bp chunks))
   \<and> set (map StreamID (snd (streamTTSChunks sc sid gen enc chunks bp))) \<subseteq> {sid}
   \<and> map (\<lambda>p. Status p = START) (snd (streamTTSChunks sc sid gen enc chunks bp))
      = map (\<lambda>i. i = 0) [0..<length (snd (streamTTSChunks sc sid gen enc chunks bp))]"
proof -
  obtain e ps where s: "streamTTSChunks sc sid gen enc chunks bp = (e, ps)"
    by (cases "streamTTSChunks sc sid gen enc chunks bp")
  note sends = streamTTSChunks_sends [OF s]
  from sends have "map (\<lambda>p. Status p = START) ps = map (\<lambda>i. i = 0) [0..<length ps]"
    by (simp add: stream_shape_starts)
  with sends show ?thesis unfolding s by auto
qed

text \<open>
  When every chunk of an answer of two or more succeeds, the stream is framed as the
  protocol asks, whatever results are ready when: START, then CONTINUE for the chunks in
  between, then END on the last.
\<close>

theorem stream_framing:
  assumes "no_cancel sc" and "2 \<le> length chunks"
    and "length (chunk_audio gen enc (map bp chunks)) = length chunks"
  shows "map Status (snd (streamTTSChunks sc sid gen enc chunks bp))
     = START # replicate (length chunks - 2) CONTINUE @ [END]"
proof -
  let ?rs = "generateChunksParallel gen enc (map bp chunks)" and ?n = "length chunks"
  obtain e ps where s: "streamTTSChunks sc sid gen enc chunks bp = (e, ps)"
    by (cases "streamTTSChunks sc sid gen enc chunks bp")
  have e: "e = Finished"
    using streamTTSChunks_finishes [OF assms(1), of sid gen enc chunks bp] s by simp
  obtain st where l: "stream_loop sc sid ?rs ?n 0 (init_tts ?n) = (e, st)" and ps: "sent st = ps"
    using s by (rule streamTTSChunks_loop)
  have "\<forall>r \<in> set ?rs. succeeded r"
    using assms(3) by (intro length_filter_all) (simp add: chunk_audio_def)
  moreover have "tts_inv ?rs 0 (init_tts ?n)" using tts_inv_init [of ?rs] by simp
  ultimately have "map Status ps = map (\<lambda>j. chunkStatus j (Suc j < ?n)) [0..<?n]"
    using stream_loop_all_ok [of sc sid ?rs ?n 0 "init_tts ?n" st] l e ps
    by (simp add: init_tts_def)
  also have "\<dots> = START # replicate (?n - 2) CONTINUE @ [END]"
    using assms(2) by (rule framing_list)
  finally show ?thesis using s by simp
qed

theorem stream_framing_witness:
  "map Status (snd (streamTTSChunks demo_sched ''u'' demo_gen Inr [''a'', ''b'', ''c''] (\<lambda>t. t)))
     = START # replicate (length [''a'', ''b'', ''c''] - 2) CONTINUE @ [END]"
  by (rule stream_framing [OF no_cancel_demo])
    (simp_all add: chunk_audio_def generateChunksParallel_def chunk_goroutine_def demo_gen_def)

text \<open>
  An answer of which only one chunk can be spoken goes out as a lone START packet: no
  packet ends the stream, although the comment of \<open>streamTTSChunks\<close> promises an END on the
  last chunk. The receiver closes such a stream by its time-out only.
\<close>

theorem single_chunk_never_ends:
  assumes "no_cancel sc" and "length (chunk_audio gen enc (map bp chunks)) = 1"
  shows "map Status (snd (streamTTSChunks sc sid gen enc chunks bp)) = [START]"
proof -
  obtain e ps where s: "streamTTSChunks sc sid gen enc chunks bp = (e, ps)"
    by (cases "streamTTSChunks sc sid gen enc chunks bp")
  moreover have "e = Finished"
    using streamTTSChunks_finishes [OF assms(1), of sid gen enc chunks bp] s by simp
  ultimately have sh: "stream_shape ps" and "map Data ps = chunk_audio gen enc (map bp chunks)"
    using streamTTSChunks_sends [OF s] by auto
  then have "length ps = 1" using assms(2) by (metis length_map)
  then obtain p where "ps = [p]" by (cases ps) auto
  with sh s show ?thesis by (simp add: stream_shape_def)
qed

theorem single_chunk_never_ends_witness:
  "map Status (snd (streamTTSChunks demo_sched ''u'' demo_gen Inr [''a'', ''!''] (\<lambda>t. t))) = [START]"
  by (rule single_chunk_never_ends [OF no_cancel_demo])
    (simp add: chunk_audio_def generateChunksParallel_def chunk_goroutine_def demo_gen_def)

text \<open>
  A failed chunk in the middle of an answer, whose failure is known when the chunk before
  it is sent, makes the loop send END too early: the look-ahead stops at the failure it has just
  received instead of going on to the next chunk. Here the third of four chunks fails; the
  second goes out as END, and the fourth follows it in a stream that has already ended.
\<close>

theorem premature_end:
  "map (\<lambda>p. (Data p, Status p))
     (snd (streamTTSChunks demo_sched ''u'' demo_gen Inr [''a'', ''b'', ''!'', ''c''] (\<lambda>t. t)))
   = [([97], START), ([98], END), ([99], END)]"
  by (simp add: streamTTSChunks_def generateChunksParallel_def chunk_goroutine_def demo_gen_def
      demo_sched_def init_tts_def getResult_def chunkStatus_def Let_def eval_nat_numeral)

end
