(* ===== verification/OggLib.thy ===== *)
theory OggLib
  imports Bytes
begin

text \<open>
  The data of the Ogg library (\<open>github.com/kazzmir/opus-go/ogg\<close>) that the game server and the emulator
  hand to it: the header of an Opus stream, and a packet with its granule position and marks.
\<close>

record OpusHead =
  Version :: nat
  Channels :: nat
  PreSkip :: nat
  InputSampleRate :: nat
  ChannelMappingFamily :: nat

record packet =
  pkData :: bytes
  pkGranule :: "64 word"
  pkBOS :: bool
  pkEOS :: bool

end
