(* ===== verification/Tts.thy ===== *)
theory Tts
  imports Gemini OggLib
begin

text \<open>
  Speech generation, \<open>app/wl-game-server/tts.go\<close>: the prompts, reading the samples out of the
  service's answer (a WAV file or bare PCM), and packing them as Ogg Opus. The Opus encoder and the
  Ogg writer are libraries; they are the parameters \<open>codec\<close> of the encoding functions.
\<close>

section \<open>Constants and prompts\<close>

definition sampleRate :: nat where "sampleRate = 24000"
definition channels :: nat where "channels = 1"
definition frameSize :: nat where "frameSize = 480"
definition opusBitrate :: nat where "opusBitrate = 16000"
definition preSkip :: nat where "preSkip = 312"

definition defaultTTSModel :: gostring where
  "defaultTTSModel = ''gemini-3.1-flash-tts-preview''"

definition ttsPersona :: gostring where
  "ttsPersona =
     ''# VOICE CHARACTER: '' @ encode_runes [28961, 32218, 12458, 12506, 12524, 12540,
     12479, 12540] @ ''A (Despina)'' @ [newline] @ ''## '' @ encode_runes [22522, 26412,
     12503, 12525, 12501, 12451, 12540, 12523, 10] @ ''- '' @ encode_runes [35441, 32773] @
     '': '' @ encode_runes [26085, 26412, 20154, 22899, 24615, 12398, 29087, 32244, 12450,
     12510, 12481, 12517, 12450, 28961, 32218, 12458, 12506, 12524, 12540, 12479, 12540,
     10] @ ''- '' @ encode_runes [22768, 36074] @ '': '' @ encode_runes [26126, 12427,
     12367, 26126, 30637, 12394, 22899, 24615, 12398, 22768, 12290] @ ''FM'' @ encode_runes
     [22793, 35519, 12364, 12363, 12363, 12387, 12383, 29366, 24907, 12391, 12418, 19968,
     35486, 19968, 35486, 12364, 12399, 12387, 12365, 12426, 32862, 12365, 21462, 12428,
     12427, 10] @ ''- '' @ encode_runes [35441, 36895] @ '': '' @ encode_runes [12420,
     12420, 36895, 12417, 12290, 12383, 12384, 12375, 23376, 38899, 12539, 35486, 23614,
     12434, 26126, 30906, 12395, 30330, 38899, 12375, 12289, 26089, 21475, 12391, 12418,
     32862, 12365, 21462, 12426, 12420, 12377, 12373, 12434, 20445, 12388, 10] @ ''- '' @
     encode_runes [24863, 24773] @ '': '' @ encode_runes [33853, 12385, 30528, 12356,
     12383, 35242, 12375, 12415, 12420, 12377, 12373, 12290, 25233, 25562, 12399, 26368,
     23567, 38480, 12395, 25233, 12360, 12289, 12481, 12515, 12531, 12463, 12434, 12414,
     12383, 12356, 12391, 12418, 21516, 12376, 12488, 12540, 12531, 12434, 32173, 25345,
     12377, 12427, 10] @ ''- '' @ encode_runes [35486, 23614, 12434, 20280, 12400, 12373,
     12394, 12356, 12290, 25991, 26411, 12399, 24179, 22374, 12316, 19979, 12364, 12426,
     35519, 23376, 12391, 32066, 12431, 12427, 10, 10] @ ''## '' @ encode_runes [30330,
     38899, 12398, 29305, 24500, 10] @ ''- '' @ encode_runes [12467, 12540, 12523, 12469,
     12452, 12531] @ '' ('' @ encode_runes [33521, 25968, 23383, 12398, 32068, 12415,
     21512, 12431, 12379] @ '') '' @ encode_runes [12399, 19968, 25991, 23383, 12378,
     12388, 26085, 26412, 35486, 35501, 12415, 12391, 30330, 38899, 12377, 12427] @
     '': S4CA '' @ encode_runes [8594] @ '' '' @ [CHR 0x22] @ encode_runes [12456, 12473] @
     '' '' @ encode_runes [12520, 12531] @ '' '' @ encode_runes [12471, 12540] @ '' '' @
     encode_runes [12456, 12540] @ [CHR 0x22] @ [newline] @ ''- '' @ encode_runes [12300,
     12393, 12358, 12382, 12301, 12399, 28961, 32218, 29992, 35486, 12392, 12375, 12390,
     26126, 30906, 12395, 30330, 38899, 12375, 12289, 12381, 12398, 24460, 12399, 28961,
     38899, 12395, 12377, 12427, 10] @ ''- '' @ encode_runes [21161, 35422, 12539, 21161,
     21205, 35422, 12434, 30053, 12373, 12378, 19969, 23527, 12395, 30330, 38899, 12377,
     12427, 10, 10] @ ''## '' @ encode_runes [38899, 38911, 29305, 24615] @ '' ('' @
     encode_runes [27598, 22238, 19968, 23450, 12395, 20445, 12388, 12371, 12392] @ '')'' @
     [newline] @ ''- Pitch: '' @ encode_runes [19968, 23450] @ '' ('' @ encode_runes
     [22793, 21205, 12394, 12375] @ '')'' @ [newline] @ ''- Tempo: 1.1x ('' @ encode_runes
     [12420, 12420, 36895, 12417, 12289, 19968, 23450] @ '')'' @ [newline] @
     ''- Breathiness: minimal'' @ [newline] @ ''- Vocal fry: none''"

definition ttsScene_0 :: gostring where
  "ttsScene_0 =
     encode_runes [10, 10] @ ''## THE SCENE: '' @ encode_runes [28961, 32218, 12486, 12473,
     12488, 12458, 12506, 12524, 12540, 12471, 12519, 12531, 10, 28961, 32218, 12398,
     21021, 24515, 32773, 12395, 23550, 12375, 12390, 12289, 30456, 25163, 12364, 35441,
     12375, 12383, 20869, 23481, 12392, 21516, 12376, 20869, 23481, 12434, 36820, 31572,
     12377, 12427, 12486, 12473, 12488, 12458, 12506, 12524, 12540, 12471, 12519, 12531,
     12434, 12375, 12390, 12356, 12414, 12377, 12290, 10, 10] @ ''#### TRANSCRIPT'' @
     [newline]"

definition ttsScene_1 :: gostring where
  "ttsScene_1 =
     encode_runes [12290, 12371, 12385, 12425] @ ''S4CA'' @ encode_runes [12290]"

definition ttsScene_2 :: gostring where
  "ttsScene_2 =
     ''''"

definition ttsScene :: gostring where
  "ttsScene = ttsScene_0 @ ''%s'' @ ttsScene_1 @ ''%s'' @ ttsScene_2"

definition ttsSceneS4CQ_0 :: gostring where
  "ttsSceneS4CQ_0 =
     encode_runes [10, 10] @ ''## THE SCENE: '' @ encode_runes [28961, 32218, 12486, 12473,
     12488, 12458, 12506, 12524, 12540, 12471, 12519, 12531, 10, 28961, 32218, 12398,
     21021, 24515, 32773, 12363, 12425, 26469, 12383, 36074, 21839, 12395, 23550, 12375,
     12390, 36820, 31572, 12377, 12427, 12486, 12473, 12488, 12458, 12506, 12524, 12540,
     12471, 12519, 12531, 12434, 12375, 12390, 12356, 12414, 12377, 12290, 10, 10] @
     ''#### TRANSCRIPT'' @ [newline]"

definition ttsSceneS4CQ_1 :: gostring where
  "ttsSceneS4CQ_1 =
     ''''"

definition ttsSceneS4CQ :: gostring where
  "ttsSceneS4CQ = ttsSceneS4CQ_0 @ ''%s'' @ ttsSceneS4CQ_1"

definition ttsPromptTemplate :: gostring where
  "ttsPromptTemplate = ttsPersona @ ttsScene"

definition ttsPromptTemplateS4CQ :: gostring where
  "ttsPromptTemplateS4CQ = ttsPersona @ ttsSceneS4CQ"

section \<open>The WAV header\<close>

text \<open>
  The loop over the chunks of the file. \<open>chunkSize\<close> is an unsigned 32-bit number in a 64-bit
  \<open>int\<close>, so \<open>pos\<close> does not wrap.
\<close>

function wav_loop :: "bytes \<Rightarrow> nat \<Rightarrow> bytes go" where
  "wav_loop d pos =
     (if pos + 8 \<le> length d then
        go_bind (go_slice d pos (pos + 4)) (\<lambda>chunkID.
        go_bind (go_slice d (pos + 4) (pos + 8)) (\<lambda>sz.
          let chunkSize = le_value sz; pos = pos + 8
          in if chunkID = ascii ''data'' then
               let end = (if pos + chunkSize > length d then length d else pos + chunkSize)
               in go_slice d pos end
             else wav_loop d (if chunkSize mod 2 \<noteq> 0 then pos + chunkSize + 1 else pos + chunkSize)))
      else Return d)"
  by pat_completeness auto
termination by (relation "measure (\<lambda>(d, pos). length d - pos)") auto

declare wav_loop.simps [simp del]

definition stripWAVHeader :: "bytes \<Rightarrow> bytes go" where
  "stripWAVHeader d =
     (if length d < 12 \<or> take 4 d \<noteq> ascii ''RIFF'' then Return d else wav_loop d 12)"

text \<open>\<open>for i := range samples\<close>: the loop over the indexes; a slice out of range would panic.\<close>

fun sample_loop :: "bytes \<Rightarrow> nat list \<Rightarrow> 16 word list go" where
  "sample_loop d [] = Return []"
| "sample_loop d (i # is) =
     go_bind (go_slice d (i * 2) (i * 2 + 2)) (\<lambda>b.
     go_bind (sample_loop d is) (\<lambda>samples. Return (word_of_nat (le_value b) # samples)))"

definition parsePCM16 :: "bytes \<Rightarrow> 16 word list go" where
  "parsePCM16 d =
     (if length d mod 2 \<noteq> 0 then Error (''odd PCM byte length: '' @ dec (length d))
      else sample_loop d [0..<length d div 2])"

section \<open>Ogg Opus\<close>

text \<open>
  The libraries: creating an encoder and setting its bit rate, encoding one frame with the
  encoder's state, the two header packets, and the packet writer on its buffer.
\<close>

record ('e, 'w) codec =
  newEncoder :: "nat \<Rightarrow> nat \<Rightarrow> gostring + 'e"
  setBitrate :: "'e \<Rightarrow> nat \<Rightarrow> gostring + 'e"
  encodeFrame :: "'e \<Rightarrow> 16 word list \<Rightarrow> gostring + bytes \<times> 'e"
  buildHead :: "OpusHead \<Rightarrow> gostring + bytes"
  buildTags :: "gostring \<Rightarrow> gostring + bytes"
  newWriter :: "32 word \<Rightarrow> 'w"
  writePacket :: "'w \<Rightarrow> bytes \<Rightarrow> 64 word \<Rightarrow> bool \<Rightarrow> bool \<Rightarrow> gostring + 'w"
  flush :: "'w \<Rightarrow> gostring + 'w"
  bufBytes :: "'w \<Rightarrow> bytes"

fun check :: "gostring \<Rightarrow> gostring + 'a \<Rightarrow> ('a \<Rightarrow> 'b go) \<Rightarrow> 'b go" where
  "check ctx (Inl e) f = Error (ctx @ '': '' @ e)"
| "check ctx (Inr x) f = f x"

text \<open>
  The loop over the frames: a tail shorter than a frame is left out. The slice of a frame panics
  when it is out of range.
\<close>

function encode_loop ::
  "('e, 'w) codec \<Rightarrow> 16 word list \<Rightarrow> nat \<Rightarrow> 64 word \<Rightarrow> 'e \<Rightarrow> 'w \<Rightarrow> 'w go" where
  "encode_loop c pcm i totalSamples e w =
     (if i + frameSize \<le> length pcm then
        go_bind (go_slice pcm i (i + frameSize)) (\<lambda>samples.
        check ''opus.Encode'' (encodeFrame c e samples) (\<lambda>(packet, e').
          let totalSamples = totalSamples + of_nat frameSize;
              granule = of_nat preSkip + totalSamples;
              isLast = i + frameSize + frameSize > length pcm
          in check ''ogg.WritePacket'' (writePacket c w packet granule False isLast)
               (\<lambda>w'. encode_loop c pcm (i + frameSize) totalSamples e' w')))
      else Return w)"
  by pat_completeness auto
termination
  by (relation "measure (\<lambda>(c, pcm, i, t, e, w). length pcm - i)") (auto simp: frameSize_def)

declare encode_loop.simps [simp del]

definition encodePCMToOggOpus :: "('e, 'w) codec \<Rightarrow> 16 word list \<Rightarrow> bytes go" where
  "encodePCMToOggOpus c pcm =
     check ''opus.NewEncoder'' (newEncoder c sampleRate channels) (\<lambda>e.
     check ''opus.SetBitrate'' (setBitrate c e opusBitrate) (\<lambda>e.
       let pw = newWriter c 0x57485052
       in check ''BuildOpusHeadPacket''
            (buildHead c \<lparr>Version = 1, Channels = channels, PreSkip = preSkip,
               InputSampleRate = sampleRate, ChannelMappingFamily = 0\<rparr>) (\<lambda>headPkt.
          check ''write OpusHead'' (writePacket c pw headPkt 0 True False) (\<lambda>pw.
          check ''BuildOpusTagsPacket'' (buildTags c ''whisper-link'') (\<lambda>tagsPkt.
          check ''write OpusTags'' (writePacket c pw tagsPkt 0 False False) (\<lambda>pw.
          go_bind (encode_loop c pcm 0 0 e pw) (\<lambda>pw.
          check ''ogg.Flush'' (flush c pw) (\<lambda>pw. Return (bufBytes c pw)))))))))"

section \<open>The client\<close>

record TTSClient =
  ttsModel :: gostring

text \<open>\<open>genai.NewClient\<close> may fail; its outcome is the first argument.\<close>

definition NewTTSClient :: "gostring option \<Rightarrow> gostring \<Rightarrow> TTSClient go" where
  "NewTTSClient clientErr model =
     (let model = (if model = '''' then defaultTTSModel else model)
      in case clientErr of
           Some e \<Rightarrow> Error (''genai.NewClient: '' @ e)
         | None \<Rightarrow> Return \<lparr>ttsModel = model\<rparr>)"

definition GeneratePCM24kFromPrompt :: "genai \<Rightarrow> TTSClient \<Rightarrow> gostring \<Rightarrow> 16 word list go" where
  "GeneratePCM24kFromPrompt gen t prompt =
     (case gen \<lparr>reqModel = ttsModel t, reqParts = [PartText prompt], reqSystem = None,
            reqMIMEType = '''', reqSchema = None, reqModalities = [''audio''],
            reqVoice = Some ''Despina''\<rparr> of
        Inl e \<Rightarrow> Error (''GenerateContent: '' @ e)
      | Inr None \<Rightarrow> Panic nil_deref
      | Inr (Some resp) \<Rightarrow>
          go_bind (first_part ''empty TTS response'' resp) (\<lambda>part.
            case partInline part of
              None \<Rightarrow> Error ''no inline audio data in TTS response''
            | Some blob \<Rightarrow>
                go_bind (stripWAVHeader blob) (\<lambda>pcmData.
                  go_wrap ''parsePCM16'' (parsePCM16 pcmData))))"

definition GenerateOggOpusFromPrompt ::
  "genai \<Rightarrow> ('e, 'w) codec \<Rightarrow> TTSClient \<Rightarrow> gostring \<Rightarrow> bytes go" where
  "GenerateOggOpusFromPrompt gen c t prompt =
     go_bind (GeneratePCM24kFromPrompt gen t prompt) (encodePCMToOggOpus c)"

definition GenerateOggOpus ::
  "genai \<Rightarrow> ('e, 'w) codec \<Rightarrow> TTSClient \<Rightarrow> gostring \<Rightarrow> gostring \<Rightarrow> bytes go" where
  "GenerateOggOpus gen c t sndr msg =
     GenerateOggOpusFromPrompt gen c t (sprintf ttsPromptTemplate [sndr, msg])"

section \<open>WAV files\<close>

definition riff_chunk :: "bytes \<times> bytes \<Rightarrow> bytes" where
  "riff_chunk = (\<lambda>(cid, p). cid @ le4 (length p) @ p @ (if odd (length p) then [0] else []))"

lemma wav_loop_data:
  assumes "n < 2 ^ 32"
  shows "wav_loop (pre @ ascii ''data'' @ le4 n @ tail) (length pre) = Return (take n tail)"
proof -
  have id: "go_slice (pre @ ascii ''data'' @ le4 n @ tail) (length pre) (length pre + 4)
      = Return (ascii ''data'')"
    by (rule go_slice_at) simp_all
  have sz: "go_slice ((pre @ ascii ''data'') @ le4 n @ tail) (length pre + 4) (length pre + 8)
      = Return (le4 n)"
    by (rule go_slice_at) simp_all
  show ?thesis
    using assms id sz by (subst wav_loop.simps) (simp add: Let_def le_value_le4 go_slice_def)
qed

lemma wav_loop_skip:
  assumes "length cid = 4" and "cid \<noteq> ascii ''data''" and "length p < 2 ^ 32"
  shows "wav_loop (pre @ riff_chunk (cid, p) @ rest) (length pre) =
    wav_loop (pre @ riff_chunk (cid, p) @ rest) (length (pre @ riff_chunk (cid, p)))"
proof -
  let ?d = "pre @ riff_chunk (cid, p) @ rest"
  have id: "go_slice ?d (length pre) (length pre + 4) = Return cid"
    using assms by (simp add: riff_chunk_def go_slice_def)
  have sz: "go_slice ?d (length pre + 4) (length pre + 8) = Return (le4 (length p))"
    using assms by (simp add: riff_chunk_def go_slice_def)
  show ?thesis
    using assms id sz by (subst wav_loop.simps)
      (auto simp: le_value_le4 riff_chunk_def Let_def odd_iff_mod_2_eq_one ac_simps)
qed

definition other_chunk :: "bytes \<times> bytes \<Rightarrow> bool" where
  "other_chunk = (\<lambda>(cid, p). length cid = 4 \<and> cid \<noteq> ascii ''data'' \<and> length p < 2 ^ 32)"

lemma wav_loop_chunks:
  assumes "n < 2 ^ 32"
  shows "\<forall>c \<in> set cs. other_chunk c \<Longrightarrow>
    wav_loop (pre @ concat (map riff_chunk cs) @ ascii ''data'' @ le4 n @ tail) (length pre) =
      Return (take n tail)"
proof (induction cs arbitrary: pre)
  case Nil
  show ?case using wav_loop_data [OF assms] by simp
next
  case (Cons c cs)
  obtain cid p where c: "c = (cid, p)" by (cases c)
  have "wav_loop (pre @ riff_chunk c @ concat (map riff_chunk cs) @ ascii ''data'' @ le4 n @ tail)
      (length pre) =
    wav_loop ((pre @ riff_chunk c) @ concat (map riff_chunk cs) @ ascii ''data'' @ le4 n @ tail)
      (length (pre @ riff_chunk c))"
    using wav_loop_skip [of cid p pre] Cons.prems c by (simp add: other_chunk_def)
  then show ?case using Cons.IH [of "pre @ riff_chunk c"] Cons.prems by simp
qed

lemma go_slice_part:
  assumes "i \<le> j" and "j \<le> length d"
  shows "\<exists>s. go_slice d i j = Return s \<and> (\<exists>a b. d = a @ s @ b)"
proof -
  from assms have "d = take i d @ take (j - i) (drop i d) @ drop j d"
    by (metis append_take_drop_id drop_drop le_add_diff_inverse2)
  with assms show ?thesis by (auto simp: go_slice_def)
qed

lemma wav_loop_part: "\<exists>s a b. wav_loop d pos = Return s \<and> d = a @ s @ b"
proof (induction "length d - pos" arbitrary: pos rule: less_induct)
  case less
  show ?case
  proof (cases "pos + 8 \<le> length d")
    case False
    then show ?thesis by (subst wav_loop.simps) (auto intro: exI [of _ "[]"])
  next
    case True
    then obtain ci sz where
      "go_slice d pos (pos + 4) = Return ci" "go_slice d (pos + 4) (pos + 8) = Return sz"
      by (simp add: go_slice_def)
    moreover have "\<exists>s a b. wav_loop d q = Return s \<and> d = a @ s @ b" if "pos < q" for q
      by (rule less) (use that True in linarith)
    moreover note go_slice_part [of "pos + 8" "length d" d] go_slice_part [of "pos + 8" "pos + 8 + le_value sz" d]
    ultimately show ?thesis
      using True by (subst wav_loop.simps) (auto simp: Let_def)
  qed
qed

section \<open>Samples\<close>

definition le16 :: "16 word \<Rightarrow> bytes" where
  "le16 s = le_bytes 2 (unat s)"

lemma le16_value: "word_of_nat (le_value (le16 s)) = s"
proof -
  have "unat s < 256 ^ 2" using unsigned_less [of s] by simp
  then show ?thesis by (simp add: le16_def le_value_bytes)
qed

lemma samples_at: "i < length ss \<Longrightarrow> take 2 (drop (i * 2) (concat (map le16 ss))) = le16 (ss ! i)"
proof (induction ss arbitrary: i)
  case (Cons s ss)
  then show ?case by (cases i) (simp_all add: le16_def)
qed simp

lemma length_samples [simp]: "length (concat (map le16 ss)) = 2 * length ss"
  by (induction ss) (simp_all add: le16_def)

lemma sample_loop_returns:
  "\<forall>i \<in> set is. i * 2 + 2 \<le> length d \<Longrightarrow>
   sample_loop d is = Return (map (\<lambda>i. word_of_nat (le_value (take 2 (drop (i * 2) d)))) is)"
  by (induction "is") (simp_all add: go_slice_def)

lemma parse_returns:
  "even (length d) \<Longrightarrow> parsePCM16 d =
     Return (map (\<lambda>i. word_of_nat (le_value (take 2 (drop (i * 2) d)))) [0..<length d div 2])"
  unfolding parsePCM16_def by (subst sample_loop_returns) (auto simp: even_iff_mod_2_eq_zero)

lemma parse_samples: "parsePCM16 (concat (map le16 ss)) = Return ss"
proof -
  have "map (\<lambda>i. word_of_nat (le_value (take 2 (drop (i * 2) (concat (map le16 ss)))))) [0..<length ss]
      = map (\<lambda>i. ss ! i) [0..<length ss]"
    by (simp add: samples_at le16_value)
  then show ?thesis by (simp add: parse_returns map_nth)
qed

section \<open>The packets of an encoding\<close>

text \<open>
  What the libraries promise when nothing fails. \<open>packets\<close> are the packets a writer has been given
  so far; it may hold any part of them back. Only after \<open>Flush\<close> are they all in its buffer, where
  the reader \<open>readPackets\<close> of the other side finds them; of the buffer of a writer that has not been
  flushed nothing is said.
\<close>

definition reliable ::
  "('e, 'w) codec \<Rightarrow> ('w \<Rightarrow> packet list) \<Rightarrow> (bytes \<Rightarrow> packet list) \<Rightarrow> bool" where
  "reliable c packets readPackets \<longleftrightarrow>
     (\<forall>r ch. \<exists>e. newEncoder c r ch = Inr e) \<and> (\<forall>e b. \<exists>e'. setBitrate c e b = Inr e') \<and>
     (\<forall>e f. \<exists>x. encodeFrame c e f = Inr x) \<and> (\<forall>h. \<exists>p. buildHead c h = Inr p) \<and>
     (\<forall>v. \<exists>p. buildTags c v = Inr p) \<and> (\<forall>s. packets (newWriter c s) = []) \<and>
     (\<forall>w p g b e. \<exists>w'. writePacket c w p g b e = Inr w' \<and>
        packets w' = packets w @ [\<lparr>pkData = p, pkGranule = g, pkBOS = b, pkEOS = e\<rparr>]) \<and>
     (\<forall>w. \<exists>w'. flush c w = Inr w' \<and> readPackets (bufBytes c w') = packets w)"

fun encode_frames :: "('e, 'w) codec \<Rightarrow> 'e \<Rightarrow> 16 word list list \<Rightarrow> bytes list" where
  "encode_frames c e [] = []"
| "encode_frames c e (f # fs) =
     (case encodeFrame c e f of Inl _ \<Rightarrow> [] | Inr (p, e') \<Rightarrow> p # encode_frames c e' fs)"

definition frame :: "16 word list \<Rightarrow> nat \<Rightarrow> 16 word list" where
  "frame pcm k = take frameSize (drop (frameSize * k) pcm)"

definition frame_packet :: "nat \<Rightarrow> nat \<times> bytes \<Rightarrow> packet" where
  "frame_packet n = (\<lambda>(k, d). \<lparr>pkData = d, pkGranule = of_nat (preSkip + frameSize * Suc k),
     pkBOS = False, pkEOS = (Suc k = n)\<rparr>)"

lemma reliable_frame: "reliable c packets readPackets \<Longrightarrow> \<exists>p e'. encodeFrame c e f = Inr (p, e')"
  unfolding reliable_def by (metis surj_pair)

lemma reliable_write:
  "reliable c packets readPackets \<Longrightarrow> \<exists>w'. writePacket c w p g b e = Inr w' \<and>
     packets w' = packets w @ [\<lparr>pkData = p, pkGranule = g, pkBOS = b, pkEOS = e\<rparr>]"
  unfolding reliable_def by blast

lemma encode_loop_packets:
  assumes "reliable c packets readPackets"
  shows "k \<le> length pcm div frameSize \<Longrightarrow>
    \<exists>w'. encode_loop c pcm (frameSize * k) (of_nat (frameSize * k)) e w = Return w' \<and>
      packets w' = packets w @ map (frame_packet (length pcm div frameSize))
        (enumerate k (encode_frames c e (map (frame pcm) [k..<length pcm div frameSize])))"
proof (induction "length pcm div frameSize - k" arbitrary: k e w)
  case 0
  then have "\<not> frameSize * k + frameSize \<le> length pcm" by (auto simp: frameSize_def)
  with 0 show ?case by (subst encode_loop.simps) simp
next
  case (Suc m)
  let ?n = "length pcm div frameSize"
  from Suc(2) have k: "k < ?n" "frameSize * k + frameSize \<le> length pcm"
    by (auto simp: frameSize_def)
  have last: "frameSize * k + frameSize + frameSize > length pcm \<longleftrightarrow> Suc k = ?n"
    using k by (auto simp: frameSize_def)
  obtain p e' where p: "encodeFrame c e (frame pcm k) = Inr (p, e')"
    using reliable_frame [OF assms] by blast
  let ?g = "of_nat (preSkip + frameSize * Suc k) :: 64 word"
  obtain w1 where w1: "writePacket c w p ?g False (Suc k = ?n) = Inr w1"
    "packets w1 = packets w @ [frame_packet ?n (k, p)]"
    using reliable_write [OF assms] by (fastforce simp: frame_packet_def)
  have m: "m = ?n - Suc k" using Suc(2) by linarith
  obtain w' where w': "encode_loop c pcm (frameSize * Suc k) (of_nat (frameSize * Suc k)) e' w1 = Return w'"
    "packets w' = packets w1 @ map (frame_packet ?n)
        (enumerate (Suc k) (encode_frames c e' (map (frame pcm) [Suc k..<?n])))"
    using Suc(1) [OF m Suc_leI [OF k(1)], of e' w1] by blast
  have "encode_loop c pcm (frameSize * k) (of_nat (frameSize * k)) e w = Return w'"
    using k p w1 w' last
    by (subst encode_loop.simps)
      (simp add: frame_def go_slice_def Let_def add.commute add.left_commute)
  moreover have "[k..<?n] = k # [Suc k..<?n]" using k by (simp add: upt_conv_Cons)
  ultimately show ?case using p w1 w' by simp
qed

lemma length_encode_frames: "reliable c packets readPackets \<Longrightarrow> length (encode_frames c e fs) = length fs"
proof (induction fs arbitrary: e)
  case (Cons f fs)
  obtain p e' where "encodeFrame c e f = Inr (p, e')" using reliable_frame [OF Cons.prems] by blast
  with Cons show ?case by simp
qed simp

text \<open>
  When the libraries do not fail, encoding returns, and the Ogg stream has the two header
  packets and then one packet per full frame of 480 samples, in order: each frame's granule
  position counts the samples up to its end plus the pre-skip, only the first header begins the
  stream, and only the last frame ends it. A tail shorter than a frame is dropped, and audio
  shorter than one frame gives a stream that is never ended.
\<close>

lemma encode_written:
  assumes "reliable c packets readPackets"
  shows "\<exists>d hd tags e0 e. newEncoder c sampleRate channels = Inr e0 \<and>
    setBitrate c e0 opusBitrate = Inr e \<and> encodePCMToOggOpus c pcm = Return d \<and>
    readPackets d = [\<lparr>pkData = hd, pkGranule = 0, pkBOS = True, pkEOS = False\<rparr>,
      \<lparr>pkData = tags, pkGranule = 0, pkBOS = False, pkEOS = False\<rparr>]
      @ map (frame_packet (length pcm div 480))
          (enumerate 0 (encode_frames c e (map (frame pcm) [0..<length pcm div 480])))"
proof -
  obtain e0 where e0: "newEncoder c sampleRate channels = Inr e0"
    using assms unfolding reliable_def by blast
  obtain e where e: "setBitrate c e0 opusBitrate = Inr e"
    using assms unfolding reliable_def by blast
  obtain hd where hd: "buildHead c \<lparr>Version = 1, Channels = channels, PreSkip = preSkip,
      InputSampleRate = sampleRate, ChannelMappingFamily = 0\<rparr> = Inr hd"
    using assms unfolding reliable_def by blast
  obtain tags where tags: "buildTags c ''whisper-link'' = Inr tags"
    using assms unfolding reliable_def by blast
  have w0: "packets (newWriter c 0x57485052) = []" using assms unfolding reliable_def by blast
  obtain w1 where w1: "writePacket c (newWriter c 0x57485052) hd 0 True False = Inr w1"
    "packets w1 = [\<lparr>pkData = hd, pkGranule = 0, pkBOS = True, pkEOS = False\<rparr>]"
    using reliable_write [OF assms, of "newWriter c 0x57485052" hd 0 True False] w0 by auto
  obtain w2 where w2: "writePacket c w1 tags 0 False False = Inr w2"
    "packets w2 = packets w1 @ [\<lparr>pkData = tags, pkGranule = 0, pkBOS = False, pkEOS = False\<rparr>]"
    using reliable_write [OF assms, of w1 tags 0 False False] by auto
  obtain w3 where w3: "encode_loop c pcm 0 0 e w2 = Return w3"
    "packets w3 = packets w2 @ map (frame_packet (length pcm div frameSize))
        (enumerate 0 (encode_frames c e (map (frame pcm) [0..<length pcm div frameSize])))"
    using encode_loop_packets [OF assms, of 0 pcm e w2] by auto
  obtain w where w: "flush c w3 = Inr w" "readPackets (bufBytes c w) = packets w3"
    using assms unfolding reliable_def by blast
  have "encodePCMToOggOpus c pcm = Return (bufBytes c w)"
    using e0 e hd tags w1 w2 w3 w by (simp add: encodePCMToOggOpus_def Let_def)
  with e0 e w w1 w2 w3 show ?thesis by (auto simp: frameSize_def)
qed

section \<open>Properties\<close>

text \<open>
  Stripping the WAV header never panics and always ends: whatever the bytes, the chunk sizes
  in them included, it returns a part of the data.
\<close>

theorem strip_total: "\<exists>s a b. stripWAVHeader d = Return s \<and> d = a @ s @ b"
proof (cases "length d < 12 \<or> take 4 d \<noteq> ascii ''RIFF''")
  case True
  then have "stripWAVHeader d = Return d \<and> d = [] @ d @ []" by (simp add: stripWAVHeader_def)
  then show ?thesis by blast
next
  case False
  then show ?thesis using wav_loop_part [of d 12] by (simp add: stripWAVHeader_def)
qed

text \<open>
  On a WAV file, any chunks of other kinds first, odd-sized ones padded, the result is the
  payload of the data chunk; when the file is cut short, or its size field is too large as in a
  streamed file, what there is of it.
\<close>

theorem strip_wav:
  assumes "length hdr = 8" and "\<forall>c \<in> set cs. other_chunk c" and "n < 2 ^ 32"
  shows "stripWAVHeader (ascii ''RIFF'' @ hdr @ concat (map riff_chunk cs) @ ascii ''data'' @ le4 n @ tail)
    = Return (take n tail)"
  using wav_loop_chunks [OF assms(3,2), of "ascii ''RIFF'' @ hdr" tail] assms(1)
  by (simp add: stripWAVHeader_def)

definition demo_wav :: bytes where
  "demo_wav = ascii ''RIFF'' @ [0, 0, 0, 0] @ ascii ''WAVE'' @ riff_chunk (ascii ''note'', [7])
     @ ascii ''data'' @ le4 (2 ^ 32 - 1) @ [1, 2]"

theorem strip_wav_witness: "stripWAVHeader demo_wav = Return [1, 2]"
proof -
  have "stripWAVHeader (ascii ''RIFF'' @ ([0, 0, 0, 0] @ ascii ''WAVE'')
      @ concat (map riff_chunk [(ascii ''note'', [7])]) @ ascii ''data'' @ le4 (2 ^ 32 - 1) @ [1, 2])
    = Return (take (2 ^ 32 - 1) [1, 2])"
    by (rule strip_wav) (simp_all add: other_chunk_def ascii_def)
  then show ?thesis by (simp add: demo_wav_def)
qed

text \<open>
  The samples come back: parsing their little-endian bytes gives the same 16-bit samples, and
  an odd number of bytes is the only error.
\<close>

theorem samples_roundtrip:
  "parsePCM16 (concat (map le16 ss)) = Return ss \<and> (go_ok (parsePCM16 d) \<longleftrightarrow> even (length d))"
  using parse_samples [of ss] parse_returns [of d]
  by (cases "even (length d)") (simp_all add: parsePCM16_def odd_iff_mod_2_eq_one)

text \<open>
  A codec whose writer holds every packet back until it is flushed: the packets written out, and
  the packets pending.
\<close>

definition list_codec :: "(unit, packet list \<times> packet list) codec" where
  "list_codec = \<lparr>newEncoder = \<lambda>r ch. Inr (), setBitrate = \<lambda>e b. Inr e,
     encodeFrame = \<lambda>e f. Inr ([word_of_nat (length f)], e), buildHead = \<lambda>h. Inr (ascii ''OpusHead''),
     buildTags = \<lambda>v. Inr (ascii v), newWriter = \<lambda>s. ([], []),
     writePacket = \<lambda>(out, pending) p g b e.
       Inr (out, pending @ [\<lparr>pkData = p, pkGranule = g, pkBOS = b, pkEOS = e\<rparr>]),
     flush = \<lambda>(out, pending). Inr (out @ pending, []), bufBytes = \<lambda>(out, _). concat (map pkData out)\<rparr>"

text \<open>
  From the prompt to the samples: if the service answers with a WAV file or with bare PCM of
  some samples, generation returns these samples.
\<close>

theorem generated_samples:
  assumes "\<And>req. gen req = Inr (Some [Some (Some [Some \<lparr>partText = t, partInline = Some blob\<rparr>])])"
    and "stripWAVHeader blob = Return (concat (map le16 ss))"
  shows "GeneratePCM24kFromPrompt gen client prompt = Return ss"
  by (simp add: GeneratePCM24kFromPrompt_def assms first_part_def parse_samples)

theorem generated_samples_witness:
  "GeneratePCM24kFromPrompt
     (\<lambda>req. Inr (Some [Some (Some [Some \<lparr>partText = '''', partInline = Some (le16 5 @ le16 (-1))\<rparr>])]))
     \<lparr>ttsModel = defaultTTSModel\<rparr> ''hello'' = Return [5, -1]"
  by (rule generated_samples [of _ "''''" "le16 5 @ le16 (-1)"])
    (simp_all add: stripWAVHeader_def le16_def)

end
