(* ===== verification/WsSession.thy ===== *)
theory WsSession
  imports Callsign Registry ConvLog Gemini Split TtsStream Tts
begin

text \<open>
  A WebSocket session, \<open>app/wl-game-server/ws_session.go\<close>: commands and responses, the login that
  issues a callsign to the player and one to a peer, the clean-up that gives them back, and the
  reply of a peer to a message.

  The first part is sequential, each method one function; the second lets the goroutines of all
  sessions interleave at the operations on the callsign manager and the registry, which are the
  critical sections of the code.
\<close>

section \<open>Commands and responses\<close>

record wsCommand =
  cmdType :: gostring

record wsResponse =
  respType :: gostring
  respCallsign :: gostring
  respPeerCallsigns :: "gostring list"
  respError :: gostring

definition store_command :: "gostring \<Rightarrow> json \<Rightarrow> wsCommand \<Rightarrow> wsCommand \<times> bool" where
  "store_command k v c =
     (if field_matches ''type'' k then
        (case store_string v (cmdType c) of (s, ok) \<Rightarrow> (c\<lparr>cmdType := s\<rparr>, ok))
      else (c, True))"

text \<open>\<open>json.Marshal\<close> of a response: the fields in order, empty ones left out but the type.\<close>

definition response_json :: "wsResponse \<Rightarrow> json" where
  "response_json r = JObject
     ([(''type'', JString (respType r))]
      @ (if respCallsign r = '''' then [] else [(''callsign'', JString (respCallsign r))])
      @ (if respPeerCallsigns r = [] then []
         else [(''peer_callsigns'', JArray (map JString (respPeerCallsigns r)))])
      @ (if respError r = '''' then [] else [(''error'', JString (respError r))]))"

section \<open>The session\<close>

text \<open>
  \<open>outbox\<close> are the texts handed to \<open>conn.WriteMessage\<close>; a failed write is only logged.
\<close>

record wsSession =
  scenario :: Scenario
  callsign :: gostring
  peerCallsigns :: "gostring list"
  personaByCallsign :: "gostring \<rightharpoonup> Persona"
  outbox :: "gostring list"

definition newWSSession :: "Scenario \<Rightarrow> wsSession" where
  "newWSSession sc = \<lparr>scenario = sc, callsign = '''', peerCallsigns = [],
     personaByCallsign = Map.empty, outbox = []\<rparr>"

definition sendJSON :: "wsResponse \<Rightarrow> wsSession \<Rightarrow> wsSession" where
  "sendJSON r s = s\<lparr>outbox := outbox s @ [marshal (response_json r)]\<rparr>"

definition sendError :: "gostring \<Rightarrow> wsSession \<Rightarrow> wsSession" where
  "sendError msg s = sendJSON \<lparr>respType = ''error'', respCallsign = '''', respPeerCallsigns = [],
     respError = msg\<rparr> s"

definition login_response :: "wsSession \<Rightarrow> wsResponse" where
  "login_response s = \<lparr>respType = ''login'', respCallsign = callsign s,
     respPeerCallsigns = peerCallsigns s, respError = ''''\<rparr>"

text \<open>\<open>for idx, peer := range s.peerCallsigns\<close>: the characters in the order of issue.\<close>

definition assign_personas :: "wsSession \<Rightarrow> wsSession" where
  "assign_personas s = s\<lparr>personaByCallsign :=
     fold (\<lambda>(idx, peer) m. m(peer \<mapsto> PersonaFor (scenario s) idx)) (enumerate 0 (peerCallsigns s))
       (personaByCallsign s)\<rparr>"

text \<open>The callsign manager and the registry all sessions share.\<close>

record shared =
  callsigns :: CallsignManager
  registry :: SessionRegistry

definition handleLogin :: "session_id \<Rightarrow> shared \<times> wsSession \<Rightarrow> shared \<times> wsSession" where
  "handleLogin me = (\<lambda>(sh, s).
     if callsign s \<noteq> '''' then (sh, sendJSON (login_response s) s)
     else case Issue (callsigns sh) of
       ((cs, False), cm) \<Rightarrow> (sh\<lparr>callsigns := cm\<rparr>, sendError ''no callsign available'' s)
     | ((cs, True), cm) \<Rightarrow>
         (let s = s\<lparr>callsign := cs\<rparr>
          in case Issue cm of
            ((peerCS, False), cm) \<Rightarrow>
              (sh\<lparr>callsigns := Release cs cm\<rparr>,
               sendError ''no peer callsign available'' (s\<lparr>callsign := ''''\<rparr>))
          | ((peerCS, True), cm) \<Rightarrow>
              (let s = assign_personas (s\<lparr>peerCallsigns := [peerCS]\<rparr>);
                   rg = fold (\<lambda>peer. Register peer me) (peerCallsigns s)
                          (Register (callsign s) me (registry sh))
               in (\<lparr>callsigns = cm, registry = rg\<rparr>, sendJSON (login_response s) s))))"

text \<open>The deferred clean-up: each callsign back to the pool, then out of the registry.\<close>

definition cleanup :: "shared \<times> wsSession \<Rightarrow> shared \<times> wsSession" where
  "cleanup = (\<lambda>(sh, s).
     (fold (\<lambda>cs sh. if cs = '''' then sh
                    else sh\<lparr>callsigns := Release cs (callsigns sh), registry := Unregister cs (registry sh)\<rparr>)
        (callsign s # peerCallsigns s) sh, s))"

text \<open>
  \<open>ReadMessage\<close> gives a message, with whether the context is done after it was handled, or fails.
\<close>

datatype ws_event = ReadMsg gostring bool | ReadErr

definition handle_command :: "session_id \<Rightarrow> gostring \<Rightarrow> shared \<times> wsSession \<Rightarrow> shared \<times> wsSession" where
  "handle_command me msg = (\<lambda>(sh, s).
     case unmarshal store_command msg \<lparr>cmdType = ''''\<rparr> of
       (cmd, False) \<Rightarrow> (sh, sendError ''invalid JSON'' s)
     | (cmd, True) \<Rightarrow>
         if cmdType cmd = ''login'' then handleLogin me (sh, s)
         else (sh, sendError (''unknown command type: '' @ cmdType cmd) s))"

text \<open>
  A message that does not parse continues with the next read; only after a command is the context
  looked at.
\<close>

fun run_loop :: "session_id \<Rightarrow> ws_event list \<Rightarrow> shared \<times> wsSession \<Rightarrow> shared \<times> wsSession" where
  "run_loop me [] st = st"
| "run_loop me (ReadErr # evs) st = cleanup st"
| "run_loop me (ReadMsg msg ctxDone # evs) st =
     (let st' = handle_command me msg st
      in if ctxDone \<and> snd (unmarshal store_command msg \<lparr>cmdType = ''''\<rparr>) then cleanup st'
         else run_loop me evs st')"

section \<open>A peer's reply\<close>

text \<open>
  What a call meets outside: the language model, the processor, the outcome of generating and
  encoding the speech of each chunk, the scheduling of the stream and its id, the context's error.
\<close>

record 'pcm env =
  eGen :: genai
  eProc :: GeminiProcessor
  eSpeech :: "nat \<Rightarrow> gostring \<Rightarrow> gostring + 'pcm"
  eEncode :: "'pcm \<Rightarrow> gostring + bytes"
  eSched :: sched
  eUuid :: gostring
  eCtxErr :: gostring

definition stream_result :: "'pcm env \<Rightarrow> stream_end \<Rightarrow> unit go" where
  "stream_result ev e =
     (case e of
        Finished \<Rightarrow> Return ()
      | OutOfRange \<Rightarrow> Panic ''runtime error: index out of range''
      | _ \<Rightarrow> Error (eCtxErr ev))"

text \<open>Splitting the answer returns no error; a panic in it would end the call before any packet.\<close>

definition speak_answer :: "'pcm env \<Rightarrow> gostring \<Rightarrow> unit go \<times> outgoingAudio list" where
  "speak_answer ev answer =
     (case splitAnswerForTTS answer of
        Error e \<Rightarrow> (Error e, [])
      | Panic p \<Rightarrow> (Panic p, [])
      | Return chunks \<Rightarrow>
          (let buildPrompt = (\<lambda>text. sprintf ttsPromptTemplateS4CQ [text])
           in case streamTTSChunks (eSched ev) (eUuid ev) (eSpeech ev) (eEncode ev) chunks buildPrompt of
                (e, out) \<Rightarrow> (stream_result ev e, out)))"

text \<open>The result, the log afterwards, and the packets put on the send channel.\<close>

text \<open>\<open>s.personaByCallsign[cs]\<close>: the zero \<open>Persona\<close> for a callsign that is not in the map.\<close>

definition session_persona :: "wsSession \<Rightarrow> gostring \<Rightarrow> Persona" where
  "session_persona s cs =
     (case personaByCallsign s cs of Some p \<Rightarrow> p | None \<Rightarrow> zeroPersona)"

definition HandleMessage ::
  "'pcm env \<Rightarrow> wsSession \<Rightarrow> TranscriptionItem \<Rightarrow> ConversationLog
     \<Rightarrow> unit go \<times> ConversationLog \<times> outgoingAudio list" where
  "HandleMessage ev s item lg =
     (let persona = session_persona s (receiver item)
      in case GenerateReply (eGen ev) (eProc ev) persona (receiver item) (Render lg) of
           Error e \<Rightarrow> (Error (''GenerateReply: '' @ e), lg, [])
         | Panic p \<Rightarrow> (Panic p, lg, [])
         | Return answer \<Rightarrow>
             (let lg = Append \<lparr>Sender = receiver item, Receiver = sender item, Message = answer\<rparr> lg
              in case speak_answer ev answer of (r, out) \<Rightarrow> (r, lg, out)))"

end
