(* ===== verification/Dispatcher.thy ===== *)
theory Dispatcher
  imports WsSession
begin

text \<open>
  The dispatcher of the game server, \<open>app/wl-game-server/dispatcher.go\<close>: each transcribed utterance
  is logged, then handed to the session registered for its receiver, else to the handler of that
  callsign, else to the fallback. The handlers that \<open>main\<close> registers are the constructors of
  \<open>handler\<close>; what they put on the send channel is collected in order.
\<close>

section \<open>Handlers\<close>

datatype handler = SystemHandler | S4CAHandler | S4CQHandler | EchoHandler

text \<open>
  A call's surroundings: those of a session (\<open>env\<close>), the outcome of \<open>GenerateOggOpus\<close> as a
  function of its prompt, whether a send finds the context done, the registry at the time of the
  lookup, and the sessions it leads to.
\<close>

record 'pcm call_env =
  cEnv :: "'pcm env"
  cOggOpus :: "gostring \<Rightarrow> bytes go"
  cSendDone :: bool
  cRegistry :: SessionRegistry
  cSession :: "session_id \<Rightarrow> wsSession"

type_synonym outcome = "unit go \<times> outgoingAudio list"

text \<open>\<open>select\<close> of sending one packet and \<open>ctx.Done()\<close>.\<close>

definition send_one :: "'pcm call_env \<Rightarrow> outgoingAudio \<Rightarrow> outcome" where
  "send_one ce out =
     (if cSendDone ce then (Error (eCtxErr (cEnv ce)), []) else (Return (), [out]))"

text \<open>The echo of text: a failure to generate is logged, and processing goes on.\<close>

definition S4CA_Handle :: "'pcm call_env \<Rightarrow> TranscriptionItem \<Rightarrow> outcome" where
  "S4CA_Handle ce item =
     (case cOggOpus ce (sprintf ttsPromptTemplate [sender item, message item]) of
        Return oggData \<Rightarrow> send_one ce (oneshot oggData)
      | Error e \<Rightarrow> (Return (), [])
      | Panic p \<Rightarrow> (Panic p, []))"

definition S4CQ_Handle :: "'pcm call_env \<Rightarrow> TranscriptionItem \<Rightarrow> outcome" where
  "S4CQ_Handle ce item =
     (let ev = cEnv ce
      in case Ask (eGen ev) (eProc ev) (sender item) (receiver item) (message item) of
           Return answer \<Rightarrow> speak_answer ev answer
         | Error e \<Rightarrow> (Return (), [])
         | Panic p \<Rightarrow> (Panic p, []))"

definition Echo_Handle :: "'pcm call_env \<Rightarrow> bytes \<Rightarrow> outcome" where
  "Echo_Handle ce audioData = send_one ce (oneshot audioData)"

definition Handle :: "handler \<Rightarrow> 'pcm call_env \<Rightarrow> TranscriptionItem \<Rightarrow> gostring \<Rightarrow> bytes \<Rightarrow> outcome" where
  "Handle h ce item response audioData =
     (case h of
        SystemHandler \<Rightarrow> (Return (), [])
      | S4CAHandler \<Rightarrow> S4CA_Handle ce item
      | S4CQHandler \<Rightarrow> S4CQ_Handle ce item
      | EchoHandler \<Rightarrow> Echo_Handle ce audioData)"

section \<open>The dispatcher\<close>

text \<open>\<open>hasRegistry\<close> and \<open>sharedLog\<close> are pointers that may be nil.\<close>

record Dispatcher =
  handlers :: "gostring \<rightharpoonup> handler"
  fallback :: handler
  hasRegistry :: bool
  sharedLog :: "ConversationLog option"

definition NewDispatcher :: "bool \<Rightarrow> ConversationLog option \<Rightarrow> Dispatcher" where
  "NewDispatcher hasReg lg = \<lparr>handlers = Map.empty, fallback = SystemHandler,
     hasRegistry = hasReg, sharedLog = lg\<rparr>"

definition registerHandler :: "gostring \<Rightarrow> handler \<Rightarrow> Dispatcher \<Rightarrow> Dispatcher" where
  "registerHandler cs h d = d\<lparr>handlers := (handlers d)(cs \<mapsto> h)\<rparr>"

definition item_entry :: "TranscriptionItem \<Rightarrow> ConversationEntry" where
  "item_entry i = \<lparr>Sender = sender i, Receiver = receiver i, Message = message i\<rparr>"

definition log_item :: "TranscriptionItem \<Rightarrow> Dispatcher \<Rightarrow> Dispatcher" where
  "log_item i d = (case sharedLog d of None \<Rightarrow> d | Some l \<Rightarrow> d\<lparr>sharedLog := Some (Append (item_entry i) l)\<rparr>)"

text \<open>
  The session an utterance goes to. The log the sessions write to is the dispatcher's: \<open>main\<close> hands
  the same pointer to both, and with a nil log a session's \<open>Render\<close> panics.
\<close>

definition dispatch_item ::
  "'pcm call_env \<Rightarrow> TranscriptionItem \<Rightarrow> gostring \<Rightarrow> bytes \<Rightarrow> Dispatcher
     \<Rightarrow> unit go \<times> Dispatcher \<times> outgoingAudio list" where
  "dispatch_item ce item response audioData d =
     (let d = log_item item d
      in case (if hasRegistry d then Lookup (cRegistry ce) (receiver item) else None) of
           Some i \<Rightarrow>
             (case sharedLog d of
                None \<Rightarrow> (Panic nil_deref, d, [])
              | Some l \<Rightarrow>
                  (case HandleMessage (cEnv ce) (cSession ce i) item l of
                     (r, l', out) \<Rightarrow> (r, d\<lparr>sharedLog := Some l'\<rparr>, out)))
         | None \<Rightarrow>
             (let h = (case handlers d (receiver item) of Some h \<Rightarrow> h | None \<Rightarrow> fallback d)
              in case Handle h ce item response audioData of (r, out) \<Rightarrow> (r, d, out)))"

text \<open>The loop over the items; \<open>envs k\<close> are the surroundings of the call for item \<open>k\<close>.\<close>

fun dispatch_loop ::
  "(nat \<Rightarrow> 'pcm call_env) \<Rightarrow> nat \<Rightarrow> TranscriptionItem list \<Rightarrow> gostring \<Rightarrow> bytes \<Rightarrow> Dispatcher
     \<Rightarrow> unit go \<times> Dispatcher \<times> outgoingAudio list" where
  "dispatch_loop envs k [] response audioData d = (Return (), d, [])"
| "dispatch_loop envs k (item # items) response audioData d =
     (case dispatch_item (envs k) item response audioData d of
        (Return u, d', out) \<Rightarrow>
          (case dispatch_loop envs (Suc k) items response audioData d' of
             (r, d'', out') \<Rightarrow> (r, d'', out @ out'))
      | (r, d', out) \<Rightarrow> (r, d', out))"

definition Dispatch ::
  "(nat \<Rightarrow> 'pcm call_env) \<Rightarrow> TranscriptionResult \<Rightarrow> gostring \<Rightarrow> bytes \<Rightarrow> Dispatcher
     \<Rightarrow> unit go \<times> Dispatcher \<times> outgoingAudio list" where
  "Dispatch envs result response audioData d =
     dispatch_loop envs 0 (slice_elems (Items result)) response audioData d"

text \<open>The dispatcher \<open>main\<close> builds, with the shared log without a window.\<close>

definition main_dispatcher :: Dispatcher where
  "main_dispatcher = registerHandler ''S4CQ'' S4CQHandler (registerHandler ''S4CA'' S4CAHandler
     (registerHandler ''S4CE'' EchoHandler (NewDispatcher True (Some (NewConversationLog 0)))))"

section \<open>What a dispatched item does to the log\<close>

definition unlimited :: "Dispatcher \<Rightarrow> ConversationEntry list \<Rightarrow> bool" where
  "unlimited d es \<longleftrightarrow> sharedLog d = Some \<lparr>entries = es, maxEntries = 0\<rparr>"

lemma Append_unlimited [simp]:
  "Append e \<lparr>entries = es, maxEntries = 0\<rparr> = \<lparr>entries = es @ [e], maxEntries = 0\<rparr>"
  by (simp add: Append_def Let_def)

text \<open>What a session adds: its reply, if there is one.\<close>

definition reply_entry :: "TranscriptionItem \<Rightarrow> gostring \<Rightarrow> ConversationEntry" where
  "reply_entry i a = \<lparr>Sender = receiver i, Receiver = sender i, Message = a\<rparr>"

text \<open>
  The session an utterance goes to, if any, and what the session \<open>k\<close> answers when the log holds
  \<open>es\<close>: what the language model returns for the request with its character and the whole log.
\<close>

definition addressee :: "Dispatcher \<Rightarrow> 'pcm call_env \<Rightarrow> TranscriptionItem \<Rightarrow> session_id option" where
  "addressee d ce i = (if hasRegistry d then Lookup (cRegistry ce) (receiver i) else None)"

definition session_answer ::
  "'pcm call_env \<Rightarrow> session_id \<Rightarrow> TranscriptionItem \<Rightarrow> ConversationEntry list \<Rightarrow> gostring go" where
  "session_answer ce k i es =
     GenerateReply (eGen (cEnv ce)) (eProc (cEnv ce)) (session_persona (cSession ce k) (receiver i))
       (receiver i) (Render \<lparr>entries = es, maxEntries = 0\<rparr>)"

lemma session_answer_nonempty: "session_answer ce k i es = Return a \<Longrightarrow> a \<noteq> ''''"
  by (auto simp: session_answer_def GenerateReply_def Let_def text_answer_def first_part_def
      go_bind_Return_iff split: sum.splits option.splits list.splits if_splits)

lemma HandleMessage_log:
  assumes "HandleMessage (cEnv ce) (cSession ce k) i \<lparr>entries = es, maxEntries = 0\<rparr> = (r, l, out)"
  shows "(\<exists>a. session_answer ce k i es = Return a \<and>
      l = \<lparr>entries = es @ [reply_entry i a], maxEntries = 0\<rparr> \<and> (r, out) = speak_answer (cEnv ce) a) \<or>
    \<not> go_ok (session_answer ce k i es) \<and> l = \<lparr>entries = es, maxEntries = 0\<rparr> \<and> r \<noteq> Return () \<and> out = []"
  using assms
  by (cases "session_answer ce k i es")
    (auto simp: HandleMessage_def session_answer_def reply_entry_def Let_def split: prod.splits)

lemma log_item_unlimited: "unlimited d es \<Longrightarrow> unlimited (log_item i d) (es @ [item_entry i])"
  by (simp add: unlimited_def log_item_def)

lemma log_item_fields [simp]:
  "handlers (log_item i d) = handlers d" "fallback (log_item i d) = fallback d"
  "hasRegistry (log_item i d) = hasRegistry d"
  by (simp_all add: log_item_def split: option.splits)

lemma dispatch_item_fields:
  "dispatch_item ce i resp au d = (r, d', out) \<Longrightarrow>
   handlers d' = handlers d \<and> fallback d' = fallback d \<and> hasRegistry d' = hasRegistry d"
  by (auto simp: dispatch_item_def Let_def split: option.splits prod.splits)

text \<open>An item that is dispatched without an error adds its utterance and the answer of its session.\<close>

definition replies_of ::
  "Dispatcher \<Rightarrow> 'pcm call_env \<Rightarrow> TranscriptionItem \<Rightarrow> ConversationEntry list
     \<Rightarrow> ConversationEntry list \<Rightarrow> bool" where
  "replies_of d ce i es rs =
     (case addressee d ce i of
        None \<Rightarrow> rs = []
      | Some k \<Rightarrow> \<exists>a. session_answer ce k i (es @ [item_entry i]) = Return a \<and> rs = [reply_entry i a])"

lemma dispatch_item_log:
  assumes "dispatch_item ce i resp au d = (r, d', out)" and "unlimited d es"
  shows "\<exists>rs. unlimited d' (es @ item_entry i # rs) \<and> (r = Return () \<longrightarrow> replies_of d ce i es rs)"
proof (cases "addressee d ce i")
  case None
  then have "d' = log_item i d"
    using assms(1) by (auto simp: addressee_def dispatch_item_def Let_def split: prod.splits)
  with None log_item_unlimited [OF assms(2)] show ?thesis
    by (intro exI [of _ "[]"]) (simp add: replies_of_def)
next
  case (Some k)
  then obtain l' where
    l: "HandleMessage (cEnv ce) (cSession ce k) i \<lparr>entries = es @ [item_entry i], maxEntries = 0\<rparr>
      = (r, l', out)" and d': "d' = (log_item i d)\<lparr>sharedLog := Some l'\<rparr>"
    using assms(1) log_item_unlimited [OF assms(2), of i]
    by (auto simp: addressee_def dispatch_item_def Let_def unlimited_def split: prod.splits)
  show ?thesis
    using HandleMessage_log [OF l] Some
    by (cases "session_answer ce k i (es @ [item_entry i])")
      (auto simp: replies_of_def unlimited_def d')
qed

lemma replies_of_iff:
  "replies_of d ce i es rs \<longleftrightarrow>
     (case (if hasRegistry d then Lookup (cRegistry ce) (receiver i) else None) of
        None \<Rightarrow> rs = []
      | Some k \<Rightarrow> \<exists>a. a \<noteq> '''' \<and> session_answer ce k i (es @ [item_entry i]) = Return a \<and>
          rs = [\<lparr>Sender = receiver i, Receiver = sender i, Message = a\<rparr>])"
  unfolding replies_of_def addressee_def reply_entry_def
  using session_answer_nonempty [of ce _ i] by (auto split: option.split)

text \<open>The utterances, each with the entries that follow it.\<close>

abbreviation exchanges ::
  "TranscriptionItem list \<Rightarrow> ConversationEntry list list \<Rightarrow> ConversationEntry list" where
  "exchanges items replies \<equiv> concat (map2 (\<lambda>i rs. item_entry i # rs) items replies)"

lemma replies_of_cong:
  "hasRegistry d' = hasRegistry d \<Longrightarrow> replies_of d' ce i es rs \<longleftrightarrow> replies_of d ce i es rs"
  by (simp add: replies_of_def addressee_def)

lemma dispatch_loop_log:
  "dispatch_loop envs k items resp au d = (Return u, d', out) \<Longrightarrow> unlimited d es \<Longrightarrow>
   \<exists>replies. length replies = length items \<and> unlimited d' (es @ exchanges items replies) \<and>
     (\<forall>j < length items. replies_of d (envs (k + j)) (items ! j)
        (es @ exchanges (take j items) (take j replies)) (replies ! j))"
proof (induction items arbitrary: k d es out)
  case (Cons i items)
  obtain d1 out1 out2 where i: "dispatch_item (envs k) i resp au d = (Return u, d1, out1)"
    "dispatch_loop envs (Suc k) items resp au d1 = (Return u, d', out2)"
    using Cons.prems(1) by (auto split: prod.splits go.splits)
  obtain rs where rs: "unlimited d1 (es @ item_entry i # rs)" "replies_of d (envs k) i es rs"
    using dispatch_item_log [OF i(1) Cons.prems(2)] by auto
  obtain rss where rss: "length rss = length items"
    "unlimited d' ((es @ item_entry i # rs) @ exchanges items rss)"
    "\<forall>j < length items. replies_of d1 (envs (Suc k + j)) (items ! j)
        ((es @ item_entry i # rs) @ exchanges (take j items) (take j rss)) (rss ! j)"
    using Cons.IH [OF i(2) rs(1)] by blast
  have "replies_of d (envs (k + j)) ((i # items) ! j)
      (es @ exchanges (take j (i # items)) (take j (rs # rss))) ((rs # rss) ! j)" if "j < Suc (length items)" for j
  proof (cases j)
    case 0
    then show ?thesis using rs(2) by simp
  next
    case (Suc m)
    then show ?thesis
      using rss(3) [rule_format, of m] that dispatch_item_fields [OF i(1)]
      by (simp add: replies_of_cong [of d1 d])
  qed
  with rss show ?case by (intro exI [of _ "rs # rss"]) simp
qed simp

section \<open>The characters of a logged-in session\<close>

lemma login_session:
  assumes "handleLogin i (h, newWSSession sc) = (h', s)" and "callsign s \<noteq> ''''"
    and "callsign_inv (callsigns h)"
  shows "\<exists>p. peerCallsigns s = [p] \<and> p \<noteq> callsign s \<and>
    personaByCallsign s = [p \<mapsto> PersonaFor sc 0] \<and>
    Lookup (registry h') (callsign s) = Some i \<and> Lookup (registry h') p = Some i"
proof -
  obtain a cm where a: "Issue (callsigns h) = ((a, True), cm)"
    using assms(1,2) by (cases "Issue (callsigns h)")
      (auto simp: handleLogin_def newWSSession_def sendError_def sendJSON_def split: bool.splits)
  obtain b cm' where b: "Issue cm = ((b, True), cm')"
    using assms(1,2) a by (cases "Issue cm")
      (auto simp: handleLogin_def newWSSession_def sendError_def sendJSON_def split: bool.splits)
  have "a \<noteq> b" using callsigns.granted_twice [OF assms(3) a b] by simp
  with assms(1) a b show ?thesis
    by (auto simp: handleLogin_def newWSSession_def sendJSON_def assign_personas_def registry_laws)
qed

definition ascii_item :: "TranscriptionItem" where
  "ascii_item = \<lparr>receiver = ''S4AB'', sender = ''S4DE'', message = ''hello''\<rparr>"

text \<open>Surroundings in which the service answers \<open>a\<close> to every request and speech is made of \<open>d\<close>.\<close>

definition demo_env :: "gostring \<Rightarrow> bytes \<Rightarrow> unit call_env" where
  "demo_env a d = \<lparr>cEnv = \<lparr>eGen = \<lambda>req. text_reply a, eProc = demo_processor,
       eSpeech = \<lambda>i p. Inr (), eEncode = \<lambda>u. Inr d,
       eSched = \<lparr>ready = \<lambda>i j. True, cancel_get = \<lambda>i. False, cancel_send = \<lambda>i. False\<rparr>,
       eUuid = ''u'', eCtxErr = ''context canceled''\<rparr>,
     cOggOpus = \<lambda>p. Return d, cSendDone = False,
     cRegistry = Register ''S4AB'' 0 NewSessionRegistry, cSession = \<lambda>i. newWSSession defaultScenario\<rparr>"

section \<open>Properties\<close>

text \<open>
  C14. The shared log is complete, exact and in order: after a dispatch that returned, it holds what it
  held before, then for each item its utterance, followed by nothing when no session is registered
  for the receiver at that moment, and otherwise by exactly one entry, from the receiver to the
  sender, with the text the language model answers when it is asked with the receiver's character and
  the log so far, this utterance included. Every utterance is logged, whoever it is for.
\<close>

theorem dispatch_logs:
  assumes "Dispatch envs result resp au d = (Return (), d', out)" and "unlimited d es"
    and "items = slice_elems (Items result)"
  shows "\<exists>replies. length replies = length items \<and>
    unlimited d' (es @ concat (map2 (\<lambda>i rs. item_entry i # rs) items replies)) \<and>
    (\<forall>j < length items.
       case (if hasRegistry d then Lookup (cRegistry (envs j)) (receiver (items ! j)) else None) of
         None \<Rightarrow> replies ! j = []
       | Some k \<Rightarrow> \<exists>a. a \<noteq> '''' \<and>
           session_answer (envs j) k (items ! j)
             (es @ concat (map2 (\<lambda>i rs. item_entry i # rs) (take j items) (take j replies))
                @ [item_entry (items ! j)]) = Return a \<and>
           replies ! j = [\<lparr>Sender = receiver (items ! j), Receiver = sender (items ! j), Message = a\<rparr>])"
  using dispatch_loop_log [of envs 0 items resp au d "()" d' out es] assms
  unfolding Dispatch_def replies_of_iff add_0 append_assoc by blast

definition test_item :: TranscriptionItem where
  "test_item = \<lparr>receiver = ''S4CE'', sender = ''S4DE'', message = ''test''\<rparr>"

text \<open>Two utterances, the first for a session that is registered, the second for the echo service.\<close>

theorem dispatch_logs_witness:
  "\<exists>d' out r0 r1.
    Dispatch (\<lambda>k. demo_env ''roger'' [1]) \<lparr>Items = \<lparr>backing = [ascii_item, test_item], slen = 2\<rparr>\<rparr>
      ''OK'' [5] main_dispatcher = (Return (), d', out) \<and>
    unlimited d' ([item_entry ascii_item] @ r0 @ [item_entry test_item] @ r1) \<and>
    r0 = [\<lparr>Sender = ''S4AB'', Receiver = ''S4DE'', Message = ''roger''\<rparr>] \<and> r1 = []"
proof -
  let ?res = "\<lparr>Items = \<lparr>backing = [ascii_item, test_item], slen = 2\<rparr>\<rparr>"
  have answer: "session_answer (demo_env ''roger'' [1]) k i es = Return ''roger''" for k i es
    by (simp add: session_answer_def GenerateReply_def demo_env_def text_answer_def text_reply_def
        first_part_def Let_def)
  let ?ce = "demo_env ''roger'' [1]"
  have quiet: "no_cancel (eSched (cEnv ?ce))" by (simp add: no_cancel_def demo_env_def)
  obtain out0 where sp: "speak_answer (cEnv ?ce) ''roger'' = (Return (), out0)"
    by (simp add: speak_answer_def split_returns stream_result_def Let_def case_prod_unfold
        streamTTSChunks_finishes [OF quiet])
  define l1 where "l1 = \<lparr>entries = [item_entry ascii_item, reply_entry ascii_item ''roger''], maxEntries = 0\<rparr>"
  have reg: "Lookup (cRegistry ?ce) ''S4AB'' = Some 0" "Lookup (cRegistry ?ce) ''S4CE'' = None"
    by (simp_all add: demo_env_def registry_laws)
  have "HandleMessage (cEnv ?ce) (cSession ?ce 0) ascii_item
      \<lparr>entries = [item_entry ascii_item], maxEntries = 0\<rparr> = (Return (), l1, out0)"
    using answer [of 0 ascii_item "[item_entry ascii_item]"] sp
    by (simp add: HandleMessage_def session_answer_def l1_def reply_entry_def)
  then have "dispatch_item ?ce ascii_item ''OK'' [5] main_dispatcher =
      (Return (), main_dispatcher\<lparr>sharedLog := Some l1\<rparr>, out0)"
    using reg by (simp add: dispatch_item_def log_item_def main_dispatcher_def registerHandler_def
        NewDispatcher_def NewConversationLog_def ascii_item_def Let_def)
  moreover obtain d' out1 where
    "dispatch_item ?ce test_item ''OK'' [5] (main_dispatcher\<lparr>sharedLog := Some l1\<rparr>) = (Return (), d', out1)"
    using reg by (simp add: dispatch_item_def log_item_def main_dispatcher_def registerHandler_def
        NewDispatcher_def test_item_def Let_def Handle_def Echo_Handle_def send_one_def demo_env_def)
  ultimately have disp: "Dispatch (\<lambda>k. ?ce) ?res ''OK'' [5] main_dispatcher = (Return (), d', out0 @ out1)"
    by (simp add: Dispatch_def slice_elems_def)
  have items: "[ascii_item, test_item] = slice_elems (Items ?res)" by (simp add: slice_elems_def)
  have m: "unlimited main_dispatcher []" "hasRegistry main_dispatcher"
    by (simp_all add: unlimited_def main_dispatcher_def registerHandler_def NewDispatcher_def
        NewConversationLog_def)
  obtain replies where r: "length replies = length [ascii_item, test_item]"
    "unlimited d' ([] @ exchanges [ascii_item, test_item] replies)"
    and each: "\<And>j. j < length [ascii_item, test_item] \<Longrightarrow>
      case (if hasRegistry main_dispatcher
            then Lookup (cRegistry ?ce) (receiver ([ascii_item, test_item] ! j)) else None) of
        None \<Rightarrow> replies ! j = []
      | Some k \<Rightarrow> \<exists>a. a \<noteq> '''' \<and> session_answer ?ce k ([ascii_item, test_item] ! j)
          ([] @ exchanges (take j [ascii_item, test_item]) (take j replies)
             @ [item_entry ([ascii_item, test_item] ! j)]) = Return a \<and>
          replies ! j = [\<lparr>Sender = receiver ([ascii_item, test_item] ! j),
            Receiver = sender ([ascii_item, test_item] ! j), Message = a\<rparr>]"
    using dispatch_logs [OF disp, of "[]" "[ascii_item, test_item]"] items m by blast
  have "replies ! 0 = [\<lparr>Sender = ''S4AB'', Receiver = ''S4DE'', Message = ''roger''\<rparr>]"
    using each [of 0] reg m(2)
    by (simp add: answer) (simp add: ascii_item_def answer)
  moreover have "replies ! 1 = []"
    using each [of 1] reg m(2) by (simp add: test_item_def)
  ultimately have r': "replies ! 0 = [\<lparr>Sender = ''S4AB'', Receiver = ''S4DE'', Message = ''roger''\<rparr>]"
    "replies ! 1 = []" by auto
  obtain r0 r1 where "replies = [r0, r1]"
    using r(1) by (auto simp: numeral_2_eq_2 length_Suc_conv)
  with r r' disp show ?thesis by auto
qed

text \<open>
  A session that logged in is registered under its own callsign and its peer's, and only the peer
  has a character. A message to the player's own callsign is answered all the same, with a system
  instruction that starts with the error text \<open>fmt.Sprintf\<close> prints for an empty format.
\<close>

theorem login_characters:
  assumes "handleLogin i (h, newWSSession sc) = (h', s)" and "callsign s \<noteq> ''''"
    and "callsign_inv (callsigns h)"
  shows "\<exists>p. peerCallsigns s = [p] \<and> p \<noteq> callsign s \<and>
    Lookup (registry h') (callsign s) = Some i \<and> Lookup (registry h') p = Some i \<and>
    session_persona s p = PersonaFor sc 0 \<and>
    SystemInstruction (session_persona s (callsign s)) (callsign s) =
      ''%!(EXTRA string='' @ callsign s @ '')'' @ [newline] @ baseInstructionRules"
proof -
  obtain p where "peerCallsigns s = [p] \<and> p \<noteq> callsign s \<and>
    personaByCallsign s = [p \<mapsto> PersonaFor sc 0] \<and>
    Lookup (registry h') (callsign s) = Some i \<and> Lookup (registry h') p = Some i"
    using login_session [OF assms] by blast
  then show ?thesis
    by (intro exI [of _ p]) (simp only: session_persona_def fun_upd_apply SystemInstruction_zero
        if_True if_False option.case simp_thms eq_commute [of p] refl)
qed

theorem login_characters_witness:
  "\<exists>h' s p. handleLogin 0 (\<lparr>callsigns = NewCallsignManager id ''S4'', registry = NewSessionRegistry\<rparr>,
      newWSSession defaultScenario) = (h', s) \<and>
    peerCallsigns s = [p] \<and> Lookup (registry h') p = Some 0"
proof -
  let ?h = "\<lparr>callsigns = NewCallsignManager id ''S4'', registry = NewSessionRegistry\<rparr>"
  obtain h' s where l: "handleLogin 0 (?h, newWSSession defaultScenario) = (h', s)"
    by (metis surj_pair)
  have "pool (NewCallsignManager id ''S4'') \<noteq> [] \<and> butlast (pool (NewCallsignManager id ''S4'')) \<noteq> []"
  proof -
    have "length (pool (NewCallsignManager id ''S4'')) = 132"
      using mset_shuffle [of id "buildPool ''S4''"] unfolding NewCallsignManager_def
      by (metis CallsignManager.select_convs(2) size_mset length_buildPool)
    then have "length (butlast (pool (NewCallsignManager id ''S4''))) = 131" by simp
    with \<open>length (pool (NewCallsignManager id ''S4'')) = 132\<close> show ?thesis
      by (intro conjI notI) simp_all
  qed
  moreover have "last (pool (NewCallsignManager id ''S4'')) \<noteq> ''''"
    using pool_nonempty_string [OF new_manager_inv, of id "''S4''"] calculation
    by (metis UnI1 free_def last_in_set)
  ultimately have "callsign s \<noteq> ''''"
    using l by (auto simp: handleLogin_def newWSSession_def Issue_def Let_def sendJSON_def assign_personas_def)
  from login_characters [OF l this] new_manager_inv l show ?thesis by auto
qed

text \<open>
  C32. The reply of a peer: an utterance for a registered callsign is logged first, the language model is
  then asked with the whole log, the new utterance as its last line, and its answer is logged and
  spoken as one stream.
\<close>

theorem peer_replies:
  assumes "unlimited d es" and "hasRegistry d" and "Lookup (cRegistry ce) (receiver i) = Some k"
    and "eGen (cEnv ce) (text_request (ReasoningModel (procCfg (eProc (cEnv ce))))
        (SystemInstruction (session_persona (cSession ce k) (receiver i)) (receiver i))
        (generateReplyPromptTemplate_0 @ receiver i @ generateReplyPromptTemplate_1
          @ join_lines (map render_entry (es @ [item_entry i])) @ generateReplyPromptTemplate_2
          @ receiver i @ generateReplyPromptTemplate_3)) = text_reply a"
    and "a \<noteq> ''''"
  shows "case dispatch_item ce i resp au d of (r, d', out) \<Rightarrow>
    unlimited d' (es @ [item_entry i, reply_entry i a]) \<and> (r, out) = speak_answer (cEnv ce) a"
proof -
  have "GenerateReply (eGen (cEnv ce)) (eProc (cEnv ce)) (session_persona (cSession ce k) (receiver i))
      (receiver i) (Render \<lparr>entries = es @ [item_entry i], maxEntries = 0\<rparr>) = Return a"
    using assms(4,5)
    by (simp add: GenerateReply_def generateReplyPromptTemplate_def sprintf_plain sprintf_text
        reply_template Render_join text_answer_def text_reply_def first_part_def)
  with assms(1,2,3) show ?thesis
    by (simp add: dispatch_item_def HandleMessage_def unlimited_def log_item_def reply_entry_def
        Let_def split: prod.splits)
qed

theorem peer_replies_witness:
  "case dispatch_item (demo_env ''roger'' [1]) ascii_item ''OK'' [] main_dispatcher of (r, d', out) \<Rightarrow>
    unlimited d' ([] @ [item_entry ascii_item, reply_entry ascii_item ''roger'']) \<and>
    (r, out) = speak_answer (cEnv (demo_env ''roger'' [1])) ''roger''"
  by (rule peer_replies)
    (simp_all add: demo_env_def ascii_item_def registry_laws main_dispatcher_def registerHandler_def
      NewDispatcher_def unlimited_def NewConversationLog_def)

end
