(* ===== verification/Bridge.thy ===== *)
theory Bridge
  imports Dispatcher
begin

text \<open>
  The gRPC client of the game server, \<open>app/wl-game-server/bridge_client.go\<close>: connecting again and
  again, sending the queued packets, receiving recordings and handling them one at a time. The
  connection itself (gRPC) is outside; what each of its calls returns is an event.
\<close>

section \<open>Reconnecting\<close>

record RadioBridgeConfig =
  Host :: gostring
  Port :: int
  ReconnectIntervalSecs :: int
  MaxReconnectAttempts :: int

text \<open>
  One turn of the loop: whether the context has an error before it, what \<open>connect\<close> returns, whether
  the context has one after it, and whether the wait for the interval ends by the context.
\<close>

record attempt =
  ctxBefore :: bool
  connResult :: "gostring option"
  ctxAfter :: bool
  ctxInWait :: bool

datatype run_end = CtxErr | MaxAttempts gostring

definition max_error :: "int \<Rightarrow> gostring" where
  "max_error n = ''max reconnect attempts ('' @ dec (nat n) @ '') reached''"

text \<open>
  \<open>Run\<close> with the number of attempts so far; the result, if it returns within the turns given, and
  the number of connections made.
\<close>

fun run_bridge :: "RadioBridgeConfig \<Rightarrow> int \<Rightarrow> attempt list \<Rightarrow> run_end option \<times> nat" where
  "run_bridge cfg attempts [] = (None, 0)"
| "run_bridge cfg attempts (a # as) =
     (if ctxBefore a then (Some CtxErr, 0)
      else if ctxAfter a then (Some CtxErr, 1)
      else let attempts = attempts + 1
           in if MaxReconnectAttempts cfg > 0 \<and> attempts \<ge> MaxReconnectAttempts cfg
              then (Some (MaxAttempts (max_error (MaxReconnectAttempts cfg))), 1)
              else if ctxInWait a then (Some CtxErr, 1)
              else case run_bridge cfg attempts as of (r, n) \<Rightarrow> (r, Suc n))"

section \<open>One connection\<close>

definition audio_chunk :: "outgoingAudio \<Rightarrow> AudioChunk" where
  "audio_chunk out = \<lparr>OggOpusData = Data out, ChunkStatus = Status out, ChunkStreamId = StreamID out\<rparr>"

text \<open>
  The sending goroutine: each turn takes a packet from the channel, whose \<open>Send\<close> succeeds or fails,
  or finds the connection's context done. The chunks sent, and the packets taken but not sent.
\<close>

datatype send_event = TakeOut outgoingAudio bool | SendCtxDone

fun send_loop :: "send_event list \<Rightarrow> AudioChunk list \<times> outgoingAudio list" where
  "send_loop [] = ([], [])"
| "send_loop (SendCtxDone # evs) = ([], [])"
| "send_loop (TakeOut out ok # evs) =
     (if ok then (case send_loop evs of (cs, lost) \<Rightarrow> (audio_chunk out # cs, lost))
      else ([], [out]))"

text \<open>
  The receive loop: what \<open>stream.Recv\<close> returns with whether the context has an error by then, and
  whether handing the data to the handler finds the context done.
\<close>

datatype bridge_recv = BRecvChunk AudioChunk | BRecvEOF | BRecvError gostring

fun bridge_recv_loop :: "(bridge_recv \<times> bool \<times> bool) list \<Rightarrow> unit go option \<times> bytes list" where
  "bridge_recv_loop [] = (None, [])"
| "bridge_recv_loop ((r, ctxErr, handDone) # evs) =
     (if r = BRecvEOF \<or> ctxErr then (Some (Return ()), [])
      else case r of
             BRecvError e \<Rightarrow> (Some (Error (''stream.Recv: '' @ e)), [])
           | BRecvChunk c \<Rightarrow>
               if handDone then (Some (Return ()), [])
               else (case bridge_recv_loop evs of (res, ds) \<Rightarrow> (res, OggOpusData c # ds))
           | BRecvEOF \<Rightarrow> (Some (Return ()), []))"

text \<open>
  \<open>connect\<close>: the set-up steps that may fail, then the receive loop; the audio that reaches the handler
  goroutine, in order.
\<close>

definition connect ::
  "gostring option \<Rightarrow> gostring option \<Rightarrow> (bridge_recv \<times> bool \<times> bool) list
     \<Rightarrow> unit go option \<times> bytes list" where
  "connect newClientErr connectErr evs =
     (case newClientErr of
        Some e \<Rightarrow> (Some (Error (''grpc.NewClient: '' @ e)), [])
      | None \<Rightarrow>
          (case connectErr of
             Some e \<Rightarrow> (Some (Error (''client.Connect: '' @ e)), [])
           | None \<Rightarrow> bridge_recv_loop evs))"

section \<open>Handling a recording\<close>

text \<open>
  \<open>gen\<close> and \<open>envs\<close> are the surroundings of the transcription and of the dispatched calls. Errors are
  logged; only a panic leaves the function.
\<close>

definition handleAudio ::
  "genai \<Rightarrow> GeminiProcessor \<Rightarrow> (nat \<Rightarrow> 'pcm call_env) \<Rightarrow> bytes \<Rightarrow> Dispatcher
     \<Rightarrow> unit go \<times> Dispatcher \<times> outgoingAudio list" where
  "handleAudio gen proc envs audio d =
     (case Transcribe gen proc audio of
        Error e \<Rightarrow> (Return (), d, [])
      | Panic p \<Rightarrow> (Panic p, d, [])
      | Return result \<Rightarrow>
          (case Reason result of
             Error e \<Rightarrow> (Return (), d, [])
           | Panic p \<Rightarrow> (Panic p, d, [])
           | Return response \<Rightarrow>
               (case Dispatch envs result response audio d of
                  (Panic p, d', out) \<Rightarrow> (Panic p, d', out)
                | (r, d', out) \<Rightarrow> (Return (), d', out))))"

section \<open>Facts\<close>

definition alive :: "attempt \<Rightarrow> bool" where
  "alive a \<longleftrightarrow> \<not> ctxBefore a \<and> \<not> ctxAfter a \<and> \<not> ctxInWait a"

lemma run_bridge_limit:
  "\<forall>a \<in> set as. alive a \<Longrightarrow> 0 \<le> k \<Longrightarrow> k < MaxReconnectAttempts cfg \<Longrightarrow>
   nat (MaxReconnectAttempts cfg - k) \<le> length as \<Longrightarrow>
   run_bridge cfg k as =
     (Some (MaxAttempts (max_error (MaxReconnectAttempts cfg))), nat (MaxReconnectAttempts cfg - k))"
proof (induction as arbitrary: k)
  case (Cons a as)
  show ?case
  proof (cases "k + 1 \<ge> MaxReconnectAttempts cfg")
    case True
    with Cons.prems have "MaxReconnectAttempts cfg - k = 1" by simp
    with True Cons.prems show ?thesis by (simp add: alive_def Let_def)
  next
    case False
    then have "nat (MaxReconnectAttempts cfg - k) = Suc (nat (MaxReconnectAttempts cfg - (k + 1)))"
      by simp
    with False Cons show ?thesis by (simp add: alive_def Let_def)
  qed
qed simp

lemma run_bridge_unlimited:
  "\<forall>a \<in> set as. alive a \<Longrightarrow> MaxReconnectAttempts cfg \<le> 0 \<Longrightarrow> run_bridge cfg k as = (None, length as)"
  by (induction as arbitrary: k) (simp_all add: alive_def Let_def)


section \<open>Properties\<close>

text \<open>
  With a positive limit and a context that is never done, the client makes exactly that many
  connections and then returns the error, whatever became of each of them: an attempt that
  connected and served for a long time counts like one that failed, the counter is never reset.
  Without a limit it connects again and again.
\<close>

theorem reconnect_limit:
  assumes "\<forall>a \<in> set as. alive a"
  shows "(0 < MaxReconnectAttempts cfg \<and> MaxReconnectAttempts cfg \<le> int (length as) \<longrightarrow>
      run_bridge cfg 0 as = (Some (MaxAttempts (max_error (MaxReconnectAttempts cfg))),
        nat (MaxReconnectAttempts cfg))) \<and>
    (MaxReconnectAttempts cfg \<le> 0 \<longrightarrow> run_bridge cfg 0 as = (None, length as))"
  using run_bridge_limit [OF assms, of 0 cfg] run_bridge_unlimited [OF assms, of cfg 0] by auto

definition served :: attempt where
  "served = \<lparr>ctxBefore = False, connResult = None, ctxAfter = False, ctxInWait = False\<rparr>"

theorem reconnect_limit_witness:
  "run_bridge \<lparr>Host = ''h'', Port = 50051, ReconnectIntervalSecs = 5, MaxReconnectAttempts = 2\<rparr> 0
     [served, served, served] = (Some (MaxAttempts (max_error 2)), 2)"
  using reconnect_limit [of "[served, served, served]"
      "\<lparr>Host = ''h'', Port = 50051, ReconnectIntervalSecs = 5, MaxReconnectAttempts = 2\<rparr>"]
  by (simp add: alive_def served_def)

end
