(* ===== verification/SendPlay.thy ===== *)
theory SendPlay
  imports EmuServer Bridge "HOL-Library.Sublist"
begin

text \<open>
  From the send channel of the game server to the speaker of the emulator: one answer received by an
  idle emulator, and any number of answers whose packets arrive interleaved, while the playback
  goroutine runs between the arrivals.
\<close>

section \<open>From the send channel to the speaker\<close>

text \<open>What the emulator receives when the bridge client sends these packets on one connection.\<close>

definition received :: "outgoingAudio list \<Rightarrow> (recv \<times> bool) list" where
  "received ps = map (\<lambda>o'. (RecvChunk (audio_chunk o'), False)) ps"

definition entry_of :: "outgoingAudio \<Rightarrow> playerEntry" where
  "entry_of p = \<lparr>data = Data p, status = Status p\<rparr>"

definition on_stream :: "gostring \<Rightarrow> outgoingAudio \<Rightarrow> bool" where
  "on_stream sid p \<longleftrightarrow> StreamID p = sid \<and> is_stream_status (Status p)"

lemma receive_stream:
  "\<forall>p \<in> set ps. on_stream sid p \<Longrightarrow> sid \<noteq> '''' \<Longrightarrow>
   recv_loop (received ps) (n, q) = (None, (n, pq.enq_all sid (map entry_of ps) q))"
proof (induction ps arbitrary: q)
  case Nil
  show ?case by (simp add: received_def)
next
  case (Cons p ps)
  then have "receive_chunk (audio_chunk p) (n, q) = (n, push (Data p) (Status p) sid q)"
    by (cases "Status p") (auto simp: on_stream_def receive_chunk_def route_chunk_def audio_chunk_def)
  with Cons show ?case by (simp add: received_def entry_of_def)
qed

lemma stream_queued:
  assumes "\<forall>p \<in> set ps. on_stream sid p" and "sid \<noteq> ''''" and "ps \<noteq> []"
  shows "queue_of (snd (connect_recv (received ps) newPlayer)) = [(sid, map entry_of ps)]"
proof -
  have "\<forall>e \<in> set (map entry_of ps). valid_status (status e)"
  proof
    fix e assume "e \<in> set (map entry_of ps)"
    then obtain p where "p \<in> set ps" "e = entry_of p" by auto
    with assms(1) show "valid_status (status e)"
      by (cases "Status p") (auto simp: on_stream_def entry_of_def)
  qed
  then show ?thesis
    using assms pq.enq_all_new [OF newPlayer_inv assms(2), of "map entry_of ps"]
    by (simp add: connect_recv_player receive_stream)
qed

lemma stream_played:
  assumes "\<forall>p \<in> set ps. on_stream sid p" and "sid \<noteq> ''''" and "ps \<noteq> []"
  shows "fst (play_quiet (snd (connect_recv (received ps) newPlayer))) = upto_terminal (map entry_of ps)"
proof -
  let ?p = "snd (connect_recv (received ps) newPlayer)"
  have "player_inv ?p"
    using recv_loop_inv [of "(0, newPlayer)" "received ps"] newPlayer_inv by (simp add: connect_recv_player)
  from play_quiet_queue [OF this stream_queued [OF assms]] show ?thesis
    by (auto split: prod.splits)
qed

lemma upto_terminal_all:
  "\<forall>e \<in> set (butlast es). \<not> is_terminal (status e) \<Longrightarrow> upto_terminal es = es"
  by (induction es rule: upto_terminal.induct) (auto split: if_splits)

lemma stream_packets:
  assumes "no_cancel sc" and "length (chunk_audio gen enc (map bp chunks)) = length chunks"
  obtains ps where "snd (streamTTSChunks sc sid gen enc chunks bp) = ps"
    and "map Data ps = chunk_audio gen enc (map bp chunks)"
    and "map Status ps = map (\<lambda>j. chunkStatus j (Suc j < length chunks)) [0..<length chunks]"
    and "\<forall>p \<in> set ps. StreamID p = sid"
proof -
  let ?rs = "generateChunksParallel gen enc (map bp chunks)" and ?n = "length chunks"
  obtain e ps where s: "streamTTSChunks sc sid gen enc chunks bp = (e, ps)"
    by (cases "streamTTSChunks sc sid gen enc chunks bp")
  have e: "e = Finished"
    using streamTTSChunks_finishes [OF assms(1), of sid gen enc chunks bp] s by simp
  obtain st where l: "stream_loop sc sid ?rs ?n 0 (init_tts ?n) = (e, st)" and ps: "sent st = ps"
    using s by (rule streamTTSChunks_loop)
  have "\<forall>r \<in> set ?rs. succeeded r"
    using assms(2) by (intro length_filter_all) (simp add: chunk_audio_def)
  moreover have "tts_inv ?rs 0 (init_tts ?n)" using tts_inv_init [of ?rs] by simp
  ultimately have "map Status ps = map (\<lambda>j. chunkStatus j (Suc j < ?n)) [0..<?n]"
    using stream_loop_all_ok [of sc sid ?rs ?n 0 "init_tts ?n" st] l e ps
    by (simp add: init_tts_def)
  with that [of ps] streamTTSChunks_sends [OF s] s e show ?thesis by auto
qed

lemma statuses_framed:
  assumes "map Status ps = map (\<lambda>j. chunkStatus j (Suc j < n)) [0..<n]"
  shows "\<forall>p \<in> set ps. is_stream_status (Status p)"
    and "\<forall>e \<in> set (butlast (map entry_of ps)). \<not> is_terminal (status e)"
proof -
  have len: "length ps = n" using arg_cong [OF assms, of length] by simp
  have at: "Status (ps ! j) = chunkStatus j (Suc j < n)" if "j < n" for j
    using that len arg_cong [OF assms, of "\<lambda>xs. xs ! j"] by simp
  show "\<forall>p \<in> set ps. is_stream_status (Status p)"
  proof
    fix p assume "p \<in> set ps"
    then obtain j where "j < n" "p = ps ! j" using len by (auto simp: in_set_conv_nth)
    with at [of j] show "is_stream_status (Status p)" by (simp add: chunkStatus_def)
  qed
  show "\<forall>e \<in> set (butlast (map entry_of ps)). \<not> is_terminal (status e)"
  proof
    fix e assume "e \<in> set (butlast (map entry_of ps))"
    then obtain j where "j < length (butlast (map entry_of ps))" "e = butlast (map entry_of ps) ! j"
      by (metis in_set_conv_nth)
    then have "Suc j < n" "e = entry_of (ps ! j)" using len by (simp_all add: nth_butlast)
    with at [of j] show "\<not> is_terminal (status e)" by (simp add: chunkStatus_def entry_of_def)
  qed
qed

section \<open>Answers that arrive interleaved\<close>

text \<open>
  Several handlers can stream their answers at once: their packets share the send channel, so they
  arrive in some interleaving. The packets of one stream:
\<close>

definition of_stream :: "gostring \<Rightarrow> outgoingAudio list \<Rightarrow> outgoingAudio list" where
  "of_stream sid ps = filter (\<lambda>p. StreamID p = sid) ps"

lemma of_stream_simps [simp]:
  "of_stream sid [] = []"
  "of_stream sid (ps @ qs) = of_stream sid ps @ of_stream sid qs"
  "of_stream sid [p] = (if StreamID p = sid then [p] else [])"
  by (simp_all add: of_stream_def)

text \<open>A packet arrives at the emulator while its playback goroutine is at any point.\<close>

definition take_packet :: "outgoingAudio \<Rightarrow> psys \<Rightarrow> psys" where
  "take_packet p s = s\<lparr>pl := snd (receive_chunk (audio_chunk p) (0, pl s)),
     accepted := accepted s @
       (if accepts (pl s) (Status p) (StreamID p) then [(StreamID p, entry_of p)] else [])\<rparr>"

text \<open>
  A step of the playback goroutine by which it gives up a stream: its wait for the next chunk has timed
  out (\<open>waitForChunk\<close> returned false) although not all packets of the stream, \<open>full\<close>, have arrived, or
  although one has meanwhile been queued.
\<close>

definition gives_up :: "(gostring \<Rightarrow> outgoingAudio list) \<Rightarrow> outgoingAudio list \<Rightarrow> psys \<Rightarrow> psys \<Rightarrow> gostring set" where
  "gives_up full ps s t = {sid. pcv s = Waiting sid \<and> pcv t = AtRun \<and>
     \<not> (of_stream sid ps = full sid \<and> stream_chunks (pl s) sid = [])}"

text \<open>
  The emulator after the packets \<open>ps\<close> have arrived, whatever the playback did in between. \<open>G\<close> records the
  streams that were given up.
\<close>

inductive served :: "(gostring \<Rightarrow> outgoingAudio list) \<Rightarrow> outgoingAudio list \<Rightarrow> gostring set \<Rightarrow> psys \<Rightarrow> bool" for full where
  served_init: "served full [] {} init_psys"
| served_arrive: "served full ps G s \<Longrightarrow> served full (ps @ [p]) G (take_packet p s)"
| served_own: "served full ps G s \<Longrightarrow> player_step s t \<Longrightarrow> accepted t = accepted s \<Longrightarrow>
     served full ps (G \<union> gives_up full ps s t) t"

text \<open>The steps of the goroutine by itself that give up nothing.\<close>

definition on_time :: "(gostring \<Rightarrow> outgoingAudio list) \<Rightarrow> outgoingAudio list \<Rightarrow> psys \<Rightarrow> psys \<Rightarrow> bool" where
  "on_time full ps s t \<longleftrightarrow> player_step s t \<and> accepted t = accepted s \<and> gives_up full ps s t = {}"

text \<open>The streams are framed: stream packets under a non-empty id, none but the last a terminal one.\<close>

definition framed :: "(gostring \<Rightarrow> outgoingAudio list) \<Rightarrow> bool" where
  "framed full \<longleftrightarrow> (\<forall>sid. (\<forall>p \<in> set (full sid). on_stream sid p \<and> sid \<noteq> '''') \<and>
     (\<forall>e \<in> set (butlast (map entry_of (full sid))). \<not> is_terminal (status e)))"

definition part_of :: "(gostring \<Rightarrow> outgoingAudio list) \<Rightarrow> outgoingAudio list \<Rightarrow> bool" where
  "part_of full ps \<longleftrightarrow> (\<forall>sid. prefix (of_stream sid ps) (full sid))"

text \<open>
  A block of the history is one stay of a stream at the head of the queue: what was played of it and
  what was discarded when it was finished. A stream that is given up can come back, in a further block,
  when the player has forgotten that it closed it.
\<close>

type_synonym block = "gostring \<times> playerEntry list \<times> playerEntry list"

fun block_events :: "block \<Rightarrow> (gostring \<times> playerEntry \<times> bool) list" where
  "block_events (sid, es, rest) = map (\<lambda>e. (sid, e, True)) es @ map (\<lambda>e. (sid, e, False)) rest"

fun block_ok ::
  "(gostring \<Rightarrow> outgoingAudio list) \<Rightarrow> outgoingAudio list \<Rightarrow> gostring set \<Rightarrow> block \<Rightarrow> bool" where
  "block_ok full ps G (sid, es, rest) \<longleftrightarrow> sublist es (map entry_of (full sid)) \<and>
     (sid \<notin> G \<longrightarrow> es = map entry_of (full sid) \<and> rest = [] \<and> of_stream sid ps = full sid)"

text \<open>What was played of a stream since it got to the head of the queue, and what is queued of it.\<close>

definition at_hand :: "psys \<Rightarrow> (gostring \<times> playerEntry \<times> bool) list \<Rightarrow> gostring \<Rightarrow> playerEntry list" where
  "at_hand s cur sid =
     (if in_stream (pcv s) = Some sid then map (fst \<circ> snd) cur else []) @ stream_chunks (pl s) sid"

text \<open>
  The invariant: the history is the blocks \<open>D\<close> and what was played of the current stream, \<open>cur\<close>; a stream
  that was not given up is played in one block and whole, or is at hand with all that has arrived of it.
\<close>

definition served_inv ::
  "(gostring \<Rightarrow> outgoingAudio list) \<Rightarrow> outgoingAudio list \<Rightarrow> gostring set \<Rightarrow> psys \<Rightarrow> block list
     \<Rightarrow> (gostring \<times> playerEntry \<times> bool) list \<Rightarrow> bool" where
  "served_inv full ps G s D cur \<longleftrightarrow> psys_inv s \<and> closedSet (pl s) \<subseteq> fst ` set D \<and>
     distinct (filter (\<lambda>sid. sid \<notin> G) (map fst D @ order (pl s))) \<and>
     (\<forall>sid. of_stream sid ps \<noteq> [] \<longleftrightarrow> sid \<in> fst ` set D \<union> set (order (pl s))) \<and>
     (\<forall>b \<in> set D. block_ok full ps G b) \<and>
     (\<forall>sid \<in> set (order (pl s)). suffix (at_hand s cur sid) (map entry_of (of_stream sid ps)) \<and>
        (sid \<notin> G \<longrightarrow> at_hand s cur sid = map entry_of (of_stream sid ps))) \<and>
     handled s = concat (map block_events D) @ cur \<and>
     (\<forall>x \<in> set cur. in_stream (pcv s) = Some (fst x) \<and> snd (snd x)) \<and>
     (\<forall>sid e. pcv s = Playing sid e \<longrightarrow> cur \<noteq> [] \<and> last cur = (sid, e, True))"

lemma served_invD:
  assumes "served_inv full ps G s D cur"
  shows "psys_inv s" and "player_inv (pl s)" and "closedSet (pl s) \<subseteq> fst ` set D"
    and "of_stream sid ps \<noteq> [] \<longleftrightarrow> sid \<in> fst ` set D \<union> set (order (pl s))"
    and "b \<in> set D \<Longrightarrow> block_ok full ps G b"
    and "handled s = concat (map block_events D) @ cur"
    and "x \<in> set cur \<Longrightarrow> in_stream (pcv s) = Some (fst x) \<and> snd (snd x)"
    and "pcv s = Playing sid e \<Longrightarrow> cur \<noteq> [] \<and> last cur = (sid, e, True)"
  using assms by (auto simp: served_inv_def psys_inv_def)

lemma served_inv_mono:
  assumes "served_inv full ps G s D cur" and "G \<subseteq> G'"
  shows "served_inv full ps G' s D cur"
proof -
  have "filter (\<lambda>sid. sid \<notin> G') xs = filter (\<lambda>sid. sid \<notin> G') (filter (\<lambda>sid. sid \<notin> G) xs)" for xs
    using assms(2) unfolding filter_filter by (intro filter_cong) auto
  then have "distinct (filter (\<lambda>sid. sid \<notin> G') (map fst D @ order (pl s)))"
    using assms(1) unfolding served_inv_def by (metis distinct_filter)
  moreover have "block_ok full ps G' b" if "block_ok full ps G b" for b
    using that assms(2) by (cases b) auto
  ultimately show ?thesis using assms unfolding served_inv_def by blast
qed

lemma take_packet_push:
  assumes "on_stream sid p" and "sid \<noteq> ''''"
  shows "pl (take_packet p s) = push (Data p) (Status p) sid (pl s)"
  using assms by (cases "Status p")
    (auto simp: take_packet_def on_stream_def receive_chunk_def route_chunk_def audio_chunk_def)

lemma take_packet_step:
  assumes "on_stream sid p" and "sid \<noteq> ''''"
  shows "player_step s (take_packet p s)"
proof -
  have "take_packet p s = s\<lparr>pl := push (Data p) (Status p) sid (pl s), accepted := accepted s @
      (if accepts (pl s) (Status p) sid then [(sid, \<lparr>data = Data p, status = Status p\<rparr>)] else [])\<rparr>"
    using take_packet_push [OF assms, of s] assms(1)
    by (simp add: take_packet_def on_stream_def entry_of_def)
  then show ?thesis using player_step.arrive [OF assms(2)] by simp
qed

lemma order_push:
  assumes "player_inv p" and "accepts p st sid"
  shows "order (push d st sid p) = (if sid \<in> set (order p) then order p else order p @ [sid])"
  using assms by (auto simp: push_def accepts_def player_inv_def Let_def split: option.splits)

lemma served_inv_init: "served_inv full [] {} init_psys [] []"
  by (simp add: served_inv_def psys_inv_init) (simp add: init_psys_def newPlayer_def)

lemma arriving:
  assumes "part_of full (ps @ [p])"
  shows "p \<in> set (full (StreamID p))" and "of_stream (StreamID p) ps \<noteq> full (StreamID p)"
proof -
  have "prefix (of_stream (StreamID p) ps @ [p]) (full (StreamID p))"
    using assms unfolding part_of_def by (metis of_stream_simps(2,3))
  then show "p \<in> set (full (StreamID p))" and "of_stream (StreamID p) ps \<noteq> full (StreamID p)"
    by (auto simp: prefix_def)
qed

lemma block_ok_arrive:
  assumes "block_ok full ps G b" and "part_of full (ps @ [p])"
  shows "block_ok full (ps @ [p]) G b"
  using assms(1) arriving(2) [OF assms(2)] by (cases b) auto

text \<open>A packet of a stream the player has closed is dropped; the stream was given up then.\<close>

lemma served_inv_late:
  assumes "served_inv full ps G s D cur" and "framed full" and "part_of full (ps @ [p])"
    and "StreamID p \<in> closedSet (pl s)"
  shows "served_inv full (ps @ [p]) G (take_packet p s) D cur"
proof -
  let ?sid = "StreamID p"
  note i = served_invD [OF assms(1)]
  have on: "on_stream ?sid p" "?sid \<noteq> ''''" using assms(2) arriving(1) [OF assms(3)] by (auto simp: framed_def)
  have "pl (take_packet p s) = pl s"
    unfolding take_packet_push [OF on] using assms(4) by (intro push_dropped) simp
  then have same: "take_packet p s = s"
    using assms(4) by (simp add: take_packet_def accepts_def)
  have D: "?sid \<in> fst ` set D" using i(3) assms(4) by blast
  have "?sid \<notin> set (order (pl s))" using i(2) assms(4) by (auto simp: player_inv_def)
  then have other: "of_stream x (ps @ [p]) = of_stream x ps" if "x \<in> set (order (pl s))" for x
    using that by auto
  have blocks: "\<forall>b \<in> set D. block_ok full (ps @ [p]) G b"
    using i(5) block_ok_arrive [OF _ assms(3)] by blast
  have ids: "\<forall>sid. of_stream sid (ps @ [p]) \<noteq> [] \<longleftrightarrow> sid \<in> fst ` set D \<union> set (order (pl s))"
    using i(4) D by auto
  show ?thesis
    using assms(1) blocks ids other unfolding served_inv_def same by simp
qed

lemma served_inv_taken:
  assumes "served_inv full ps G s D cur" and "framed full" and "part_of full (ps @ [p])"
    and "StreamID p \<notin> closedSet (pl s)"
  shows "served_inv full (ps @ [p]) G (take_packet p s) D cur"
proof -
  let ?sid = "StreamID p" and ?t = "take_packet p s"
  note i = served_invD [OF assms(1)]
  have on: "on_stream ?sid p" "?sid \<noteq> ''''" using assms(2) arriving(1) [OF assms(3)] by (auto simp: framed_def)
  have inv: "psys_inv ?t" using player_step_inv [OF take_packet_step [OF on] i(1)] .
  have acc: "accepts (pl s) (Status p) ?sid"
    using assms(4) on(1) by (cases "Status p") (auto simp: accepts_def on_stream_def)
  have push: "pl ?t = push (Data p) (Status p) ?sid (pl s)" by (rule take_packet_push [OF on])
  have ord: "order (pl ?t) = (if ?sid \<in> set (order (pl s)) then order (pl s) else order (pl s) @ [?sid])"
    using order_push [OF i(2) acc] push by simp
  have rest: "closedSet (pl ?t) = closedSet (pl s)" "handled ?t = handled s" "pcv ?t = pcv s"
    using push by (simp_all add: take_packet_def)
  have hand: "at_hand ?t cur x = at_hand s cur x @ (if x = ?sid then [entry_of p] else [])" for x
    unfolding at_hand_def rest push push_chunks using acc by (simp add: entry_of_def)
  have new: "at_hand s cur ?sid = []" if "?sid \<notin> set (order (pl s))"
    using that i(1,2) by (auto simp: at_hand_def psys_inv_def player_inv_def stream_chunks_def dom_def split: option.splits)
  have D: "?sid \<notin> fst ` set D" if notG: "?sid \<notin> G"
  proof
    assume "?sid \<in> fst ` set D"
    then obtain es es' where "(?sid, es, es') \<in> set D" by auto
    with i(5) have "block_ok full ps G (?sid, es, es')" by blast
    with arriving(2) [OF assms(3)] notG show False by simp
  qed
  have ids: "\<forall>sid. of_stream sid (ps @ [p]) \<noteq> [] \<longleftrightarrow> sid \<in> fst ` set D \<union> set (order (pl ?t))"
    using i(4) by (auto simp: ord)
  have blocks: "\<forall>b \<in> set D. block_ok full (ps @ [p]) G b"
    using i(5) block_ok_arrive [OF _ assms(3)] by blast
  have once: "distinct (filter (\<lambda>sid. sid \<notin> G) (map fst D @ order (pl ?t)))"
    using assms(1) D unfolding served_inv_def by (auto simp: ord) (metis fst_conv image_eqI)
  have "suffix (at_hand ?t cur x) (map entry_of (of_stream x (ps @ [p]))) \<and>
        (x \<notin> G \<longrightarrow> at_hand ?t cur x = map entry_of (of_stream x (ps @ [p])))" if x: "x \<in> set (order (pl ?t))" for x
  proof (cases "x \<in> set (order (pl s))")
    case True
    with assms(1) have "suffix (at_hand s cur x) (map entry_of (of_stream x ps)) \<and>
        (x \<notin> G \<longrightarrow> at_hand s cur x = map entry_of (of_stream x ps))" by (simp add: served_inv_def)
    then show ?thesis unfolding hand by auto
  next
    case False
    with x have sid: "x = ?sid" by (auto simp: ord split: if_splits)
    with False have no: "x \<notin> G \<Longrightarrow> of_stream x ps = []" using i(4) [of x] D by blast
    show ?thesis using new False no sid unfolding hand by simp
  qed
  then show ?thesis
    using inv once ids blocks i(3,6-8) unfolding served_inv_def rest by blast
qed

lemma served_inv_arrive:
  assumes "served_inv full ps G s D cur" and "framed full" and "part_of full (ps @ [p])"
  shows "served_inv full (ps @ [p]) G (take_packet p s) D cur"
  using served_inv_late [OF assms] served_inv_taken [OF assms] by blast

text \<open>What was handled of the current stream.\<close>

lemma served_current:
  assumes "served_inv full ps G s D cur" and "in_stream (pcv s) = Some sid"
  shows "sid \<in> set (order (pl s))" and "\<forall>x \<in> set cur. fst x = sid \<and> snd (snd x)"
    and "suffix (map (fst \<circ> snd) cur @ stream_chunks (pl s) sid) (map entry_of (of_stream sid ps))"
    and "sid \<notin> G \<Longrightarrow> map (fst \<circ> snd) cur @ stream_chunks (pl s) sid = map entry_of (of_stream sid ps)"
    and "sid \<notin> G \<Longrightarrow> sid \<notin> fst ` set D"
proof -
  show ord: "sid \<in> set (order (pl s))"
    using served_invD(1) [OF assms(1)] assms(2) by (auto simp: psys_inv_def)
  show "\<forall>x \<in> set cur. fst x = sid \<and> snd (snd x)"
    using assms by (auto simp: served_inv_def)
  have hand: "at_hand s cur sid = map (fst \<circ> snd) cur @ stream_chunks (pl s) sid"
    using assms(2) by (simp add: at_hand_def)
  show "suffix (map (fst \<circ> snd) cur @ stream_chunks (pl s) sid) (map entry_of (of_stream sid ps))"
    and "sid \<notin> G \<Longrightarrow> map (fst \<circ> snd) cur @ stream_chunks (pl s) sid = map entry_of (of_stream sid ps)"
    using assms(1) ord unfolding served_inv_def hand [symmetric] by blast+
  show "sid \<notin> fst ` set D" if "sid \<notin> G"
    using assms(1) ord that by (auto simp: served_inv_def)
qed

lemma served_finish:
  assumes "served_inv full ps G s D cur" and "in_stream (pcv s) = Some sid" and "part_of full ps"
    and "sid \<in> G \<or> (of_stream sid ps = full sid \<and> stream_chunks (pl s) sid = [])"
  shows "served_inv full ps G (finish_sys s)
    (D @ [(sid, map (fst \<circ> snd) cur, stream_chunks (pl s) sid)]) []" (is "served_inv full ps G ?t (D @ [?b]) []")
proof -
  note i = served_invD [OF assms(1)] and c = served_current [OF assms(1,2)]
  obtain rest where ord: "order (pl s) = sid # rest" using i(1) assms(2) by (auto simp: psys_inv_def)
  then have cs: "currentStream (pl s) = sid" "sid \<notin> set rest"
    using i(2) by (auto simp: currentStream_def player_inv_def)
  have "map (\<lambda>e. (sid, e, True)) (map (fst \<circ> snd) cur) = cur"
    unfolding map_map using c(2) by (intro map_idI) (simp add: prod_eq_iff)
  then have events: "block_events ?b = cur @ leftover (pl s)" unfolding leftover_def by (simp add: cs)
  have fin: "order (pl ?t) = rest" "pcv ?t = AtRun" "handled ?t = handled s @ leftover (pl s)"
    "closedSet (pl ?t) \<subseteq> insert sid (closedSet (pl s))"
    using ord cs finishCurrent_closedSet [of "pl s"] by (simp_all add: finish_sys_def finishCurrent_def)
  have hand: "at_hand ?t [] x = at_hand s cur x" if "x \<in> set rest" for x
    using that cs assms(2) ord
    by (auto simp: at_hand_def finish_sys_def finishCurrent_chunks)
  have "sublist (map (fst \<circ> snd) cur @ stream_chunks (pl s) sid) (map entry_of (full sid))"
    unfolding sublist_altdef using c(3) assms(3) map_mono_prefix [of "of_stream sid ps" "full sid" entry_of]
    unfolding part_of_def by blast
  then have "sublist (map (fst \<circ> snd) cur) (map entry_of (full sid))"
    unfolding sublist_def by (metis append_assoc)
  then have block: "block_ok full ps G ?b" using assms(4) c(4) by auto
  have "psys_inv ?t" using finish_sys_inv [OF i(1) assms(2)] .
  moreover have "distinct (filter (\<lambda>sid. sid \<notin> G) (map fst (D @ [?b]) @ order (pl ?t)))"
    using assms(1) unfolding served_inv_def by (auto simp: ord fin)
  moreover have "closedSet (pl ?t) \<subseteq> fst ` set (D @ [?b])" using i(3) fin(4) by auto
  moreover have "\<forall>sid. of_stream sid ps \<noteq> [] \<longleftrightarrow> sid \<in> fst ` set (D @ [?b]) \<union> set (order (pl ?t))"
    using i(4) by (auto simp: ord fin)
  moreover have "\<forall>x \<in> set (order (pl ?t)). suffix (at_hand ?t [] x) (map entry_of (of_stream x ps)) \<and>
        (x \<notin> G \<longrightarrow> at_hand ?t [] x = map entry_of (of_stream x ps))"
    using assms(1) hand unfolding served_inv_def by (simp add: ord fin)
  moreover have "handled ?t = concat (map block_events (D @ [?b])) @ []"
    using i(6) fin(3) events by simp
  ultimately show ?thesis using i(5) block fin(2) unfolding served_inv_def by auto
qed

lemma prefix_terminal:
  assumes "prefix (xs @ e # ys) zs" and "P e" and "\<forall>z \<in> set (butlast zs). \<not> P z"
  shows "ys = [] \<and> zs = xs @ [e]"
proof -
  obtain ws where zs: "zs = (xs @ [e]) @ (ys @ ws)" using assms(1) by (auto simp: prefix_def)
  have "ys @ ws = []"
  proof (rule ccontr)
    assume "ys @ ws \<noteq> []"
    then have "butlast zs = (xs @ [e]) @ butlast (ys @ ws)" unfolding zs by (simp add: butlast_append)
    then have "e \<in> set (butlast zs)" by simp
    with assms(2,3) show False by blast
  qed
  with zs show ?thesis by simp
qed

lemma served_terminal:
  assumes "served_inv full ps G s D cur" and "framed full" and "part_of full ps"
    and "pcv s = Playing sid e" and "is_terminal (status e)"
  shows "of_stream sid ps = full sid \<and> stream_chunks (pl s) sid = []"
proof -
  have "cur \<noteq> [] \<and> last cur = (sid, e, True)" using served_invD(8) [OF assms(1,4)] .
  then have cur: "butlast cur @ [(sid, e, True)] = cur" using append_butlast_last_id [of cur] by simp
  have "map (fst \<circ> snd) (butlast cur @ [(sid, e, True)]) = map (fst \<circ> snd) cur" unfolding cur ..
  then have "map (fst \<circ> snd) cur = map (fst \<circ> snd) (butlast cur) @ [e]" by simp
  then obtain zs where parts: "map entry_of (of_stream sid ps)
      = (zs @ map (fst \<circ> snd) (butlast cur)) @ e # stream_chunks (pl s) sid"
    using served_current(3) [OF assms(1), of sid] assms(4) by (auto simp: suffix_def)
  have pre: "prefix (of_stream sid ps) (full sid)" using assms(3) by (simp add: part_of_def)
  have "prefix ((zs @ map (fst \<circ> snd) (butlast cur)) @ e # stream_chunks (pl s) sid) (map entry_of (full sid))"
    unfolding parts [symmetric] by (rule map_mono_prefix [OF pre])
  moreover have "\<forall>z \<in> set (butlast (map entry_of (full sid))). \<not> is_terminal (status z)"
    using assms(2) unfolding framed_def by blast
  ultimately have r: "stream_chunks (pl s) sid = [] \<and>
      map entry_of (full sid) = (zs @ map (fst \<circ> snd) (butlast cur)) @ [e]"
    by (rule prefix_terminal [where P = "\<lambda>e. is_terminal (status e)", OF _ assms(5)])
  with parts have "map entry_of (full sid) = map entry_of (of_stream sid ps)" by simp
  then have "length (full sid) = length (of_stream sid ps)" by (metis length_map)
  with pre r show ?thesis by (auto simp: prefix_def)
qed

text \<open>The steps between two packets: one that only moves the goroutine on, and one that takes a chunk.\<close>

lemma served_inv_move:
  assumes "served_inv full ps G s D cur" and "player_step s (s\<lparr>pl := p', pcv := pc\<rparr>)"
    and "order p' = order (pl s)" and "closedSet p' = closedSet (pl s)" and "stream_chunks p' = stream_chunks (pl s)"
    and "\<forall>sid e. pc \<noteq> Playing sid e" and "cur = [] \<or> in_stream pc = in_stream (pcv s)"
  shows "served_inv full ps G (s\<lparr>pl := p', pcv := pc\<rparr>) D cur"
proof -
  have "psys_inv (s\<lparr>pl := p', pcv := pc\<rparr>)"
    using player_step_inv [OF assms(2)] served_invD(1) [OF assms(1)] .
  moreover have "at_hand (s\<lparr>pl := p', pcv := pc\<rparr>) cur sid = at_hand s cur sid" for sid
    using assms(5,7) by (auto simp: at_hand_def)
  moreover have "\<forall>x \<in> set cur. in_stream pc = Some (fst x) \<and> snd (snd x)"
    using assms(1,7) by (auto simp: served_inv_def)
  ultimately show ?thesis using assms(1,3,4,6) unfolding served_inv_def by simp
qed

lemma served_inv_pop:
  assumes "served_inv full ps G s D cur" and "pcv s = InStream sid" and "popCurrent (pl s) = (Some e, p')"
  shows "served_inv full ps G (s\<lparr>pl := p', pcv := Playing sid e, handled := handled s @ [(sid, e, True)]\<rparr>)
    D (cur @ [(sid, e, True)])" (is "served_inv full ps G ?t D ?cur")
proof -
  note i = served_invD [OF assms(1)]
  have "psys_inv ?t"
    using player_step_inv [OF player_step.pop [OF assms(2,3)]] i(1) .
  moreover have p: "order p' = order (pl s)" "closedSet p' = closedSet (pl s)"
    using popCurrent_Some [OF assms(3)] popCurrent_closedSet [of "pl s"] assms(3) by auto
  moreover have "currentStream (pl s) = sid" using i(1) assms(2) by (auto simp: psys_inv_def currentStream_def)
  then have "at_hand ?t ?cur x = at_hand s cur x" for x
    using popCurrent_Some [OF assms(3)] assms(2) by (auto simp: at_hand_def)
  ultimately show ?thesis
    using assms(1,2) unfolding served_inv_def by simp
qed

lemma served_inv_own:
  assumes "served_inv full ps G s D cur" and "framed full" and "part_of full ps"
    and "player_step s t" and acc: "accepted t = accepted s"
  shows "\<exists>D' cur'. served_inv full ps (G \<union> gives_up full ps s t) t D' cur'"
proof -
  let ?G = "G \<union> gives_up full ps s t"
  have i: "served_inv full ps ?G s D cur" using assms(1) by (rule served_inv_mono) simp
  have same: "s\<lparr>pl := pl s, pcv := pc\<rparr> = s\<lparr>pcv := pc\<rparr>" for pc by simp
  note st = assms(4)
  from st show ?thesis
  proof (cases rule: player_step.cases)
    case (arrive sid st d)
    then have "push d st sid (pl s) = pl s"
      using acc by (intro push_dropped) (auto simp: accepts_def split: if_splits)
    then have "t = s" using arrive acc by simp
    with i show ?thesis by blast
  next
    case start
    then have "\<forall>x \<in> set cur. False" using served_invD(7) [OF i] by auto
    then have "cur = []" by (metis last_in_set)
    with start st served_inv_move [OF i, where p' = "pl s"] same show ?thesis by auto
  next
    case (pop sid e p')
    with served_inv_pop [OF i] show ?thesis by blast
  next
    case (played_last sid e)
    with served_terminal [OF i assms(2,3) played_last(2,3)] served_finish [OF i _ assms(3), of sid]
    show ?thesis by (auto simp del: is_terminal.simps)
  next
    case (played_more sid e)
    with st served_inv_move [OF i, where p' = "pl s" and pc = "InStream sid"] same show ?thesis by auto
  next
    case (ran_dry sid p')
    then have "p' = pl s" by (simp add: popCurrent_None)
    with ran_dry st served_inv_move [OF i, where p' = p' and pc = "Waiting sid"] show ?thesis by auto
  next
    case (resumed sid)
    with st served_inv_move [OF i, where p' = "pl s" and pc = "InStream sid"] same show ?thesis by auto
  next
    case (timed_out sid)
    then have "sid \<in> ?G \<or> (of_stream sid ps = full sid \<and> stream_chunks (pl s) sid = [])"
      by (auto simp: gives_up_def finish_sys_def)
    with timed_out served_finish [OF i _ assms(3), of sid] show ?thesis by auto
  qed
qed

lemma part_of_butlast: "part_of full (ps @ [p]) \<Longrightarrow> part_of full ps"
  unfolding part_of_def of_stream_simps by (blast dest: append_prefixD)

lemma served_invariant:
  "served full ps G s \<Longrightarrow> framed full \<Longrightarrow> part_of full ps \<Longrightarrow> \<exists>D cur. served_inv full ps G s D cur"
proof (induction rule: served.induct)
  case served_init
  then show ?case using served_inv_init by blast
next
  case (served_arrive ps G s p)
  then show ?case using served_inv_arrive part_of_butlast by blast
next
  case (served_own ps G s t)
  then show ?case using served_inv_own by blast
qed

text \<open>One call of \<open>streamTTSChunks\<close>: its schedule, its stream id and its arguments.\<close>

record 'pcm answer =
  aSched :: sched
  aId :: gostring
  aGen :: "nat \<Rightarrow> gostring \<Rightarrow> gostring + 'pcm"
  aEnc :: "'pcm \<Rightarrow> gostring + bytes"
  aChunks :: "gostring list"
  aPrompt :: "gostring \<Rightarrow> gostring"

definition packets_of :: "'pcm answer \<Rightarrow> outgoingAudio list" where
  "packets_of a = snd (streamTTSChunks (aSched a) (aId a) (aGen a) (aEnc a) (aChunks a) (aPrompt a))"

definition audio_of :: "'pcm answer \<Rightarrow> bytes list" where
  "audio_of a = chunk_audio (aGen a) (aEnc a) (map (aPrompt a) (aChunks a))"

text \<open>An answer that is not cancelled and whose chunks can all be spoken.\<close>

definition clean :: "'pcm answer \<Rightarrow> bool" where
  "clean a \<longleftrightarrow> no_cancel (aSched a) \<and> aId a \<noteq> '''' \<and> aChunks a \<noteq> []
     \<and> length (audio_of a) = length (aChunks a)"

definition sent_by :: "'pcm answer list \<Rightarrow> gostring \<Rightarrow> outgoingAudio list" where
  "sent_by answers sid = concat (map packets_of (filter (\<lambda>a. aId a = sid) answers))"

text \<open>The bytes that were played, in order.\<close>

definition heard :: "(gostring \<times> playerEntry \<times> bool) list \<Rightarrow> bytes list" where
  "heard h = map (\<lambda>x. data (fst (snd x))) (filter (\<lambda>x. snd (snd x)) h)"

lemma clean_packets:
  assumes "clean a"
  shows "map Data (packets_of a) = audio_of a" and "packets_of a \<noteq> []"
    and "\<forall>p \<in> set (packets_of a). on_stream (aId a) p"
    and "\<forall>e \<in> set (butlast (map entry_of (packets_of a))). \<not> is_terminal (status e)"
proof -
  have len: "length (chunk_audio (aGen a) (aEnc a) (map (aPrompt a) (aChunks a))) = length (aChunks a)"
    using assms by (simp add: clean_def audio_of_def)
  obtain ps where ps: "packets_of a = ps" "map Data ps = audio_of a"
    "map Status ps = map (\<lambda>j. chunkStatus j (Suc j < length (aChunks a))) [0..<length (aChunks a)]"
    "\<forall>p \<in> set ps. StreamID p = aId a"
    using stream_packets [OF _ len, of "aSched a" "aId a"] assms
    by (auto simp: clean_def packets_of_def audio_of_def)
  show "map Data (packets_of a) = audio_of a" using ps by simp
  then show "packets_of a \<noteq> []" using assms by (auto simp: clean_def)
  show "\<forall>p \<in> set (packets_of a). on_stream (aId a) p"
    using ps(1,4) statuses_framed(1) [OF ps(3)] by (simp add: on_stream_def)
  show "\<forall>e \<in> set (butlast (map entry_of (packets_of a))). \<not> is_terminal (status e)"
    using ps(1) statuses_framed(2) [OF ps(3)] by simp
qed

lemma sent_by_answer:
  assumes "distinct (map aId answers)"
  shows "a \<in> set answers \<Longrightarrow> sent_by answers (aId a) = packets_of a"
    and "sid \<notin> aId ` set answers \<Longrightarrow> sent_by answers sid = []"
proof -
  have "sid \<notin> aId ` set bs \<Longrightarrow> sent_by bs sid = []" for bs :: "'a answer list" and sid
    by (induction bs) (auto simp: sent_by_def)
  note none = this
  then show "sid \<notin> aId ` set answers \<Longrightarrow> sent_by answers sid = []" .
  show "a \<in> set answers \<Longrightarrow> sent_by answers (aId a) = packets_of a"
    using assms
  proof (induction answers)
    case (Cons b bs)
    show ?case
    proof (cases "a = b")
      case True
      with Cons.prems none [of "aId a" bs] show ?thesis by (simp add: sent_by_def)
    next
      case False
      with Cons show ?thesis by (auto simp: sent_by_def)
    qed
  qed simp
qed

lemma sent_by_framed:
  assumes "distinct (map aId answers)" and "\<forall>a \<in> set answers. clean a"
  shows "framed (sent_by answers)"
  unfolding framed_def
proof (intro allI)
  fix sid
  show "(\<forall>p \<in> set (sent_by answers sid). on_stream sid p \<and> sid \<noteq> '''') \<and>
     (\<forall>e \<in> set (butlast (map entry_of (sent_by answers sid))). \<not> is_terminal (status e))"
  proof (cases "sid \<in> aId ` set answers")
    case True
    then obtain a where a: "a \<in> set answers" "sid = aId a" by blast
    with assms(2) have "clean a" by blast
    moreover have "sent_by answers sid = packets_of a" using sent_by_answer(1) [OF assms(1) a(1)] a(2) by simp
    ultimately show ?thesis using clean_packets(3,4) [of a] a(2) by (simp add: clean_def)
  qed (simp add: sent_by_answer(2) [OF assms(1)])
qed

section \<open>All of it is played\<close>

text \<open>Once everything has arrived, the goroutine's own steps empty the queue without giving up anything.\<close>

fun rank :: "player \<Rightarrow> pc \<Rightarrow> nat" where
  "rank p AtRun = 2"
| "rank p (InStream sid) = 1"
| "rank p (Playing sid e) = 2"
| "rank p (Waiting sid) = (if stream_chunks p sid = [] then 0 else 2)"

definition todo :: "psys \<Rightarrow> nat" where
  "todo s = 3 * pq.load (pl s) + rank (pl s) (pcv s)"

lemma finish_todo:
  assumes "psys_inv s" and "in_stream (pcv s) = Some sid"
  shows "todo (finish_sys s) < todo s"
proof -
  have "player_inv (pl s)" "queue_of (pl s) \<noteq> []" using assms by (auto simp: psys_inv_def queue_of_def)
  from pq.finish_load [OF this] show ?thesis by (simp add: todo_def finish_sys_def)
qed

lemma on_time_progress:
  assumes "served_inv full ps G s D cur" and "\<forall>sid. of_stream sid ps = full sid"
    and "order (pl s) \<noteq> []"
  shows "\<exists>t. on_time full ps s t \<and> todo t < todo s"
proof -
  have inv: "psys_inv s" using assms(1) by (rule served_invD(1))
  obtain sid rest where ord: "order (pl s) = sid # rest" using assms(3) by (cases "order (pl s)") auto
  then have cs: "currentStream (pl s) = sid" "sid \<noteq> ''''" "sid \<notin> set rest"
    using inv by (auto simp: currentStream_def psys_inv_def player_inv_def)
  have here: "in_stream (pcv s) = Some x \<Longrightarrow> x = sid" for x
    using inv ord by (auto simp: psys_inv_def)
  show ?thesis
  proof (cases "pcv s")
    case AtRun
    then have "player_step s (s\<lparr>pcv := InStream sid\<rparr>)"
      using player_step.start [of s] cs ord by (simp add: hasStream_def)
    with AtRun show ?thesis by (auto simp: on_time_def gives_up_def todo_def)
  next
    case (InStream x)
    then have x: "pcv s = InStream sid" using here by simp
    show ?thesis
    proof (cases "popCurrent (pl s)")
      case (Pair r p')
      show ?thesis
      proof (cases r)
        case None
        then have "p' = pl s" "stream_chunks (pl s) sid = []"
          using Pair cs popCurrent_None [of "pl s" p'] by (auto simp: popCurrent_def Let_def split: list.splits)
        moreover have "player_step s (s\<lparr>pl := p', pcv := Waiting sid\<rparr>)"
          using x Pair None by (auto intro: player_step.ran_dry)
        ultimately show ?thesis
          using x by (intro exI [of _ "s\<lparr>pl := p', pcv := Waiting sid\<rparr>"]) (auto simp: on_time_def gives_up_def todo_def)
      next
        case (Some e)
        let ?t = "s\<lparr>pl := p', pcv := Playing sid e, handled := handled s @ [(sid, e, True)]\<rparr>"
        have "player_inv (pl s)" using inv by (simp add: psys_inv_def)
        then have "pq.load p' < pq.load (pl s)" using Pair Some by (intro pq.deq_load) simp_all
        then have "todo ?t < todo s" using x by (simp add: todo_def)
        moreover have "player_step s ?t" using x Pair Some by (auto intro: player_step.pop)
        ultimately show ?thesis using x by (intro exI [of _ ?t]) (simp add: on_time_def gives_up_def)
      qed
    qed
  next
    case (Playing x e)
    then have x: "pcv s = Playing sid e" using here by simp
    show ?thesis
    proof (cases "is_terminal (status e)")
      case True
      with x have "player_step s (finish_sys s)" by (intro player_step.played_last)
      then show ?thesis
        using x finish_todo [OF inv, of sid]
        by (intro exI [of _ "finish_sys s"]) (simp add: on_time_def gives_up_def finish_sys_def)
    next
      case False
      with x have "player_step s (s\<lparr>pcv := InStream sid\<rparr>)" by (intro player_step.played_more)
      with x show ?thesis
        by (intro exI [of _ "s\<lparr>pcv := InStream sid\<rparr>"]) (simp add: on_time_def gives_up_def todo_def)
    qed
  next
    case (Waiting x)
    then have x: "pcv s = Waiting sid" using here by simp
    show ?thesis
    proof (cases "stream_chunks (pl s) sid = []")
      case True
      from x have "player_step s (finish_sys s)" by (rule player_step.timed_out)
      then show ?thesis
        using x True assms(2) finish_todo [OF inv, of sid]
        by (intro exI [of _ "finish_sys s"]) (simp add: on_time_def gives_up_def finish_sys_def)
    next
      case False
      then have "currentHasChunk (pl s)" using cs by (simp add: currentHasChunk_def Let_def)
      with x have "player_step s (s\<lparr>pcv := InStream sid\<rparr>)" by (intro player_step.resumed)
      with x False show ?thesis
        by (intro exI [of _ "s\<lparr>pcv := InStream sid\<rparr>"]) (simp add: on_time_def gives_up_def todo_def)
    qed
  qed
qed

lemma served_on_time:
  assumes "served full ps G s" and "on_time full ps s t"
  shows "served full ps G t"
  using served_own [OF assms(1), of t] assms(2) by (simp add: on_time_def)

lemma served_drains:
  assumes "served full ps G s" and "framed full" and "\<forall>sid. of_stream sid ps = full sid"
  shows "\<exists>t. (on_time full ps)\<^sup>*\<^sup>* s t \<and> served full ps G t \<and> order (pl t) = []"
  using assms(1)
proof (induction "todo s" arbitrary: s rule: less_induct)
  case less
  show ?case
  proof (cases "order (pl s) = []")
    case True
    with less show ?thesis by blast
  next
    case False
    have "part_of full ps" using assms(3) by (simp add: part_of_def)
    then obtain D cur where "served_inv full ps G s D cur"
      using served_invariant [OF less.prems assms(2)] by blast
    then obtain t where t: "on_time full ps s t" "todo t < todo s"
      using on_time_progress [OF _ assms(3) False] by blast
    then obtain u where "(on_time full ps)\<^sup>*\<^sup>* t u \<and> served full ps G u \<and> order (pl u) = []"
      using less.hyps [OF t(2)] served_on_time [OF less.prems] by blast
    with t(1) show ?thesis by (blast intro: converse_rtranclp_into_rtranclp)
  qed
qed

section \<open>Property\<close>

text \<open>
  What is sent of some answers, piece by piece, when the streams \<open>G\<close> were given up: every piece is a
  contiguous part of an answer, and it is the whole answer, sent once, unless its stream was given up.
\<close>

definition one_by_one :: "'pcm answer list \<Rightarrow> gostring set \<Rightarrow> ('pcm answer \<times> bytes list) list \<Rightarrow> bool" where
  "one_by_one answers G aired \<longleftrightarrow> distinct (filter (\<lambda>a. aId a \<notin> G) (map fst aired)) \<and>
     (\<forall>(a, xs) \<in> set aired. a \<in> set answers \<and> sublist xs (audio_of a) \<and> (aId a \<notin> G \<longrightarrow> xs = audio_of a))"

text \<open>The answer with an id, and the pieces the blocks stand for.\<close>

definition answer_with :: "'pcm answer list \<Rightarrow> gostring \<Rightarrow> 'pcm answer" where
  "answer_with answers sid = hd (filter (\<lambda>a. aId a = sid) answers)"

definition pieces_of :: "'pcm answer list \<Rightarrow> block list \<Rightarrow> ('pcm answer \<times> bytes list) list" where
  "pieces_of answers D = map (\<lambda>(sid, es, rest). (answer_with answers sid, map data es)) D"

lemma answer_with_id:
  assumes "sid \<in> aId ` set answers"
  shows "answer_with answers sid \<in> set answers" and "aId (answer_with answers sid) = sid"
proof -
  have "filter (\<lambda>a. aId a = sid) answers \<noteq> []" using assms by (auto simp: filter_empty_conv)
  then have "hd (filter (\<lambda>a. aId a = sid) answers) \<in> set (filter (\<lambda>a. aId a = sid) answers)" by (rule hd_in_set)
  then show "answer_with answers sid \<in> set answers" and "aId (answer_with answers sid) = sid"
    by (simp_all add: answer_with_def)
qed

lemma answer_with_own:
  assumes "distinct (map aId answers)" and "a \<in> set answers"
  shows "answer_with answers (aId a) = a"
  using answer_with_id [of "aId a" answers] assms by (metis distinct_map image_eqI inj_onD)

lemma pieces_members: "fst ` set (pieces_of answers D) = answer_with answers ` fst ` set D"
  by (force simp: pieces_of_def)

lemma heard_simps [simp]:
  "heard [] = []" "heard (h @ h') = heard h @ heard h'" "heard (block_events (sid, es, rest)) = map data es"
  by (simp_all add: heard_def comp_def filter_map)

lemma heard_blocks: "heard (concat (map block_events D)) = concat (map snd (pieces_of answers D))"
proof (induction D)
  case (Cons b D)
  have "concat (map block_events (b # D)) = block_events b @ concat (map block_events D)" by simp
  then show ?case
    using Cons by (cases b) (simp add: pieces_of_def del: block_events.simps)
qed (simp add: pieces_of_def)

lemma sent_data:
  assumes "distinct (map aId answers)" and "\<forall>a \<in> set answers. clean a" and "a \<in> set answers"
  shows "map (data \<circ> entry_of) (sent_by answers (aId a)) = audio_of a"
  using assms sent_by_answer(1) [OF assms(1,3)] clean_packets(1) [of a] by (auto simp: entry_of_def comp_def)

lemma pieces_one_by_one:
  assumes "distinct (map aId answers)" and "\<forall>a \<in> set answers. clean a"
    and "fst ` set D \<subseteq> aId ` set answers" and "distinct (filter (\<lambda>sid. sid \<notin> G) (map fst D))"
    and "\<forall>b \<in> set D. block_ok (sent_by answers) ps G b"
  shows "one_by_one answers G (pieces_of answers D)"
  unfolding one_by_one_def
proof
  let ?p = "pieces_of answers D"
  note w = answer_with_id [of _ answers]
  have ids: "map (\<lambda>x. aId (fst x)) ?p = map fst D"
    using assms(3) w(2) by (auto simp: pieces_of_def)
  have "map aId (filter (\<lambda>a. aId a \<notin> G) (map fst ?p)) = filter (\<lambda>sid. sid \<notin> G) (map (\<lambda>x. aId (fst x)) ?p)"
    by (simp add: filter_map comp_def)
  then have "distinct (map aId (filter (\<lambda>a. aId a \<notin> G) (map fst ?p)))" using assms(4) ids by simp
  then show "distinct (filter (\<lambda>a. aId a \<notin> G) (map fst ?p))" by (simp add: distinct_map)
  show "\<forall>(a, xs) \<in> set ?p. a \<in> set answers \<and> sublist xs (audio_of a) \<and> (aId a \<notin> G \<longrightarrow> xs = audio_of a)"
  proof (rule ballI, rule prod.case_eq_if [THEN iffD2])
    fix x assume "x \<in> set ?p"
    then obtain sid es rest where b: "(sid, es, rest) \<in> set D" and x: "x = (answer_with answers sid, map data es)"
      by (auto simp: pieces_of_def)
    let ?a = "answer_with answers sid"
    have "sid \<in> aId ` set answers" using b assms(3) by force
    then have a: "?a \<in> set answers" "aId ?a = sid" using w by auto
    have ok: "block_ok (sent_by answers) ps G (sid, es, rest)" using assms(5) b by blast
    have audio: "map data (map entry_of (sent_by answers sid)) = audio_of ?a"
      using sent_data [OF assms(1,2) a(1)] a(2) by simp
    have "sublist (map data es) (audio_of ?a)"
      unfolding audio [symmetric] using ok by (intro map_mono_sublist) simp
    then show "fst x \<in> set answers \<and> sublist (snd x) (audio_of (fst x)) \<and>
        (aId (fst x) \<notin> G \<longrightarrow> snd x = audio_of (fst x))"
      using a ok audio unfolding x by auto
  qed
qed

lemma served_ids:
  assumes "served_inv (sent_by answers) ps G s D cur" and "distinct (map aId answers)"
    and "part_of (sent_by answers) ps"
  shows "fst ` set D \<subseteq> aId ` set answers" and "set (order (pl s)) \<subseteq> aId ` set answers"
proof -
  have "of_stream sid ps \<noteq> [] \<Longrightarrow> sid \<in> aId ` set answers" for sid
    using sent_by_answer(2) [OF assms(2)] assms(3) unfolding part_of_def by (metis prefix_Nil)
  with served_invD(4) [OF assms(1)]
  show "fst ` set D \<subseteq> aId ` set answers" and "set (order (pl s)) \<subseteq> aId ` set answers" by blast+
qed

lemma served_once:
  "served_inv full ps G s D cur \<Longrightarrow> distinct (filter (\<lambda>sid. sid \<notin> G) (map fst D))"
  by (simp add: served_inv_def)

text \<open>What is being heard of the answer at the head of the queue.\<close>

lemma heard_current:
  assumes "served_inv (sent_by answers) ps G s D cur" and "distinct (map aId answers)"
    and "\<forall>a \<in> set answers. clean a" and "part_of (sent_by answers) ps"
  shows "cur = [] \<or> (\<exists>a \<in> set answers. sublist (heard cur) (audio_of a) \<and>
    (aId a \<notin> G \<longrightarrow> aId a \<notin> fst ` set D \<and> prefix (heard cur) (audio_of a)))"
proof (cases cur)
  case (Cons x xs)
  then have sid: "in_stream (pcv s) = Some (fst x)"
    using served_invD(7) [OF assms(1), of x] by simp
  define sid where "sid = fst x"
  note sid = sid [folded sid_def]
  note c = served_current [OF assms(1) sid]
  have "sid \<in> aId ` set answers" using served_ids(2) [OF assms(1,2,4)] c(1) by blast
  then obtain a where a: "a \<in> set answers" "aId a = sid" by blast
  have cur: "heard cur = map data (map (fst \<circ> snd) cur)" using c(2) by (simp add: heard_def)
  have "prefix (map data (map entry_of (of_stream sid ps))) (map data (map entry_of (sent_by answers sid)))"
    using assms(4) unfolding part_of_def by (intro map_mono_prefix) blast
  then have p: "prefix (map data (map entry_of (of_stream sid ps))) (audio_of a)"
    using sent_data [OF assms(2,3) a(1)] a(2) by simp
  have "suffix (heard cur @ map data (stream_chunks (pl s) sid)) (map data (map entry_of (of_stream sid ps)))"
    using map_mono_suffix [OF c(3), of data] unfolding cur by simp
  with p have "sublist (heard cur @ map data (stream_chunks (pl s) sid)) (audio_of a)"
    unfolding sublist_altdef by blast
  then have "sublist (heard cur) (audio_of a)" unfolding sublist_def by (metis append_assoc)
  moreover have "prefix (heard cur) (audio_of a)" if "sid \<notin> G"
  proof -
    have "heard cur @ map data (stream_chunks (pl s) sid) = map data (map entry_of (of_stream sid ps))"
      unfolding cur c(4) [OF that, symmetric] by simp
    with p show ?thesis by (metis append_prefixD)
  qed
  ultimately show ?thesis using a c(5) by blast
qed simp

lemma served_heard:
  assumes "distinct (map aId answers)" and "\<forall>a \<in> set answers. clean a"
    and "served (sent_by answers) ps G s" and "part_of (sent_by answers) ps"
  shows "\<exists>aired part. one_by_one answers G aired \<and> heard (handled s) = concat (map snd aired) @ part \<and>
     (part = [] \<or> (\<exists>a \<in> set answers. sublist part (audio_of a) \<and>
        (aId a \<notin> G \<longrightarrow> a \<notin> fst ` set aired \<and> prefix part (audio_of a)))) \<and>
     (\<forall>x \<in> set (handled s). \<not> snd (snd x) \<longrightarrow> fst x \<in> G) \<and>
     ((\<forall>sid. of_stream sid ps = sent_by answers sid) \<and> order (pl s) = [] \<longrightarrow>
        fst ` set aired = set answers \<and> part = [])"
proof -
  obtain D cur where i: "served_inv (sent_by answers) ps G s D cur"
    using served_invariant [OF assms(3) sent_by_framed [OF assms(1,2)] assms(4)] by blast
  note v = served_invD [OF i]
  let ?p = "pieces_of answers D"
  have ids: "fst ` set D \<subseteq> aId ` set answers" by (rule served_ids(1) [OF i assms(1,4)])
  have aired: "one_by_one answers G ?p"
    using v(5) by (intro pieces_one_by_one [OF assms(1,2) ids served_once [OF i]]) blast

  have heard: "heard (handled s) = concat (map snd ?p) @ heard cur"
    unfolding v(6) heard_simps heard_blocks [of D answers] ..
  have from_block: "aId a \<in> fst ` set D" if "a \<in> fst ` set ?p" for a
    using that ids answer_with_id(2) [of _ answers] unfolding pieces_members by auto
  have part: "heard cur = [] \<or> (\<exists>a \<in> set answers. sublist (heard cur) (audio_of a) \<and>
      (aId a \<notin> G \<longrightarrow> a \<notin> fst ` set ?p \<and> prefix (heard cur) (audio_of a)))"
  proof (cases "cur = []")
    case False
    then show ?thesis using heard_current [OF i assms(1,2,4)] from_block by blast
  qed simp
  have gone: "\<forall>x \<in> set (handled s). \<not> snd (snd x) \<longrightarrow> fst x \<in> G"
  proof (intro ballI impI)
    fix x assume "x \<in> set (handled s)" and "\<not> snd (snd x)"
    then obtain b where "b \<in> set D" "x \<in> set (block_events b)"
      using v(6) v(7) [of x] by (auto simp del: block_events.simps)
    with \<open>\<not> snd (snd x)\<close> v(5) [of b] show "fst x \<in> G" by (cases b) auto
  qed
  have all: "fst ` set ?p = set answers \<and> heard cur = []"
    if arrived: "\<forall>sid. of_stream sid ps = sent_by answers sid" and "order (pl s) = []"
  proof
    have "\<forall>x \<in> set cur. False"
      using served_current(1) [OF i] v(7) \<open>order (pl s) = []\<close> by fastforce
    then show "heard cur = []" by (cases cur) auto
    have "a \<in> fst ` set ?p" if a: "a \<in> set answers" for a
    proof -
      have "of_stream (aId a) ps \<noteq> []"
        using arrived a assms(2) sent_by_answer(1) [OF assms(1) a] clean_packets(2) [of a] by simp
      then have "aId a \<in> fst ` set D" using v(4) \<open>order (pl s) = []\<close> by auto
      then show ?thesis
        unfolding pieces_members using answer_with_own [OF assms(1) a] by (metis image_eqI)
    qed
    with aired show "fst ` set ?p = set answers" by (auto simp: one_by_one_def)
  qed
  show ?thesis using aired heard part gone all by blast
qed

text \<open>
  C3. Answers streamed at the same time are heard one after the other: let any number of handlers stream
  answers under different ids, none cancelled and every chunk of them speakable, let their packets
  reach the emulator in any interleaving, those of one answer in their order, and let its playback
  goroutine run in between in any way. Let \<open>G\<close> be the streams it has given up: its wait for the next
  chunk timed out before the last packet had come, or although one was queued. Then what has been
  played at any moment is pieces of answers one after the other, where an answer whose stream is not in
  \<open>G\<close> is one piece, the complete answer in order, or is the one being played, of which a first part has
  been heard; of a stream in \<open>G\<close> contiguous parts are played, and only packets of such streams are ever
  discarded. And when everything has arrived the goroutine can play on to the end without giving up
  any further stream, after which every answer has been played, those not in \<open>G\<close> complete.
\<close>

theorem answers_one_by_one:
  assumes "distinct (map aId answers)" and "\<forall>a \<in> set answers. clean a"
    and "served (sent_by answers) ps G s" and "\<forall>sid. prefix (of_stream sid ps) (sent_by answers sid)"
  shows "(\<exists>aired part. one_by_one answers G aired \<and> heard (handled s) = concat (map snd aired) @ part \<and>
       (part = [] \<or> (\<exists>a \<in> set answers. sublist part (audio_of a) \<and>
          (aId a \<notin> G \<longrightarrow> a \<notin> fst ` set aired \<and> prefix part (audio_of a)))) \<and>
       (\<forall>x \<in> set (handled s). \<not> snd (snd x) \<longrightarrow> fst x \<in> G)) \<and>
     ((\<forall>sid. of_stream sid ps = sent_by answers sid) \<longrightarrow>
       (\<exists>t aired. (on_time (sent_by answers) ps)\<^sup>*\<^sup>* s t \<and> one_by_one answers G aired \<and>
          fst ` set aired = set answers \<and> heard (handled t) = concat (map snd aired)))"
proof (intro conjI impI)
  have part: "part_of (sent_by answers) ps" using assms(4) by (simp add: part_of_def)
  note heard = served_heard [OF assms(1,2) _ part]
  show "\<exists>aired part. one_by_one answers G aired \<and> heard (handled s) = concat (map snd aired) @ part \<and>
      (part = [] \<or> (\<exists>a \<in> set answers. sublist part (audio_of a) \<and>
         (aId a \<notin> G \<longrightarrow> a \<notin> fst ` set aired \<and> prefix part (audio_of a)))) \<and>
      (\<forall>x \<in> set (handled s). \<not> snd (snd x) \<longrightarrow> fst x \<in> G)"
    using heard [OF assms(3)] by blast
  assume arrived: "\<forall>sid. of_stream sid ps = sent_by answers sid"
  then obtain t where t: "(on_time (sent_by answers) ps)\<^sup>*\<^sup>* s t" "served (sent_by answers) ps G t" "order (pl t) = []"
    using served_drains [OF assms(3) sent_by_framed [OF assms(1,2)]] by blast
  from heard [OF t(2)] arrived t(3)
  obtain aired where "one_by_one answers G aired" "fst ` set aired = set answers"
    "heard (handled t) = concat (map snd aired)"
    by auto
  with t(1) show "\<exists>t aired. (on_time (sent_by answers) ps)\<^sup>*\<^sup>* s t \<and> one_by_one answers G aired \<and>
      fst ` set aired = set answers \<and> heard (handled t) = concat (map snd aired)" by blast
qed

definition demo_answer :: "gostring \<Rightarrow> gostring list \<Rightarrow> bytes answer" where
  "demo_answer sid chunks = \<lparr>aSched = demo_sched, aId = sid, aGen = demo_gen, aEnc = Inr,
     aChunks = chunks, aPrompt = (\<lambda>t. t)\<rparr>"

definition demo_answers :: "bytes answer list" where
  "demo_answers = [demo_answer ''u'' [''a'', ''b''], demo_answer ''v'' [''c'', ''d'']]"

definition demo_packets :: "outgoingAudio list" where
  "demo_packets =
     [\<lparr>Data = [97], Status = START, StreamID = ''u''\<rparr>, \<lparr>Data = [99], Status = START, StreamID = ''v''\<rparr>,
      \<lparr>Data = [98], Status = END, StreamID = ''u''\<rparr>, \<lparr>Data = [100], Status = END, StreamID = ''v''\<rparr>]"

definition demo_served :: psys where
  "demo_served = fold take_packet demo_packets init_psys"

lemma served_arrivals: "served full qs G s \<Longrightarrow> served full (qs @ ps) G (fold take_packet ps s)"
proof (induction ps arbitrary: qs s)
  case (Cons p ps)
  from Cons.IH [OF served_arrive [OF Cons.prems, of p]] show ?case by simp
qed simp

lemma demo_served: "served full demo_packets {} demo_served"
  using served_arrivals [OF served_init, of full demo_packets] by (simp add: demo_served_def)

lemma demo_answers_sent:
  "packets_of (demo_answer ''u'' [''a'', ''b'']) =
     [\<lparr>Data = [97], Status = START, StreamID = ''u''\<rparr>, \<lparr>Data = [98], Status = END, StreamID = ''u''\<rparr>]"
  "packets_of (demo_answer ''v'' [''c'', ''d'']) =
     [\<lparr>Data = [99], Status = START, StreamID = ''v''\<rparr>, \<lparr>Data = [100], Status = END, StreamID = ''v''\<rparr>]"
  by (simp_all add: packets_of_def demo_answer_def streamTTSChunks_def generateChunksParallel_def
      chunk_goroutine_def demo_gen_def demo_sched_def init_tts_def getResult_def chunkStatus_def Let_def
      eval_nat_numeral)

lemma demo_answers_clean: "\<forall>a \<in> set demo_answers. clean a"
  by (simp add: demo_answers_def demo_answer_def clean_def no_cancel_demo audio_of_def chunk_audio_def
      generateChunksParallel_def chunk_goroutine_def demo_gen_def)

lemma demo_answer_id: "aId (demo_answer sid chunks) = sid"
  by (simp add: demo_answer_def)

lemma demo_arrived: "of_stream sid demo_packets = sent_by demo_answers sid"
  by (auto simp: of_stream_def demo_packets_def sent_by_def demo_answers_def demo_answer_id
      demo_answers_sent)

theorem answers_one_by_one_witness:
  "\<exists>t aired. (on_time (sent_by demo_answers) demo_packets)\<^sup>*\<^sup>* demo_served t \<and>
     distinct (map fst aired) \<and> fst ` set aired = set demo_answers \<and>
     map snd aired = map (audio_of \<circ> fst) aired \<and> heard (handled t) = concat (map snd aired)"
proof -
  have "distinct (map aId demo_answers)" by (simp add: demo_answers_def demo_answer_id)
  from answers_one_by_one [OF this demo_answers_clean demo_served, THEN conjunct2]
  obtain t aired where t: "(on_time (sent_by demo_answers) demo_packets)\<^sup>*\<^sup>* demo_served t"
    "one_by_one demo_answers {} aired" "fst ` set aired = set demo_answers"
    "heard (handled t) = concat (map snd aired)"
    using demo_arrived by auto
  then have "map snd aired = map (audio_of \<circ> fst) aired" by (auto simp: one_by_one_def)
  moreover have "distinct (map fst aired)" using t(2) by (simp add: one_by_one_def)
  ultimately show ?thesis using t by metis
qed

end
