(* ===== verification/WsConcurrent.thy ===== *)
theory WsConcurrent
  imports WsSession
begin

text \<open>
  The sessions of \<open>app/wl-game-server/ws_session.go\<close> running at the same time, with the upgrade of
  a connection in \<open>ws_server.go\<close>. Each session is a program counter over its code; one step is one
  call of the callsign manager or the registry (each under its own mutex), or what lies between
  two of them. Any number of sessions interleave, and any of them may end at any read.
\<close>

section \<open>The step relation\<close>

datatype wpc =
    Reading                             \<comment> \<open>in \<open>conn.ReadMessage\<close>\<close>
  | Login1                              \<comment> \<open>own callsign issued\<close>
  | Rollback                            \<comment> \<open>no callsign left for the peer\<close>
  | Login2                              \<comment> \<open>peer issued, nothing registered\<close>
  | Login3 "gostring list"              \<comment> \<open>these peers still to register\<close>
  | Cleanup "gostring list"             \<comment> \<open>these callsigns still to give back\<close>
  | Cleanup2 gostring "gostring list"   \<comment> \<open>the first released, not unregistered\<close>
  | Closed

record wsys =
  sh :: shared
  ses :: "session_id \<rightharpoonup> wsSession \<times> wpc"

definition upd :: "session_id \<Rightarrow> wsSession \<Rightarrow> wpc \<Rightarrow> wsys \<Rightarrow> wsys" where
  "upd i s pc S = S\<lparr>ses := (ses S)(i \<mapsto> (s, pc))\<rparr>"

definition set_callsigns :: "CallsignManager \<Rightarrow> wsys \<Rightarrow> wsys" where
  "set_callsigns cm S = S\<lparr>sh := (sh S)\<lparr>callsigns := cm\<rparr>\<rparr>"

definition set_registry :: "SessionRegistry \<Rightarrow> wsys \<Rightarrow> wsys" where
  "set_registry rg S = S\<lparr>sh := (sh S)\<lparr>registry := rg\<rparr>\<rparr>"

definition own_callsigns :: "wsSession \<Rightarrow> gostring list" where
  "own_callsigns s = filter (\<lambda>cs. cs \<noteq> '''') (callsign s # peerCallsigns s)"

inductive ws_step :: "Scenario \<Rightarrow> wsys \<Rightarrow> wsys \<Rightarrow> bool" for sc where
  connect: "ses S i = None \<Longrightarrow> ws_step sc S (upd i (newWSSession sc) Reading S)"
| no_login: "ses S i = Some (s, Reading) \<Longrightarrow> ws_step sc S (upd i (sendError msg s) Reading S)"
| again: "ses S i = Some (s, Reading) \<Longrightarrow> callsign s \<noteq> '''' \<Longrightarrow>
    ws_step sc S (upd i (sendJSON (login_response s) s) Reading S)"
| issue: "ses S i = Some (s, Reading) \<Longrightarrow> callsign s = '''' \<Longrightarrow>
    Issue (callsigns (sh S)) = ((cs, True), cm) \<Longrightarrow>
    ws_step sc S (set_callsigns cm (upd i (s\<lparr>callsign := cs\<rparr>) Login1 S))"
| none_left: "ses S i = Some (s, Reading) \<Longrightarrow> callsign s = '''' \<Longrightarrow>
    Issue (callsigns (sh S)) = ((cs, False), cm) \<Longrightarrow>
    ws_step sc S (set_callsigns cm (upd i (sendError ''no callsign available'' s) Reading S))"
| issue_peer: "ses S i = Some (s, Login1) \<Longrightarrow> Issue (callsigns (sh S)) = ((cs, True), cm) \<Longrightarrow>
    ws_step sc S (set_callsigns cm (upd i (assign_personas (s\<lparr>peerCallsigns := [cs]\<rparr>)) Login2 S))"
| no_peer: "ses S i = Some (s, Login1) \<Longrightarrow> Issue (callsigns (sh S)) = ((cs, False), cm) \<Longrightarrow>
    ws_step sc S (set_callsigns cm (upd i s Rollback S))"
| roll_back: "ses S i = Some (s, Rollback) \<Longrightarrow>
    ws_step sc S (set_callsigns (Release (callsign s) (callsigns (sh S)))
      (upd i (sendError ''no peer callsign available'' (s\<lparr>callsign := ''''\<rparr>)) Reading S))"
| register_own: "ses S i = Some (s, Login2) \<Longrightarrow>
    ws_step sc S (set_registry (Register (callsign s) i (registry (sh S)))
      (upd i s (Login3 (peerCallsigns s)) S))"
| register_peer: "ses S i = Some (s, Login3 (p # ps)) \<Longrightarrow>
    ws_step sc S (set_registry (Register p i (registry (sh S))) (upd i s (Login3 ps) S))"
| logged_in: "ses S i = Some (s, Login3 []) \<Longrightarrow>
    ws_step sc S (upd i (sendJSON (login_response s) s) Reading S)"
| leave: "ses S i = Some (s, Reading) \<Longrightarrow>
    ws_step sc S (upd i s (Cleanup (own_callsigns s)) S)"
| release: "ses S i = Some (s, Cleanup (c # cs)) \<Longrightarrow>
    ws_step sc S (set_callsigns (Release c (callsigns (sh S))) (upd i s (Cleanup2 c cs) S))"
| unregister: "ses S i = Some (s, Cleanup2 c cs) \<Longrightarrow>
    ws_step sc S (set_registry (Unregister c (registry (sh S))) (upd i s (Cleanup cs) S))"
| close: "ses S i = Some (s, Cleanup []) \<Longrightarrow> ws_step sc S (upd i s Closed S)"

inductive_cases ws_stepE: "ws_step sc S T"

definition ws_init :: "CallsignManager \<Rightarrow> wsys" where
  "ws_init cm = \<lparr>sh = \<lparr>callsigns = cm, registry = NewSessionRegistry\<rparr>, ses = Map.empty\<rparr>"

inductive ws_reachable :: "Scenario \<Rightarrow> CallsignManager \<Rightarrow> wsys \<Rightarrow> bool" for sc cm where
  init: "ws_reachable sc cm (ws_init cm)"
| step: "ws_reachable sc cm S \<Longrightarrow> ws_step sc S T \<Longrightarrow> ws_reachable sc cm T"

section \<open>Who holds which callsign\<close>

fun held :: "wsSession \<times> wpc \<Rightarrow> gostring list" where
  "held (s, Cleanup cs) = cs"
| "held (s, Cleanup2 c cs) = cs"
| "held (s, Closed) = []"
| "held (s, pc) = own_callsigns s"

definition owns :: "wsys \<Rightarrow> session_id \<Rightarrow> gostring \<Rightarrow> bool" where
  "owns S i cs \<longleftrightarrow> (\<exists>st. ses S i = Some st \<and> cs \<in> set (held st))"

text \<open>What a program counter says about the session's fields.\<close>

fun pc_ok :: "wsSession \<times> wpc \<Rightarrow> bool" where
  "pc_ok (s, Reading) \<longleftrightarrow> (callsign s = '''' \<longrightarrow> peerCallsigns s = [])"
| "pc_ok (s, Login1) \<longleftrightarrow> callsign s \<noteq> '''' \<and> peerCallsigns s = []"
| "pc_ok (s, Rollback) \<longleftrightarrow> callsign s \<noteq> '''' \<and> peerCallsigns s = []"
| "pc_ok (s, Login2) \<longleftrightarrow> callsign s \<noteq> '''' \<and> '''' \<notin> set (peerCallsigns s)"
| "pc_ok (s, Login3 ps) \<longleftrightarrow>
     callsign s \<noteq> '''' \<and> '''' \<notin> set (peerCallsigns s) \<and> set ps \<subseteq> set (peerCallsigns s)"
| "pc_ok (s, _) \<longleftrightarrow> True"

definition own_inv :: "wsys \<Rightarrow> bool" where
  "own_inv S \<longleftrightarrow> callsign_inv (callsigns (sh S))
     \<and> (\<forall>cs. cs \<in> issued (callsigns (sh S)) \<longleftrightarrow> (\<exists>i. owns S i cs))
     \<and> (\<forall>i j cs. owns S i cs \<longrightarrow> owns S j cs \<longrightarrow> i = j)
     \<and> (\<forall>i st. ses S i = Some st \<longrightarrow> distinct (held st) \<and> pc_ok st)"

lemma owns_upd [simp]:
  "owns (upd i s pc S) j cs = (if j = i then cs \<in> set (held (s, pc)) else owns S j cs)"
  by (simp add: owns_def upd_def)

lemma owns_shared [simp]:
  "owns (set_callsigns cm S) j cs = owns S j cs" "owns (set_registry rg S) j cs = owns S j cs"
  by (simp_all add: owns_def set_callsigns_def set_registry_def)

lemma upd_fields [simp]:
  "sh (upd i s pc S) = sh S" "ses (upd i s pc S) = (ses S)(i \<mapsto> (s, pc))"
  "callsigns (sh (set_callsigns cm S)) = cm" "registry (sh (set_callsigns cm S)) = registry (sh S)"
  "ses (set_callsigns cm S) = ses S"
  "callsigns (sh (set_registry rg S)) = callsigns (sh S)" "registry (sh (set_registry rg S)) = rg"
  "ses (set_registry rg S) = ses S"
  by (simp_all add: upd_def set_callsigns_def set_registry_def)

text \<open>A step of one session that keeps what it holds, takes one callsign, or gives one back.\<close>

lemma own_inv_keep:
  assumes "own_inv S" and "set (held (s, pc)) = {cs. owns S i cs}" and "distinct (held (s, pc))"
    and "pc_ok (s, pc)"
  shows "own_inv (upd i s pc S)"
  using assms unfolding own_inv_def by (auto split: if_splits)

lemma own_inv_registry [simp]: "own_inv (set_registry rg S) = own_inv S"
  by (simp add: own_inv_def)

lemma own_inv_issue:
  assumes "own_inv S" and "Issue (callsigns (sh S)) = ((cs, True), cm)"
    and "set (held (s, pc)) = insert cs {c. owns S i c}" and "distinct (held (s, pc))"
    and "pc_ok (s, pc)"
  shows "own_inv (set_callsigns cm (upd i s pc S))"
proof -
  have inv: "callsign_inv (callsigns (sh S))" using assms(1) unfolding own_inv_def by blast
  have "issued cm = insert cs (issued (callsigns (sh S)))" "cs \<notin> issued (callsigns (sh S))"
    "callsign_inv cm"
    using callsigns.issue_granted [OF inv assms(2)] callsigns.granted_fresh [OF inv assms(2)]
      callsigns.granted_inv [OF inv assms(2)] by simp_all
  with assms show ?thesis unfolding own_inv_def by (auto split: if_splits)
qed

lemma own_inv_release:
  assumes "own_inv S" and "owns S i cs" and "set (held (s, pc)) = {c. owns S i c} - {cs}"
    and "distinct (held (s, pc))" and "pc_ok (s, pc)"
  shows "own_inv (set_callsigns (Release cs (callsigns (sh S))) (upd i s pc S))"
proof -
  have inv: "callsign_inv (callsigns (sh S))" using assms(1) unfolding own_inv_def by blast
  have "issued (Release cs (callsigns (sh S))) = issued (callsigns (sh S)) - {cs}"
    "callsign_inv (Release cs (callsigns (sh S)))"
    using callsigns.release_held [OF inv] callsigns.release_inv [OF inv] by simp_all
  with assms show ?thesis unfolding own_inv_def by (auto split: if_splits)
qed

lemma set_callsigns_same: "callsigns (sh T) = cm \<Longrightarrow> set_callsigns cm T = T"
  by (auto simp: set_callsigns_def)

lemma owns_self: "ses S i = Some st \<Longrightarrow> {cs. owns S i cs} = set (held st)"
  by (auto simp: owns_def)

lemma own_invD:
  assumes "own_inv S" and "ses S i = Some st"
  shows "distinct (held st)" and "pc_ok st" and "cs \<in> set (held st) \<Longrightarrow> cs \<in> issued (callsigns (sh S))"
    and "cs \<in> issued (callsigns (sh S)) \<Longrightarrow> cs \<noteq> ''''"
proof -
  show "distinct (held st)" "pc_ok st" using assms unfolding own_inv_def by blast+
  show "cs \<in> issued (callsigns (sh S))" if "cs \<in> set (held st)"
    using assms that unfolding own_inv_def owns_def by blast
  show "cs \<noteq> ''''" if "cs \<in> issued (callsigns (sh S))"
    using assms(1) that callsigns.named [of "callsigns (sh S)"] unfolding own_inv_def by blast
qed

lemma session_fields [simp]:
  "callsign (sendJSON r s) = callsign s" "peerCallsigns (sendJSON r s) = peerCallsigns s"
  "callsign (sendError m s) = callsign s" "peerCallsigns (sendError m s) = peerCallsigns s"
  "callsign (assign_personas s) = callsign s" "peerCallsigns (assign_personas s) = peerCallsigns s"
  "own_callsigns (sendJSON r s) = own_callsigns s" "own_callsigns (sendError m s) = own_callsigns s"
  "own_callsigns (assign_personas s) = own_callsigns s"
  by (simp_all add: sendJSON_def sendError_def assign_personas_def own_callsigns_def)

lemma ws_step_inv: "ws_step sc S T \<Longrightarrow> own_inv S \<Longrightarrow> own_inv T"
proof (induction rule: ws_step.induct)
  case (connect S i)
  have "{cs. owns S i cs} = {}" using connect(1) by (simp add: owns_def)
  with connect(2) show ?case
    by (intro own_inv_keep) (simp_all add: own_callsigns_def newWSSession_def)
next
  case (no_login S i s msg)
  then show ?case
    using own_invD(1,2) [OF no_login(2,1)] by (intro own_inv_keep) (simp_all add: owns_self)
next
  case (again S i s)
  then show ?case
    using own_invD(1,2) [OF again(3,1)] by (intro own_inv_keep) (simp_all add: owns_self)
next
  case (issue S i s cs cm)
  have "callsign_inv (callsigns (sh S))" using issue(4) unfolding own_inv_def by blast
  with callsigns.granted_fresh [OF _ issue(3)] have "cs \<noteq> ''''" by simp
  moreover have "peerCallsigns s = []" using own_invD(2) [OF issue(4,1)] issue(2) by simp
  ultimately show ?case
    using owns_self [OF issue(1)] issue(2)
    by (intro own_inv_issue [OF issue(4) issue(3)]) (simp_all add: own_callsigns_def)
next
  case (none_left S i s cs cm)
  have "own_inv (upd i (sendError ''no callsign available'' s) Reading S)"
    using own_invD(1,2) [OF none_left(4,1)] none_left(1,4)
    by (intro own_inv_keep) (simp_all add: owns_self)
  then show ?case
    using callsigns.issue_refused [OF none_left(3)] by (subst set_callsigns_same) simp_all
next
  case (issue_peer S i s cs cm)
  have inv: "callsign_inv (callsigns (sh S))" using issue_peer(3) unfolding own_inv_def by blast
  have s: "callsign s \<noteq> ''''" "peerCallsigns s = []"
    using own_invD(2) [OF issue_peer(3,1)] by simp_all
  then have "callsign s \<in> issued (callsigns (sh S))"
    by (intro own_invD(3) [OF issue_peer(3,1)]) (simp add: own_callsigns_def)
  with callsigns.granted_fresh [OF inv issue_peer(2)] have "cs \<noteq> ''''" "cs \<noteq> callsign s" by auto
  with s show ?case
    using owns_self [OF issue_peer(1)]
    by (intro own_inv_issue [OF issue_peer(3,2)]) (auto simp: own_callsigns_def)
next
  case (no_peer S i s cs cm)
  have "own_inv (upd i s Rollback S)"
    using own_invD(1,2) [OF no_peer(3,1)] no_peer(1,3)
    by (intro own_inv_keep) (simp_all add: owns_self)
  then show ?case
    using callsigns.issue_refused [OF no_peer(2)] by (subst set_callsigns_same) simp_all
next
  case (roll_back S i s)
  then show ?case
    using own_invD(1,2) [OF roll_back(2,1)]
    by (intro own_inv_release) (simp_all add: owns_self own_callsigns_def owns_def)
next
  case (register_own S i s)
  then show ?case
    using own_invD(1,2) [OF register_own(2,1)]
    by (simp, intro own_inv_keep) (simp_all add: owns_self)
next
  case (register_peer S i s p ps)
  then show ?case
    using own_invD(1,2) [OF register_peer(2,1)]
    by (simp, intro own_inv_keep) (simp_all add: owns_self)
next
  case (logged_in S i s)
  then show ?case
    using own_invD(1,2) [OF logged_in(2,1)] by (intro own_inv_keep) (simp_all add: owns_self)
next
  case (leave S i s)
  then show ?case
    using own_invD(1,2) [OF leave(2,1)] by (intro own_inv_keep) (simp_all add: owns_self)
next
  case (release S i s c cs)
  then show ?case
    using own_invD(1,2) [OF release(2,1)]
    by (intro own_inv_release) (auto simp: owns_self owns_def)
next
  case (unregister S i s c cs)
  then show ?case
    using own_invD(1,2) [OF unregister(2,1)]
    by (simp, intro own_inv_keep) (simp_all add: owns_self)
next
  case (close S i s)
  then show ?case by (intro own_inv_keep) (simp_all add: owns_self)
qed

lemma ws_reachable_inv:
  assumes "callsign_inv cm" and "issued cm = {}"
  shows "ws_reachable sc cm S \<Longrightarrow> own_inv S"
proof (induction rule: ws_reachable.induct)
  case init
  then show ?case using assms by (simp add: own_inv_def ws_init_def owns_def)
qed (rule ws_step_inv)

section \<open>Who is registered\<close>

text \<open>The callsigns a session may have in the registry.\<close>

fun entered :: "wsSession \<times> wpc \<Rightarrow> gostring set" where
  "entered (s, Reading) = set (own_callsigns s)"
| "entered (s, Login3 ps) = set (own_callsigns s)"
| "entered (s, Cleanup cs) = set cs"
| "entered (s, Cleanup2 c cs) = insert c (set cs)"
| "entered (s, _) = {}"

definition reg_inv :: "wsys \<Rightarrow> bool" where
  "reg_inv S \<longleftrightarrow>
     (\<forall>k i. Lookup (registry (sh S)) k = Some i \<longrightarrow> (\<exists>st. ses S i = Some st \<and> k \<in> entered st))"

lemma reg_inv_upd:
  assumes "reg_inv S" and "\<And>st. ses S i = Some st \<Longrightarrow> entered st \<subseteq> entered (s, pc)"
  shows "reg_inv (upd i s pc S)"
  using assms unfolding reg_inv_def upd_fields fun_upd_apply by (metis (no_types) option.inject subsetD)

lemma reg_inv_callsigns [simp]: "reg_inv (set_callsigns cm S) = reg_inv S"
  by (simp add: reg_inv_def)

lemma reg_inv_register:
  assumes "reg_inv S" and "ses S i = Some st" and "k \<in> entered st"
  shows "reg_inv (set_registry (Register k i (registry (sh S))) S)"
  using assms unfolding reg_inv_def upd_fields registry_laws by (metis option.inject)

lemma reg_inv_unregister:
  assumes "reg_inv (upd i s (Cleanup2 c cs) S)"
  shows "reg_inv (set_registry (Unregister c (registry (sh S))) (upd i s (Cleanup cs) S))"
  using assms unfolding reg_inv_def by (auto simp: registry_laws split: if_splits) 

lemma set_registry_upd: "set_registry rg (upd i s pc S) = upd i s pc (set_registry rg S)"
  by (simp add: set_registry_def upd_def)

lemma ws_step_reg: "ws_step sc S T \<Longrightarrow> own_inv S \<Longrightarrow> reg_inv S \<Longrightarrow> reg_inv T"
proof (induction rule: ws_step.induct)
  case (issue S i s cs cm)
  have "entered (s, Reading) = {}"
    using own_invD(2) [OF issue(4,1)] issue(2) by (simp add: own_callsigns_def)
  with issue show ?case by (simp, intro reg_inv_upd) auto
next
  case (register_own S i s)
  let ?s = "upd i s (Login3 (peerCallsigns s)) S"
  have "callsign s \<in> set (own_callsigns s)"
    using own_invD(2) [OF register_own(2,1)] by (simp add: own_callsigns_def)
  moreover have "reg_inv ?s" using register_own by (intro reg_inv_upd) auto
  ultimately show ?case using reg_inv_register [of ?s i "(s, Login3 (peerCallsigns s))" "callsign s"] by simp
next
  case (register_peer S i s p ps)
  let ?s = "upd i s (Login3 ps) S"
  have "p \<in> set (own_callsigns s)"
    using own_invD(2) [OF register_peer(2,1)] by (auto simp: own_callsigns_def)
  moreover have "reg_inv ?s" using register_peer by (intro reg_inv_upd) auto
  ultimately show ?case using reg_inv_register [of ?s i "(s, Login3 ps)" p] by simp
next
  case (unregister S i s c cs)
  have "upd i s (Cleanup2 c cs) S = S" using unregister(1) by (simp add: upd_def map_upd_triv)
  with unregister(3) show ?case by (intro reg_inv_unregister) simp
next
  case (roll_back S i s)
  then show ?case by (simp, intro reg_inv_upd) auto
next
  case (issue_peer S i s cs cm)
  then show ?case by (simp, intro reg_inv_upd) auto
next
  case (no_peer S i s cs cm)
  then show ?case by (simp, intro reg_inv_upd) auto
next
  case (none_left S i s cs cm)
  then show ?case by (simp, intro reg_inv_upd) auto
next
  case (release S i s c cs)
  then show ?case by (simp, intro reg_inv_upd) auto
qed (intro reg_inv_upd; auto)+

lemma ws_reachable_reg:
  assumes "callsign_inv cm" and "issued cm = {}"
  shows "ws_reachable sc cm S \<Longrightarrow> reg_inv S"
proof (induction rule: ws_reachable.induct)
  case init
  then show ?case by (simp add: reg_inv_def ws_init_def registry_laws)
next
  case (step S T)
  then show ?case using ws_step_reg ws_reachable_inv [OF assms] by blast
qed

section \<open>The sequential login is a run\<close>

definition login_done :: "session_id \<Rightarrow> wsSession \<Rightarrow> wsys \<Rightarrow> wsys" where
  "login_done i s S = (case handleLogin i (sh S, s) of
     (sh', s') \<Rightarrow> S\<lparr>sh := sh', ses := (ses S)(i \<mapsto> (s', Reading))\<rparr>)"

text \<open>A step of session \<open>i\<close> that is not the release of a callsign.\<close>

definition quiet_step :: "Scenario \<Rightarrow> session_id \<Rightarrow> wsys \<Rightarrow> wsys \<Rightarrow> bool" where
  "quiet_step sc i S T \<longleftrightarrow> ws_step sc S T \<and> (\<forall>j. j \<noteq> i \<longrightarrow> ses T j = ses S j) \<and>
     (\<forall>s c cs. ses T i \<noteq> Some (s, Cleanup2 c cs))"

lemma quiet_login:
  assumes "ses S i = Some (s, Reading)"
  shows "(quiet_step sc i)\<^sup>*\<^sup>* S (login_done i s S)"
proof (cases "callsign s = ''''")
  case False
  then have "login_done i s S = upd i (sendJSON (login_response s) s) Reading S"
    by (simp add: login_done_def handleLogin_def upd_def)
  moreover have "quiet_step sc i S (upd i (sendJSON (login_response s) s) Reading S)"
    unfolding quiet_step_def using False assms by (intro conjI ws_step.again) simp_all
  ultimately show ?thesis by simp
next
  case True
  obtain cs ok cm where a: "Issue (callsigns (sh S)) = ((cs, ok), cm)"
    by (metis surj_pair)
  show ?thesis
  proof (cases ok)
    case False
    then have "login_done i s S
        = set_callsigns cm (upd i (sendError ''no callsign available'' s) Reading S)"
      using True a by (simp add: login_done_def handleLogin_def upd_def set_callsigns_def)
    moreover have "quiet_step sc i S (set_callsigns cm (upd i (sendError ''no callsign available'' s) Reading S))"
      unfolding quiet_step_def using True assms a False by (intro conjI ws_step.none_left [of _ _ _ cs]) simp_all
    ultimately show ?thesis by simp
  next
    case t: True
    let ?s1 = "s\<lparr>callsign := cs\<rparr>"
    let ?S1 = "set_callsigns cm (upd i ?s1 Login1 S)"
    have s1: "quiet_step sc i S ?S1"
      using True assms a t by (auto simp: quiet_step_def intro: ws_step.issue)
    obtain p ok2 cm2 where b: "Issue cm = ((p, ok2), cm2)" by (metis surj_pair)
    show ?thesis
    proof (cases ok2)
      case False
      let ?S2 = "set_callsigns cm2 (upd i ?s1 Rollback ?S1)"
      have s2: "quiet_step sc i ?S1 ?S2"
        unfolding quiet_step_def using b False by (intro conjI ws_step.no_peer [of _ _ _ p]) simp_all
      have "cm2 = cm" using b False by (auto simp: Issue_def Let_def split: if_splits)
      then have "login_done i s S = set_callsigns (Release (callsign ?s1) (callsigns (sh ?S2)))
          (upd i (sendError ''no peer callsign available'' (?s1\<lparr>callsign := ''''\<rparr>)) Reading ?S2)"
        using True a t b False
        by (simp add: login_done_def handleLogin_def upd_def set_callsigns_def)
      moreover have "quiet_step sc i ?S2 \<dots>"
        unfolding quiet_step_def by (intro conjI ws_step.roll_back) simp_all
      ultimately show ?thesis using s1 s2 by (auto intro: converse_rtranclp_into_rtranclp)
    next
      case u: True
      let ?s2 = "assign_personas (?s1\<lparr>peerCallsigns := [p]\<rparr>)"
      let ?S2 = "set_callsigns cm2 (upd i ?s2 Login2 ?S1)"
      have s2: "quiet_step sc i ?S1 ?S2"
        unfolding quiet_step_def using b u by (intro conjI ws_step.issue_peer) simp_all
      let ?S3 = "set_registry (Register (callsign ?s2) i (registry (sh ?S2)))
          (upd i ?s2 (Login3 (peerCallsigns ?s2)) ?S2)"
      have s3: "quiet_step sc i ?S2 ?S3"
        unfolding quiet_step_def by (intro conjI ws_step.register_own) simp_all
      let ?S4 = "set_registry (Register p i (registry (sh ?S3))) (upd i ?s2 (Login3 []) ?S3)"
      have s4: "quiet_step sc i ?S3 ?S4"
        unfolding quiet_step_def by (intro conjI ws_step.register_peer) simp_all
      let ?S5 = "upd i (sendJSON (login_response ?s2) ?s2) Reading ?S4"
      have s5: "quiet_step sc i ?S4 ?S5"
        unfolding quiet_step_def by (intro conjI ws_step.logged_in) simp_all
      have "login_done i s S = ?S5"
        using True a t b u
        by (simp add: login_done_def handleLogin_def upd_def set_callsigns_def set_registry_def Let_def)
      moreover have "(quiet_step sc i)\<^sup>*\<^sup>* S ?S5"
        using s1 s2 s3 s4 s5 by (meson converse_rtranclp_into_rtranclp rtranclp.rtrancl_refl)
      ultimately show ?thesis by simp
    qed
  qed
qed

lemma login_run:
  assumes "ses S i = Some (s, Reading)"
  shows "(ws_step sc)\<^sup>*\<^sup>* S (login_done i s S)"
  using quiet_login [OF assms] by (rule rtranclp_mono [THEN predicate2D, rotated]) (auto simp: quiet_step_def)

lemma ws_reachable_run: "(ws_step sc)\<^sup>*\<^sup>* S T \<Longrightarrow> ws_reachable sc cm S \<Longrightarrow> ws_reachable sc cm T"
  by (induction rule: rtranclp_induct) (auto intro: ws_reachable.step)

text \<open>The login of a fresh session when two callsigns are left at the end of the pool.\<close>

lemma handleLogin_pool:
  assumes "callsign s = ''''" and "pool (callsigns h) = xs @ [b, a]"
  shows "\<exists>s'. handleLogin i (h, s) =
    (\<lparr>callsigns = (callsigns h)\<lparr>pool := xs, issued := insert b (insert a (issued (callsigns h)))\<rparr>,
      registry = Register b i (Register a i (registry h))\<rparr>, s')
    \<and> callsign s' = a \<and> peerCallsigns s' = [b]"
proof -
  have "Issue (callsigns h) = ((a, True), (callsigns h)\<lparr>pool := xs @ [b], issued := insert a (issued (callsigns h))\<rparr>)"
    using assms(2) by (simp add: Issue_def butlast_append)
  moreover have "Issue ((callsigns h)\<lparr>pool := xs @ [b], issued := insert a (issued (callsigns h))\<rparr>)
    = ((b, True), (callsigns h)\<lparr>pool := xs, issued := insert b (insert a (issued (callsigns h)))\<rparr>)"
    by (simp add: Issue_def)
  ultimately show ?thesis
    using assms(1) by (auto simp: handleLogin_def Let_def)
qed

section \<open>Runs without a login during a clean-up\<close>

text \<open>
  A run is calm if no callsign is issued while some session has released a callsign and not yet
  taken it out of the registry.
\<close>

definition calm_step :: "Scenario \<Rightarrow> wsys \<Rightarrow> wsys \<Rightarrow> bool" where
  "calm_step sc S T \<longleftrightarrow> ws_step sc S T \<and>
     (issued (callsigns (sh T)) \<subseteq> issued (callsigns (sh S)) \<or>
      (\<forall>i s c cs. ses S i \<noteq> Some (s, Cleanup2 c cs)))"

text \<open>The callsigns a session has certainly registered.\<close>

fun surely :: "wsSession \<times> wpc \<Rightarrow> gostring set" where
  "surely (s, Reading) = set (own_callsigns s)"
| "surely (s, Login3 ps) = set (own_callsigns s) - set ps"
| "surely (s, Cleanup cs) = set cs"
| "surely (s, Cleanup2 c cs) = set cs"
| "surely (s, _) = {}"

definition calm_inv :: "wsys \<Rightarrow> bool" where
  "calm_inv S \<longleftrightarrow> own_inv S
     \<and> (\<forall>i s c cs. ses S i = Some (s, Cleanup2 c cs) \<longrightarrow> c \<notin> issued (callsigns (sh S)))
     \<and> (\<forall>i st k. ses S i = Some st \<longrightarrow> k \<in> surely st \<longrightarrow> Lookup (registry (sh S)) k = Some i)"

lemma calm_registered:
  "calm_inv S \<Longrightarrow> ses S i = Some st \<Longrightarrow> k \<in> surely st \<Longrightarrow> Lookup (registry (sh S)) k = Some i"
  unfolding calm_inv_def by blast

lemma surely_held: "k \<in> surely st \<Longrightarrow> k \<in> set (held st)"
  by (cases st rule: surely.cases) auto

lemma calm_upd:
  assumes "calm_inv S" and "own_inv (upd i s pc S)" and "surely (s, pc) \<subseteq> (case ses S i of None \<Rightarrow> {} | Some st \<Rightarrow> surely st)"
    and "\<And>c cs. pc = Cleanup2 c cs \<Longrightarrow> c \<notin> issued (callsigns (sh S))"
  shows "calm_inv (upd i s pc S)"
  using assms unfolding calm_inv_def
  by (auto split: if_splits option.splits)

lemma calm_issue:
  assumes "calm_inv S" and "own_inv (set_callsigns cm (upd i s pc S))"
    and "\<forall>i s c cs. ses S i \<noteq> Some (s, Cleanup2 c cs)" and "surely (s, pc) = {}"
    and "\<And>c cs. pc \<noteq> Cleanup2 c cs"
  shows "calm_inv (set_callsigns cm (upd i s pc S))"
  using assms unfolding calm_inv_def by (auto split: if_splits)

lemma calm_release:
  assumes "calm_inv S" and "own_inv (set_callsigns (Release c (callsigns (sh S))) (upd i s pc S))"
    and "surely (s, pc) \<subseteq> (case ses S i of None \<Rightarrow> {} | Some st \<Rightarrow> surely st)"
    and "\<And>d cs. pc = Cleanup2 d cs \<Longrightarrow> d = c"
  shows "calm_inv (set_callsigns (Release c (callsigns (sh S))) (upd i s pc S))"
  using assms unfolding calm_inv_def by (auto split: if_splits option.splits)

lemma calm_register:
  assumes "calm_inv S" and "own_inv (upd i s pc S)" and "owns (upd i s pc S) i k"
    and "surely (s, pc) \<subseteq> insert k (case ses S i of None \<Rightarrow> {} | Some st \<Rightarrow> surely st)"
    and "\<And>c cs. pc \<noteq> Cleanup2 c cs"
  shows "calm_inv (set_registry (Register k i (registry (sh S))) (upd i s pc S))"
proof -
  let ?S = "upd i s pc S"
  have own: "j = i" if "ses ?S j = Some st" "k \<in> surely st" for j st
  proof -
    have "owns ?S j k" using that surely_held by (auto simp: owns_def)
    with assms(2,3) show ?thesis unfolding own_inv_def by blast
  qed
  have "Lookup (Register k i (registry (sh S))) k' = Some j"
    if a: "ses ?S j = Some st" and b: "k' \<in> surely st" for j st k'
  proof (cases "k' = k")
    case True
    have "j = i" using own [OF a] b True by blast
    with True show ?thesis by (simp add: registry_laws)
  next
    case False
    have "\<exists>st'. ses S j = Some st' \<and> k' \<in> surely st'"
    proof (cases "j = i")
      case True
      with a b have "k' \<in> surely (s, pc)" by simp
      with False assms(4) True show ?thesis by (cases "ses S i") auto
    next
      case False
      with a b show ?thesis by simp
    qed
    with calm_registered [OF assms(1)] False show ?thesis by (auto simp: registry_laws)
  qed
  with assms show ?thesis
    unfolding calm_inv_def by (auto split: if_splits)
qed

lemma calm_unregister:
  assumes "calm_inv S" and "ses S i = Some (s, Cleanup2 c cs)"
  shows "calm_inv (set_registry (Unregister c (registry (sh S))) (upd i s (Cleanup cs) S))"
proof -
  have c: "c \<notin> issued (callsigns (sh S))" using assms unfolding calm_inv_def by blast
  have own: "own_inv S" using assms(1) by (simp add: calm_inv_def)
  have not: "c \<notin> surely st" if "ses S j = Some st" for j st
    using own_invD(3) [OF own that, of c] surely_held c by blast
  have "own_inv (upd i s (Cleanup cs) S)"
    using own_invD(1,2) [OF own assms(2)] assms(2) by (intro own_inv_keep [OF own]) (simp_all add: owns_self)
  moreover have "Lookup (Unregister c (registry (sh S))) k = Some j"
    if a: "ses (upd i s (Cleanup cs) S) j = Some st" and b: "k \<in> surely st" for j st k
  proof -
    have "\<exists>st'. ses S j = Some st' \<and> k \<in> surely st'"
      using a b assms(2) by (cases "j = i") auto
    then obtain st' where st': "ses S j = Some st'" "k \<in> surely st'" by blast
    then have "k \<noteq> c" using not by blast
    with st' calm_registered [OF assms(1)] show ?thesis by (simp add: registry_laws)
  qed
  ultimately show ?thesis
    using assms(1) unfolding calm_inv_def by (auto split: if_splits)
qed

definition no_cleanup :: "wsys \<Rightarrow> bool" where
  "no_cleanup S \<longleftrightarrow> (\<forall>i s c cs. ses S i \<noteq> Some (s, Cleanup2 c cs))"

lemma quiet_run_calm:
  "(quiet_step sc i)\<^sup>*\<^sup>* S T \<Longrightarrow> no_cleanup S \<Longrightarrow> (calm_step sc)\<^sup>*\<^sup>* S T \<and> no_cleanup T"
proof (induction rule: rtranclp_induct)
  case (step T U)
  then have "(calm_step sc)\<^sup>*\<^sup>* S T" "no_cleanup T" by simp_all
  moreover have "calm_step sc T U"
    using step(2) \<open>no_cleanup T\<close> by (simp add: calm_step_def no_cleanup_def quiet_step_def)
  moreover have "no_cleanup U"
    using step unfolding no_cleanup_def quiet_step_def by metis
  ultimately show ?case by simp
qed simp

lemma calm_step_inv:
  assumes "calm_step sc S T" and "calm_inv S"
  shows "calm_inv T"
proof -
  have st: "ws_step sc S T" and quiet: "issued (callsigns (sh T)) \<subseteq> issued (callsigns (sh S)) \<or>
      (\<forall>i s c cs. ses S i \<noteq> Some (s, Cleanup2 c cs))"
    using assms(1) by (simp_all add: calm_step_def)
  have own: "own_inv S" using assms(2) by (simp add: calm_inv_def)
  have inv: "callsign_inv (callsigns (sh S))" using own unfolding own_inv_def by blast
  have ownT: "own_inv T" using st own by (rule ws_step_inv)
  have granted: "\<not> issued cm \<subseteq> issued (callsigns (sh S))"
    if "Issue (callsigns (sh S)) = ((cs, True), cm)" for cs cm
    using callsigns.issue_granted [OF inv that] callsigns.granted_fresh [OF inv that] by auto
  have refused: "set_callsigns cm (upd i s pc S) = upd i s pc S"
    if "Issue (callsigns (sh S)) = ((cs, False), cm)" for cs cm i s pc
    using callsigns.issue_refused [OF that] by (simp add: set_callsigns_same)
  from st show ?thesis
  proof cases
    case (issue i s cs cm)
    then show ?thesis
      using quiet granted [OF issue(4)] ownT assms(2) by (simp, intro calm_issue) auto
  next
    case (issue_peer i s cs cm)
    then show ?thesis
      using quiet granted [OF issue_peer(3)] ownT assms(2) by (simp, intro calm_issue) auto
  next
    case (none_left i s cs cm)
    with ownT assms(2) refused [OF none_left(4)] show ?thesis
      by (simp, intro calm_upd) auto
  next
    case (no_peer i s cs cm)
    with ownT assms(2) refused [OF no_peer(3)] show ?thesis
      by (simp, intro calm_upd) auto
  next
    case (register_own i s)
    have "callsign s \<in> set (own_callsigns s)" "set (own_callsigns s) - set (peerCallsigns s) \<subseteq> {callsign s}"
      using own_invD(2) [OF own register_own(2)] by (auto simp: own_callsigns_def)
    with register_own ownT assms(2) show ?thesis
      by (simp, intro calm_register) auto
  next
    case (register_peer i s p ps)
    have "p \<in> set (own_callsigns s)"
      using own_invD(2) [OF own register_peer(2)] by (auto simp: own_callsigns_def)
    with register_peer ownT assms(2) show ?thesis
      by (simp, intro calm_register) auto
  next
    case (release i s c cs)
    with ownT assms(2) show ?thesis by (simp, intro calm_release) auto
  next
    case (roll_back i s)
    have "own_callsigns (s\<lparr>callsign := ''''\<rparr>) = []"
      using own_invD(2) [OF own roll_back(2)] by (simp add: own_callsigns_def)
    with roll_back ownT assms(2) show ?thesis by (simp, intro calm_release) auto
  next
    case (unregister i s c cs)
    with assms(2) show ?thesis by (simp add: calm_unregister)
  next
    case (connect i)
    with ownT assms(2) show ?thesis
      by (simp, intro calm_upd) (auto simp: own_callsigns_def newWSSession_def)
  qed (use ownT assms(2) in \<open>simp, intro calm_upd; auto\<close>)+
qed

section \<open>A session logged in\<close>

definition one_connected :: "CallsignManager \<Rightarrow> wsys" where
  "one_connected cm = upd 0 (newWSSession defaultScenario) Reading (ws_init cm)"

definition one_logged_in :: "CallsignManager \<Rightarrow> wsys" where
  "one_logged_in cm = login_done 0 (newWSSession defaultScenario) (one_connected cm)"

lemma one_connected_reachable: "ws_reachable defaultScenario cm (one_connected cm)"
  unfolding one_connected_def
  by (rule ws_reachable.step [OF ws_reachable.init ws_step.connect]) (simp add: ws_init_def)

lemma one_logged_in_reachable: "ws_reachable defaultScenario cm (one_logged_in cm)"
  unfolding one_logged_in_def
  by (rule ws_reachable_run [OF login_run one_connected_reachable]) (simp add: one_connected_def)

lemma new_manager_empty: "issued (NewCallsignManager rnd pre) = {}"
  by (simp add: NewCallsignManager_def)

lemma pool_tail:
  assumes "2 < length xs"
  shows "\<exists>ys a b c. xs = ys @ [c, b, a]"
proof -
  obtain ys a where 1: "xs = ys @ [a]" using assms by (cases xs rule: rev_cases) auto
  obtain zs b where 2: "ys = zs @ [b]" using assms 1 by (cases ys rule: rev_cases) auto
  obtain ws c where 3: "zs = ws @ [c]" using assms 1 2 by (cases zs rule: rev_cases) auto
  from 1 2 3 show ?thesis by auto
qed

lemma new_pool_tail: "\<exists>ys a b c. pool (NewCallsignManager rnd pre) = ys @ [c, b, a]"
proof -
  have "length (pool (NewCallsignManager rnd pre)) = length (buildPool pre)"
    using mset_shuffle [of rnd "buildPool pre"] unfolding NewCallsignManager_def
    by (metis CallsignManager.select_convs(2) size_mset)
  then show ?thesis by (intro pool_tail) simp
qed

lemma one_logged_in_calm: "(calm_step defaultScenario)\<^sup>*\<^sup>* (ws_init cm) (one_logged_in cm)"
proof -
  have c: "calm_step defaultScenario (ws_init cm) (one_connected cm)"
    unfolding calm_step_def one_connected_def
    by (intro conjI ws_step.connect) (simp_all add: ws_init_def)
  have "(quiet_step defaultScenario 0)\<^sup>*\<^sup>* (one_connected cm) (one_logged_in cm)"
    unfolding one_logged_in_def by (rule quiet_login) (simp add: one_connected_def)
  moreover have "no_cleanup (one_connected cm)"
    by (simp add: no_cleanup_def one_connected_def ws_init_def)
  ultimately have "(calm_step defaultScenario)\<^sup>*\<^sup>* (one_connected cm) (one_logged_in cm)"
    using quiet_run_calm by blast
  with c show ?thesis by (rule converse_rtranclp_into_rtranclp)
qed

section \<open>The race between two sessions\<close>

text \<open>
  From a manager whose pool ends in \<open>c, b, a\<close>: session 0 logs in with \<open>a\<close> and \<open>b\<close> and leaves;
  between its release of \<open>a\<close> and its taking \<open>a\<close> out of the registry, session 1 logs in.
\<close>

lemma race_run:
  assumes "pool cm = ys @ [c, b, a]" and "a \<noteq> ''''" and "b \<noteq> ''''" and "callsign_inv cm"
  shows "\<exists>S s. ws_reachable sc cm S \<and> ses S 1 = Some (s, Reading) \<and> callsign s = a
    \<and> Lookup (registry (sh S)) a = None"
proof -
  let ?s = "newWSSession sc"
  have new: "callsign ?s = ''''" by (simp add: newWSSession_def)
  define S1 where "S1 = upd 1 ?s Reading (upd 0 ?s Reading (ws_init cm))"
  have r1: "ws_reachable sc cm S1"
    unfolding S1_def
    by (intro ws_reachable.step [OF ws_reachable.step [OF ws_reachable.init ws_step.connect] ws_step.connect])
      (simp_all add: ws_init_def)
  define S2 where "S2 = login_done 0 ?s S1"
  have r2: "ws_reachable sc cm S2"
    unfolding S2_def by (rule ws_reachable_run [OF login_run r1]) (simp add: S1_def)
  obtain s0 where s0: "handleLogin 0 (sh S1, ?s) =
      (\<lparr>callsigns = cm\<lparr>pool := ys @ [c], issued := insert b (insert a (issued cm))\<rparr>,
        registry = Register b 0 (Register a 0 NewSessionRegistry)\<rparr>, s0)"
    "callsign s0 = a" "peerCallsigns s0 = [b]"
    using handleLogin_pool [OF new, of "sh S1" "ys @ [c]" b a 0] assms(1)
    by (auto simp: S1_def ws_init_def)
  then have S2: "sh S2 = \<lparr>callsigns = cm\<lparr>pool := ys @ [c], issued := insert b (insert a (issued cm))\<rparr>,
        registry = Register b 0 (Register a 0 NewSessionRegistry)\<rparr>"
    "ses S2 0 = Some (s0, Reading)" "ses S2 1 = Some (?s, Reading)"
    by (simp_all add: S2_def login_done_def) (simp add: S1_def)
  define S3 where "S3 = upd 0 s0 (Cleanup (own_callsigns s0)) S2"
  have r3: "ws_reachable sc cm S3"
    unfolding S3_def by (rule ws_reachable.step [OF r2 ws_step.leave [OF S2(2)]])
  have own: "own_callsigns s0 = [a, b]" using s0 assms by (simp add: own_callsigns_def)
  define S4 where "S4 = set_callsigns (Release a (callsigns (sh S3))) (upd 0 s0 (Cleanup2 a [b]) S3)"
  have r4: "ws_reachable sc cm S4"
    unfolding S4_def by (rule ws_reachable.step [OF r3 ws_step.release]) (simp add: S3_def own)
  have S4: "pool (callsigns (sh S4)) = ys @ [c, a]" "ses S4 1 = Some (?s, Reading)"
    "ses S4 0 = Some (s0, Cleanup2 a [b])"
    using S2 by (simp_all add: S4_def S3_def Release_def)
  define S5 where "S5 = login_done 1 ?s S4"
  have r5: "ws_reachable sc cm S5"
    unfolding S5_def by (rule ws_reachable_run [OF login_run [OF S4(2)] r4])
  obtain h s1 where h: "handleLogin 1 (sh S4, ?s) = (h, s1)" "callsign s1 = a"
    using handleLogin_pool [OF new S4(1), of 1] by auto
  then have S5: "ses S5 1 = Some (s1, Reading)" "ses S5 0 = Some (s0, Cleanup2 a [b])"
    using S4(3) by (simp_all add: S5_def login_done_def)
  define S6 where "S6 = set_registry (Unregister a (registry (sh S5))) (upd 0 s0 (Cleanup [b]) S5)"
  have "ws_reachable sc cm S6"
    unfolding S6_def by (rule ws_reachable.step [OF r5 ws_step.unregister [OF S5(2)]])
  moreover have "ses S6 1 = Some (s1, Reading)" "Lookup (registry (sh S6)) a = None"
    using S5(1) by (simp_all add: S6_def registry_laws)
  ultimately show ?thesis using h(2) by blast
qed

section \<open>Properties\<close>

text \<open>
  C8. In every interleaving of any number of sessions, from a new manager: a callsign is issued exactly
  when some session holds it (as its own, for its peer, or still to give back), so none leaks and
  when all sessions are closed all are free again; no two sessions ever hold the same callsign; and
  the issued and the free callsigns together are always the 132 of the prefix.
\<close>

theorem callsigns_held_once:
  assumes "ws_reachable sc (NewCallsignManager rnd pre) S"
  shows "issued (callsigns (sh S)) = {cs. \<exists>i. owns S i cs} \<and>
    (owns S i cs \<and> owns S j cs \<longrightarrow> i = j) \<and>
    IssuedCount (callsigns (sh S)) + length (pool (callsigns (sh S))) = 132"
proof -
  have "own_inv S"
    using assms ws_reachable_inv [OF new_manager_inv new_manager_empty] by blast
  then show ?thesis
    unfolding own_inv_def using callsign_inv_count by blast
qed

theorem callsigns_held_once_witness:
  "issued (callsigns (sh (one_logged_in (NewCallsignManager id ''S4'')))) =
     {cs. \<exists>i. owns (one_logged_in (NewCallsignManager id ''S4'')) i cs} \<and>
   IssuedCount (callsigns (sh (one_logged_in (NewCallsignManager id ''S4'')))) +
     length (pool (callsigns (sh (one_logged_in (NewCallsignManager id ''S4''))))) = 132"
  using callsigns_held_once [OF one_logged_in_reachable, of id "''S4''"] by blast

text \<open>
  A message is never routed to a session that is gone: in every interleaving, a callsign found in
  the registry leads to a session that has it among its callsigns and has not finished its
  clean-up.
\<close>

theorem registry_never_stale:
  assumes "ws_reachable sc (NewCallsignManager rnd pre) S" and "Lookup (registry (sh S)) k = Some i"
  shows "\<exists>s pc. ses S i = Some (s, pc) \<and> k \<in> entered (s, pc) \<and> pc \<noteq> Closed"
proof -
  have "reg_inv S"
    using assms(1) ws_reachable_reg [OF new_manager_inv new_manager_empty] by blast
  then obtain s pc where "ses S i = Some (s, pc)" "k \<in> entered (s, pc)"
    using assms(2) unfolding reg_inv_def by (metis surj_pair)
  then show ?thesis by (cases pc) auto
qed

theorem registry_never_stale_witness:
  "\<exists>k s pc. Lookup (registry (sh (one_logged_in (NewCallsignManager id ''S4'')))) k = Some 0 \<and>
     ses (one_logged_in (NewCallsignManager id ''S4'')) 0 = Some (s, pc) \<and> k \<in> entered (s, pc) \<and> pc \<noteq> Closed"
proof -
  let ?cm = "NewCallsignManager id ''S4''"
  obtain ys a b c where p: "pool ?cm = ys @ [c, b, a]" using new_pool_tail by blast
  have "callsign (newWSSession defaultScenario) = ''''" by (simp add: newWSSession_def)
  from handleLogin_pool [OF this, of "sh (one_connected ?cm)" "ys @ [c]" b a 0] p
  have "Lookup (registry (sh (one_logged_in ?cm))) b = Some 0"
    by (auto simp: one_logged_in_def login_done_def one_connected_def ws_init_def registry_laws)
  with registry_never_stale [OF one_logged_in_reachable this] show ?thesis by blast
qed

text \<open>
  C35. As long as nobody logs in while another session is between releasing a callsign and taking it out
  of the registry, every session that is logged in is found under its own callsign and under its
  peer's.
\<close>

theorem calm_sessions_found:
  assumes "(calm_step sc)\<^sup>*\<^sup>* (ws_init (NewCallsignManager rnd pre)) S"
    and "ses S i = Some (s, Reading)" and "k \<in> set (own_callsigns s)"
  shows "Lookup (registry (sh S)) k = Some i"
proof -
  have "calm_inv (ws_init (NewCallsignManager rnd pre))"
    using ws_reachable_inv [OF new_manager_inv new_manager_empty ws_reachable.init]
    by (simp add: calm_inv_def ws_init_def)
  from assms(1) this have "calm_inv S"
    by (induction rule: rtranclp_induct) (auto intro: calm_step_inv)
  then show ?thesis using calm_registered [of S i "(s, Reading)" k] assms(2,3) by simp
qed

theorem calm_sessions_found_witness:
  "\<exists>s k. ses (one_logged_in (NewCallsignManager id ''S4'')) 0 = Some (s, Reading) \<and>
     k \<in> set (own_callsigns s) \<and> Lookup (registry (sh (one_logged_in (NewCallsignManager id ''S4'')))) k = Some 0"
proof -
  let ?cm = "NewCallsignManager id ''S4''"
  obtain ys a b c where p: "pool ?cm = ys @ [c, b, a]" using new_pool_tail by blast
  have a: "a \<noteq> ''''" using pool_nonempty_string [OF new_manager_inv, of id "''S4''"] p by (auto simp: free_def)
  have n: "callsign (newWSSession defaultScenario) = ''''" by (simp add: newWSSession_def)
  obtain h s where h: "handleLogin 0 (sh (one_connected ?cm), newWSSession defaultScenario) = (h, s)"
    "callsign s = a"
    using handleLogin_pool [OF n, of "sh (one_connected ?cm)" "ys @ [c]" b a 0] p
    by (auto simp: one_connected_def ws_init_def)
  then have s: "ses (one_logged_in ?cm) 0 = Some (s, Reading)" "a \<in> set (own_callsigns s)"
    using a by (simp_all add: one_logged_in_def login_done_def own_callsigns_def)
  have "(calm_step defaultScenario)\<^sup>*\<^sup>* (ws_init ?cm) (one_logged_in ?cm)"
    by (rule one_logged_in_calm)
  from calm_sessions_found [OF this s] s show ?thesis by blast
qed

text \<open>
  C36. The clean-up releases a callsign before it takes it out of the registry. A session that logs in
  between the two is issued that very callsign, since the pool is last in, first out, and then its
  registration is removed by the other session: it is logged in and no message for its callsign
  reaches it. This happens from any new manager.
\<close>

theorem cleanup_login_race:
  "\<exists>S s. ws_reachable sc (NewCallsignManager rnd pre) S \<and> ses S 1 = Some (s, Reading) \<and>
     callsign s \<noteq> '''' \<and> Lookup (registry (sh S)) (callsign s) = None"
proof -
  let ?cm = "NewCallsignManager rnd pre"
  obtain ys a b c where p: "pool ?cm = ys @ [c, b, a]" using new_pool_tail by blast
  have inv: "callsign_inv ?cm" by (rule new_manager_inv)
  have "a \<noteq> ''''" "b \<noteq> ''''"
    using pool_nonempty_string [OF inv] p by (auto simp: free_def)
  with race_run [OF p _ _ inv] show ?thesis by blast
qed

text \<open>
  The login of \<open>handleLogin\<close>, run without interruption, is one of the interleavings: the sequential
  description of the method agrees with its steps, on every path (already logged in, no callsign,
  no second callsign with the first given back, success).
\<close>

theorem login_is_a_run:
  assumes "ws_reachable sc cm S" and "ses S i = Some (s, Reading)"
    and "handleLogin i (sh S, s) = (h, s')"
  shows "ws_reachable sc cm (S\<lparr>sh := h, ses := (ses S)(i \<mapsto> (s', Reading))\<rparr>)"
  using ws_reachable_run [OF login_run [OF assms(2)] assms(1)] assms(3) by (simp add: login_done_def)

theorem login_is_a_run_witness:
  "case handleLogin 0 (sh (one_connected (NewCallsignManager id ''S4'')), newWSSession defaultScenario) of
     (h, s') \<Rightarrow> ws_reachable defaultScenario (NewCallsignManager id ''S4'')
       ((one_connected (NewCallsignManager id ''S4''))\<lparr>sh := h,
          ses := (ses (one_connected (NewCallsignManager id ''S4'')))(0 \<mapsto> (s', Reading))\<rparr>)"
proof (cases "handleLogin 0 (sh (one_connected (NewCallsignManager id ''S4'')), newWSSession defaultScenario)")
  case (Pair h s')
  have "ses (one_connected (NewCallsignManager id ''S4'')) 0 = Some (newWSSession defaultScenario, Reading)"
    by (simp add: one_connected_def)
  from login_is_a_run [OF one_connected_reachable this Pair] show ?thesis unfolding Pair prod.case .
qed

end
