(* ===== verification/BridgeConn.thy ===== *)
theory BridgeConn
  imports Bridge
begin

text \<open>
  The goroutines of the game server's gRPC client, step by step: what \<open>connect\<close> of
  \<open>app/wl-game-server/bridge_client.go\<close> runs beside each other. A connection has its receive loop, a
  goroutine that handles recordings, fed by a channel of capacity 1, and a goroutine that sends the
  packets of \<open>sendCh\<close>, a channel of capacity 16 that all connections of the process share. \<open>Run\<close> dials
  again when \<open>connect\<close> has returned, but it does not wait for the goroutines of the old connection.

  The theory \<open>Bridge\<close> has each of the loops on its own. A panic in a goroutine, which ends the process,
  is left out. Here the steps of all connections interleave:
  a step of one connection, \<open>conn_step\<close>, is lifted to the list of connections by \<open>br_step\<close>. Which packets
  a call of \<open>handleAudio\<close> sends is left open (any list), so the theorems hold whatever it does; that it
  sends them one by one, each send waiting for room in the channel or for the context, is not.
\<close>

section \<open>State\<close>

text \<open>
  \<open>handling\<close> is the recording \<open>handleAudio\<close> works on, with the packets it has yet to send.
  \<open>got\<close>, \<open>handled\<close>, \<open>sentOut\<close>, \<open>lostOut\<close> record what happened: what was received, what was passed to
  \<open>handleAudio\<close>, which packets went out, and the packet whose \<open>Send\<close> failed.
\<close>

record bconn =
  audioCh :: "bytes list"
  pendingRecv :: "bytes option"
  handling :: "(bytes \<times> outgoingAudio list) option"
  handlerDone :: bool
  sending :: "outgoingAudio option"
  senderDone :: bool
  returned :: bool
  got :: "bytes list"
  handled :: "bytes list"
  sentOut :: "outgoingAudio list"
  lostOut :: "outgoingAudio list"

definition new_conn :: bconn where
  "new_conn = \<lparr>audioCh = [], pendingRecv = None, handling = None, handlerDone = False, sending = None,
     senderDone = False, returned = False, got = [], handled = [], sentOut = [], lostOut = []\<rparr>"

text \<open>
  What the connections share: the channel \<open>sendCh\<close>, and whether the context of the process is done.
  \<open>produced\<close> and \<open>taken\<close> record the packets put into the channel, and who took which.
\<close>

record bshared =
  sendCh :: "outgoingAudio list"
  ctxDone :: bool
  produced :: "outgoingAudio list"
  taken :: "(nat \<times> outgoingAudio) list"

definition sendChCap :: nat where
  "sendChCap = 16"

definition audioChCap :: nat where
  "audioChCap = 1"

text \<open>\<open>sendCtx\<close> is done when \<open>connect\<close> has returned or the context it was derived from is done.\<close>

definition sendCtxDone :: "bshared \<Rightarrow> bconn \<Rightarrow> bool" where
  "sendCtxDone sh c \<longleftrightarrow> returned c \<or> ctxDone sh"

section \<open>Steps\<close>

text \<open>
  The receive loop receives, hands over, or returns, also from the hand-over when the context is
  done. The handler takes a recording (also after the cancellation, \<open>select\<close> chooses freely),
  sends its packets into \<open>sendCh\<close>, gives them up when the context is done, finishes, or stops. The
  sender takes a packet, sends it, fails and ends, or stops.
\<close>

inductive conn_step :: "nat \<Rightarrow> bshared \<times> bconn \<Rightarrow> bshared \<times> bconn \<Rightarrow> bool" for i where
  recv: "\<not> returned c \<Longrightarrow> pendingRecv c = None \<Longrightarrow> \<not> ctxDone sh \<Longrightarrow>
    conn_step i (sh, c) (sh, c\<lparr>pendingRecv := Some d, got := got c @ [d]\<rparr>)"
| hand: "\<not> returned c \<Longrightarrow> pendingRecv c = Some d \<Longrightarrow> length (audioCh c) < audioChCap \<Longrightarrow>
    conn_step i (sh, c) (sh, c\<lparr>audioCh := audioCh c @ [d], pendingRecv := None\<rparr>)"
| ret: "\<not> returned c \<Longrightarrow> pendingRecv c = None \<Longrightarrow> conn_step i (sh, c) (sh, c\<lparr>returned := True\<rparr>)"
| ret_ctx: "\<not> returned c \<Longrightarrow> pendingRecv c = Some d \<Longrightarrow> ctxDone sh \<Longrightarrow>
    conn_step i (sh, c) (sh, c\<lparr>returned := True\<rparr>)"
| take_audio: "\<not> handlerDone c \<Longrightarrow> handling c = None \<Longrightarrow> audioCh c = d # ds \<Longrightarrow>
    conn_step i (sh, c) (sh, c\<lparr>audioCh := ds, handling := Some (d, outs), handled := handled c @ [d]\<rparr>)"
| produce: "handling c = Some (d, p # outs) \<Longrightarrow> length (sendCh sh) < sendChCap \<Longrightarrow>
    conn_step i (sh, c) (sh\<lparr>sendCh := sendCh sh @ [p], produced := produced sh @ [p]\<rparr>,
      c\<lparr>handling := Some (d, outs)\<rparr>)"
| give_up: "handling c = Some (d, p # outs) \<Longrightarrow> ctxDone sh \<Longrightarrow>
    conn_step i (sh, c) (sh, c\<lparr>handling := Some (d, [])\<rparr>)"
| finish: "handling c = Some (d, []) \<Longrightarrow> conn_step i (sh, c) (sh, c\<lparr>handling := None\<rparr>)"
| stop_handler: "\<not> handlerDone c \<Longrightarrow> handling c = None \<Longrightarrow> sendCtxDone sh c \<Longrightarrow>
    conn_step i (sh, c) (sh, c\<lparr>handlerDone := True\<rparr>)"
| take_out: "\<not> senderDone c \<Longrightarrow> sending c = None \<Longrightarrow> sendCh sh = p # ps \<Longrightarrow>
    conn_step i (sh, c) (sh\<lparr>sendCh := ps, taken := taken sh @ [(i, p)]\<rparr>, c\<lparr>sending := Some p\<rparr>)"
| send_ok: "sending c = Some p \<Longrightarrow>
    conn_step i (sh, c) (sh, c\<lparr>sending := None, sentOut := sentOut c @ [p]\<rparr>)"
| send_fail: "sending c = Some p \<Longrightarrow>
    conn_step i (sh, c) (sh, c\<lparr>sending := None, senderDone := True, lostOut := lostOut c @ [p]\<rparr>)"
| stop_sender: "\<not> senderDone c \<Longrightarrow> sending c = None \<Longrightarrow> sendCtxDone sh c \<Longrightarrow>
    conn_step i (sh, c) (sh, c\<lparr>senderDone := True\<rparr>)"

inductive_cases conn_stepE: "conn_step i (sh, c) (sh', c')"

text \<open>
  The process: a step of a connection, \<open>Run\<close> dialling again once \<open>connect\<close> has returned, or the
  cancellation of the context by a signal.
\<close>

inductive br_step :: "bshared \<times> bconn list \<Rightarrow> bshared \<times> bconn list \<Rightarrow> bool" where
  conn: "i < length cs \<Longrightarrow> conn_step i (sh, cs ! i) (sh', c') \<Longrightarrow> br_step (sh, cs) (sh', cs[i := c'])"
| dial: "\<forall>c \<in> set cs. returned c \<Longrightarrow> \<not> ctxDone sh \<Longrightarrow> br_step (sh, cs) (sh, cs @ [new_conn])"
| cancel: "br_step (sh, cs) (sh\<lparr>ctxDone := True\<rparr>, cs)"

definition br_init :: "bshared \<times> bconn list" where
  "br_init = (\<lparr>sendCh = [], ctxDone = False, produced = [], taken = []\<rparr>, [])"

inductive br_reachable :: "bshared \<times> bconn list \<Rightarrow> bool" where
  init: "br_reachable br_init"
| step: "br_reachable S \<Longrightarrow> br_step S T \<Longrightarrow> br_reachable T"

section \<open>The invariant\<close>

definition opt_list :: "'a option \<Rightarrow> 'a list" where
  "opt_list x = (case x of None \<Rightarrow> [] | Some y \<Rightarrow> [y])"

lemma opt_list_simps [simp]: "opt_list None = []" "opt_list (Some y) = [y]"
  by (simp_all add: opt_list_def)

definition taken_by :: "nat \<Rightarrow> bshared \<Rightarrow> outgoingAudio list" where
  "taken_by i sh = map snd (filter (\<lambda>(k, p). k = i) (taken sh))"

text \<open>Of one connection, and of what is shared.\<close>

definition conn_inv :: "nat \<Rightarrow> bshared \<Rightarrow> bconn \<Rightarrow> bool" where
  "conn_inv i sh c \<longleftrightarrow> length (audioCh c) \<le> audioChCap \<and>
     got c = handled c @ audioCh c @ opt_list (pendingRecv c) \<and>
     (\<forall>d outs. handling c = Some (d, outs) \<longrightarrow> handled c \<noteq> [] \<and> last (handled c) = d) \<and>
     taken_by i sh = sentOut c @ lostOut c @ opt_list (sending c) \<and>
     length (lostOut c) \<le> 1 \<and> (lostOut c \<noteq> [] \<longrightarrow> senderDone c) \<and> (senderDone c \<longrightarrow> sending c = None)"

definition shared_inv :: "bshared \<Rightarrow> bool" where
  "shared_inv sh \<longleftrightarrow> length (sendCh sh) \<le> sendChCap \<and> map snd (taken sh) @ sendCh sh = produced sh"

definition br_inv :: "bshared \<times> bconn list \<Rightarrow> bool" where
  "br_inv = (\<lambda>(sh, cs). shared_inv sh \<and> (\<forall>i < length cs. conn_inv i sh (cs ! i)) \<and>
     (\<forall>i \<ge> length cs. taken_by i sh = []) \<and> (\<forall>c \<in> set (butlast cs). returned c))"

lemma conn_step_inv:
  assumes "conn_step i (sh, c) (sh', c')" and "conn_inv i sh c" and "shared_inv sh"
  shows "conn_inv i sh' c'" and "shared_inv sh'"
    and "k \<noteq> i \<Longrightarrow> taken_by k sh' = taken_by k sh" and "returned c \<Longrightarrow> returned c'"
proof -
  show "conn_inv i sh' c'"
    using assms by (cases rule: conn_stepE) (auto simp: conn_inv_def taken_by_def)
  show "shared_inv sh'"
    using assms(1,3) by (cases rule: conn_stepE) (auto simp: shared_inv_def)
  show "k \<noteq> i \<Longrightarrow> taken_by k sh' = taken_by k sh"
    using assms(1) by (cases rule: conn_stepE) (auto simp: taken_by_def)
  show "returned c \<Longrightarrow> returned c'"
    using assms(1) by (cases rule: conn_stepE) auto
qed

lemma conn_inv_other: "taken_by i sh' = taken_by i sh \<Longrightarrow> conn_inv i sh' c = conn_inv i sh c"
  by (simp add: conn_inv_def)

lemma br_step_inv: "br_step S T \<Longrightarrow> br_inv S \<Longrightarrow> br_inv T"
proof (induction rule: br_step.induct)
  case (conn i cs sh sh' c')
  then have c: "conn_inv i sh (cs ! i)" and s: "shared_inv sh" by (simp_all add: br_inv_def)
  note inv = conn_step_inv [OF conn(2) c s]
  have "conn_inv k sh' (cs[i := c'] ! k)" if "k < length cs" for k
    using that inv(1,3) conn(3) conn_inv_other [of k sh' sh]
    by (cases "k = i") (simp_all add: br_inv_def)
  moreover have "returned b" if "b \<in> set (butlast (cs[i := c']))" for b
  proof -
    from that obtain k where k: "k < length cs - 1" "b = cs[i := c'] ! k"
      by (auto simp: in_set_conv_nth nth_butlast)
    then have "cs ! k \<in> set (butlast cs)" by (auto simp: in_set_conv_nth nth_butlast)
    then have "returned (cs ! k)" using conn(3) by (simp add: br_inv_def)
    with k inv(4) show ?thesis by (cases "k = i") simp_all
  qed
  ultimately show ?case using inv(2,3) conn(1,3) by (simp add: br_inv_def)
next
  case (dial cs sh)
  have "conn_inv (length cs) sh new_conn"
    using dial(3) by (simp add: br_inv_def conn_inv_def new_conn_def audioChCap_def)
  with dial show ?case by (auto simp: br_inv_def nth_append less_Suc_eq)
next
  case (cancel sh cs)
  then show ?case by (simp add: br_inv_def shared_inv_def conn_inv_def taken_by_def)
qed

lemma br_reachable_inv: "br_reachable S \<Longrightarrow> br_inv S"
proof (induction rule: br_reachable.induct)
  case init
  show ?case by (simp add: br_init_def br_inv_def shared_inv_def taken_by_def)
qed (simp add: br_step_inv)

section \<open>Runs\<close>

lemma conn_run:
  "(conn_step i)\<^sup>*\<^sup>* x y \<Longrightarrow> i < length cs \<Longrightarrow> cs ! i = snd x \<Longrightarrow>
   br_step\<^sup>*\<^sup>* (fst x, cs) (fst y, cs[i := snd y])"
proof (induction rule: rtranclp_induct)
  case base
  then show ?case by (metis list_update_id rtranclp.rtrancl_refl)
next
  case (step y z)
  have "br_step (fst y, cs[i := snd y]) (fst z, cs[i := snd y, i := snd z])"
    using step by (intro br_step.conn) simp_all
  with step show ?case by (auto intro: rtranclp.rtrancl_into_rtrancl)
qed

lemma conn_run_step:
  "(conn_step i)\<^sup>*\<^sup>* x y \<Longrightarrow> conn_step i y z \<Longrightarrow> (conn_step i)\<^sup>*\<^sup>* x z"
  by (rule rtranclp.rtrancl_into_rtrancl)

lemma conn_step_run:
  "conn_step i x y \<Longrightarrow> (conn_step i)\<^sup>*\<^sup>* y z \<Longrightarrow> (conn_step i)\<^sup>*\<^sup>* x z"
  by (rule converse_rtranclp_into_rtranclp)

lemma br_reachable_run: "br_step\<^sup>*\<^sup>* S T \<Longrightarrow> br_reachable S \<Longrightarrow> br_reachable T"
  by (induction rule: rtranclp_induct) (auto intro: br_reachable.step)

text \<open>The sender, left to itself, sends all that waits in the channel.\<close>

lemma sender_flushes:
  "\<not> senderDone c \<Longrightarrow> (conn_step i)\<^sup>*\<^sup>* (sh, c)
     (sh\<lparr>sendCh := [], taken := taken sh @ map (Pair i) (sendCh sh)\<rparr>,
      c\<lparr>sending := None, sentOut := sentOut c @ opt_list (sending c) @ sendCh sh\<rparr>)"
proof (induction "sendCh sh" arbitrary: sh c)
  case Nil
  then show ?case
  proof (cases "sending c")
    case None
    with Nil show ?thesis by (cases sh; cases c) simp
  next
    case (Some p)
    from conn_step.send_ok [OF this, of i sh] Nil Some show ?thesis
      by (cases sh) (auto intro!: r_into_rtranclp)
  qed
next
  case (Cons p ps)
  let ?c = "c\<lparr>sending := None, sentOut := sentOut c @ opt_list (sending c)\<rparr>"
  let ?sh = "sh\<lparr>sendCh := ps, taken := taken sh @ [(i, p)]\<rparr>"
  have send: "(conn_step i)\<^sup>*\<^sup>* (sh, c) (sh, ?c)"
  proof (cases "sending c")
    case None
    then show ?thesis by (cases c) simp
  next
    case (Some q)
    from conn_step.send_ok [OF this, of i sh] Some show ?thesis by (auto intro!: r_into_rtranclp)
  qed
  have take: "conn_step i (sh, ?c) (?sh, ?c\<lparr>sending := Some p\<rparr>)"
    using Cons.prems Cons.hyps(2) by (intro conn_step.take_out) simp_all
  have rest: "(conn_step i)\<^sup>*\<^sup>* (?sh, ?c\<lparr>sending := Some p\<rparr>)
     (?sh\<lparr>sendCh := [], taken := taken ?sh @ map (Pair i) (sendCh ?sh)\<rparr>,
      ?c\<lparr>sending := None, sentOut := sentOut ?c @ [p] @ ps\<rparr>)"
    using Cons.hyps(1) [of ?sh "?c\<lparr>sending := Some p\<rparr>"] Cons.prems by simp
  from rtranclp_trans [OF conn_run_step [OF send take] rest] show ?case
    by (simp flip: Cons.hyps(2))
qed

text \<open>The handler puts packets into the channel while there is room.\<close>

lemma handler_fills:
  "handling c = Some (d, ps @ qs) \<Longrightarrow> length (sendCh sh) + length ps \<le> sendChCap \<Longrightarrow>
   (conn_step i)\<^sup>*\<^sup>* (sh, c)
     (sh\<lparr>sendCh := sendCh sh @ ps, produced := produced sh @ ps\<rparr>, c\<lparr>handling := Some (d, qs)\<rparr>)"
proof (induction ps arbitrary: sh c)
  case Nil
  then show ?case by (cases sh; cases c) simp
next
  case (Cons p ps)
  let ?sh = "sh\<lparr>sendCh := sendCh sh @ [p], produced := produced sh @ [p]\<rparr>"
  let ?c = "c\<lparr>handling := Some (d, ps @ qs)\<rparr>"
  have put: "conn_step i (sh, c) (?sh, ?c)" using Cons.prems by (intro conn_step.produce) simp_all
  have rest: "(conn_step i)\<^sup>*\<^sup>* (?sh, ?c) (?sh\<lparr>sendCh := sendCh ?sh @ ps, produced := produced ?sh @ ps\<rparr>,
      ?c\<lparr>handling := Some (d, qs)\<rparr>)"
    using Cons.prems by (intro Cons.IH) simp_all
  from conn_step_run [OF put rest] show ?case by simp
qed

text \<open>Handler and sender together get all packets of a recording out.\<close>

lemma handler_and_sender:
  "handling c = Some (d, outs) \<Longrightarrow> \<not> senderDone c \<Longrightarrow>
   \<exists>sh' c'. (conn_step i)\<^sup>*\<^sup>* (sh, c) (sh', c') \<and> handling c' = None \<and> sendCh sh' = [] \<and>
     produced sh' = produced sh @ outs \<and> returned c' = returned c \<and>
     sentOut c' = sentOut c @ opt_list (sending c) @ sendCh sh @ outs"
proof (induction outs arbitrary: sh c)
  case Nil
  let ?sh = "sh\<lparr>sendCh := [], taken := taken sh @ map (Pair i) (sendCh sh)\<rparr>"
  let ?c = "c\<lparr>sending := None, sentOut := sentOut c @ opt_list (sending c) @ sendCh sh\<rparr>"
  have flush: "(conn_step i)\<^sup>*\<^sup>* (sh, c) (?sh, ?c)" using Nil by (intro sender_flushes)
  have "conn_step i (?sh, ?c) (?sh, ?c\<lparr>handling := None\<rparr>)"
    using Nil by (intro conn_step.finish) simp
  from conn_run_step [OF flush this] show ?case by fastforce
next
  case (Cons p outs)
  let ?sh = "sh\<lparr>sendCh := [], taken := taken sh @ map (Pair i) (sendCh sh)\<rparr>"
  let ?c = "c\<lparr>sending := None, sentOut := sentOut c @ opt_list (sending c) @ sendCh sh\<rparr>"
  let ?sh1 = "?sh\<lparr>sendCh := [p], produced := produced sh @ [p]\<rparr>"
  let ?c1 = "?c\<lparr>handling := Some (d, outs)\<rparr>"
  have flush: "(conn_step i)\<^sup>*\<^sup>* (sh, c) (?sh, ?c)" using Cons.prems by (intro sender_flushes)
  have "conn_step i (?sh, ?c) (?sh1, ?c1)"
    using conn_step.produce [of ?c d p outs ?sh i] Cons.prems by (simp add: sendChCap_def)
  note run = conn_run_step [OF flush this]
  have "handling ?c1 = Some (d, outs)" "\<not> senderDone ?c1" using Cons.prems by simp_all
  from Cons.IH [OF this, of ?sh1] obtain sh' c' where "(conn_step i)\<^sup>*\<^sup>* (?sh1, ?c1) (sh', c')"
    and c': "handling c' = None" "sendCh sh' = []" "produced sh' = produced ?sh1 @ outs"
    "returned c' = returned ?c1" "sentOut c' = sentOut ?c1 @ opt_list (sending ?c1) @ sendCh ?sh1 @ outs"
    by blast
  from rtranclp_trans [OF run this(1)] c' show ?case by (intro exI [of _ sh'] exI [of _ c']) simp
qed

section \<open>Properties\<close>

text \<open>
  C16. Nothing is reordered between the client's goroutines, over any number of connections: every
  packet put into the send channel is taken by one connection, in the order of the channel, and a
  connection has sent what it took but for at most one packet whose send failed and one it is
  sending; the recordings received on a connection are handled in order, those not handled yet are
  at most one in its channel and one waiting to get in; and all connections but the last have
  returned.
\<close>

theorem bridge_conserves:
  assumes "br_reachable (sh, cs)" and "i < length cs"
  shows "map snd (taken sh) @ sendCh sh = produced sh \<and> length (sendCh sh) \<le> 16 \<and>
    taken_by i sh = sentOut (cs ! i) @ lostOut (cs ! i) @ opt_list (sending (cs ! i)) \<and>
    length (lostOut (cs ! i)) \<le> 1 \<and>
    got (cs ! i) = handled (cs ! i) @ audioCh (cs ! i) @ opt_list (pendingRecv (cs ! i)) \<and>
    length (audioCh (cs ! i)) \<le> 1 \<and> (Suc i < length cs \<longrightarrow> returned (cs ! i))"
proof -
  have inv: "shared_inv sh" "conn_inv i sh (cs ! i)" "\<forall>c \<in> set (butlast cs). returned c"
    using br_reachable_inv [OF assms(1)] assms(2) by (simp_all add: br_inv_def)
  have "Suc i < length cs \<Longrightarrow> cs ! i \<in> set (butlast cs)"
    by (auto simp: in_set_conv_nth nth_butlast intro!: exI [of _ i])
  with inv show ?thesis
    by (auto simp: shared_inv_def conn_inv_def sendChCap_def audioChCap_def)
qed

text \<open>
  A run: the first connection takes a recording and handles it as the connection ends; the second
  one, dialled meanwhile, receives a recording and handles it too.
\<close>

definition busy_conn :: "bytes \<Rightarrow> bconn" where
  "busy_conn d = new_conn\<lparr>handling := Some (d, []), got := [d], handled := [d]\<rparr>"

lemma conn_takes:
  assumes "br_reachable (sh, cs @ [new_conn])" and "\<not> ctxDone sh"
  shows "br_reachable (sh, cs @ [busy_conn d\<lparr>handling := Some (d, outs)\<rparr>])"
proof -
  have one: "br_reachable (sh, cs @ [c'])"
    if "br_reachable (sh, cs @ [c])" and "conn_step (length cs) (sh, c) (sh, c')" for c c'
    using br_reachable.step [OF that(1) br_step.conn, of "length cs" sh c'] that(2) by simp
  let ?c1 = "new_conn\<lparr>pendingRecv := Some d, got := [d]\<rparr>"
  let ?c2 = "?c1\<lparr>audioCh := [d], pendingRecv := None\<rparr>"
  have "conn_step (length cs) (sh, new_conn) (sh, ?c1)"
    using conn_step.recv [of new_conn sh "length cs" d] assms(2) by (simp add: new_conn_def)
  with assms(1) one have "br_reachable (sh, cs @ [?c1])" by blast
  moreover have "conn_step (length cs) (sh, ?c1) (sh, ?c2)"
    using conn_step.hand [of ?c1 d "length cs" sh] by (simp add: new_conn_def audioChCap_def)
  ultimately have "br_reachable (sh, cs @ [?c2])" using one by blast
  moreover have "conn_step (length cs) (sh, ?c2) (sh, busy_conn d\<lparr>handling := Some (d, outs)\<rparr>)"
    using conn_step.take_audio [of ?c2 d "[]" "length cs" sh outs] by (simp add: new_conn_def busy_conn_def)
  ultimately show ?thesis using one by blast
qed

lemma conn_becomes_busy:
  assumes "br_reachable (sh, cs @ [new_conn])" and "\<not> ctxDone sh"
  shows "br_reachable (sh, cs @ [busy_conn d])"
  using conn_takes [OF assms, of d "[]"] by (simp add: busy_conn_def new_conn_def)

lemma first_conn: "br_reachable (fst br_init, [new_conn])"
proof -
  have "br_step br_init (fst br_init, [new_conn])"
    using br_step.dial [of "[]" "fst br_init"] by (simp add: br_init_def)
  with br_reachable.init show ?thesis by (rule br_reachable.step)
qed

lemma two_busy:
  "br_reachable (fst br_init, [busy_conn [1]\<lparr>returned := True\<rparr>, busy_conn [2]])"
proof -
  let ?sh = "fst br_init"
  have live: "\<not> ctxDone ?sh" by (simp add: br_init_def)
  have "br_reachable (?sh, [busy_conn [1]])" using conn_becomes_busy [of ?sh "[]" "[1]"] first_conn live by simp
  moreover have "br_step (?sh, [busy_conn [1]]) (?sh, [busy_conn [1]\<lparr>returned := True\<rparr>])"
    using br_step.conn [OF _ conn_step.ret, of 0 "[busy_conn [1]]" ?sh]
    by (simp add: busy_conn_def new_conn_def)
  ultimately have "br_reachable (?sh, [busy_conn [1]\<lparr>returned := True\<rparr>])" by (rule br_reachable.step)
  moreover have "br_step (?sh, [busy_conn [1]\<lparr>returned := True\<rparr>]) (?sh, [busy_conn [1]\<lparr>returned := True\<rparr>] @ [new_conn])"
    by (rule br_step.dial) (simp_all add: br_init_def)
  ultimately have "br_reachable (?sh, [busy_conn [1]\<lparr>returned := True\<rparr>] @ [new_conn])"
    by (rule br_reachable.step)
  from conn_becomes_busy [OF this, of "[2]"] live show ?thesis by simp
qed

theorem bridge_conserves_witness:
  "map snd (taken (fst br_init)) @ sendCh (fst br_init) = produced (fst br_init) \<and>
    taken_by 1 (fst br_init) = [] \<and> got (busy_conn [2]) = handled (busy_conn [2])"
  using bridge_conserves [OF two_busy, of 1] by (simp add: busy_conn_def new_conn_def)

text \<open>
  Recordings are not always handled one after the other: after a reconnection two of them can
  be in \<open>handleAudio\<close> at the same time, that of the old connection, for whose goroutine nobody waits, and
  that of the new one.
\<close>

theorem handlers_overlap:
  "\<exists>sh c1 c2. br_reachable (sh, [c1, c2]) \<and> handling c1 = Some ([1], []) \<and> handling c2 = Some ([2], [])"
  using two_busy by (fastforce simp: busy_conn_def new_conn_def)

text \<open>
  C17. A live sender gets everything out: in every reachable state in which a connection handles a
  recording and its sending goroutine has not ended, there is a run in which the handler finishes
  and, one after the other, the packet being sent, those waiting in the channel (full or not) and
  all packets of the recording are sent on this connection, and the channel is empty.
\<close>

theorem live_sender_drains:
  assumes "br_reachable (sh, cs)" and "i < length cs"
    and "handling (cs ! i) = Some (d, outs)" and "\<not> senderDone (cs ! i)"
  shows "\<exists>sh' c'. br_step\<^sup>*\<^sup>* (sh, cs) (sh', cs[i := c']) \<and> br_reachable (sh', cs[i := c']) \<and>
    handling c' = None \<and> sendCh sh' = [] \<and> produced sh' = produced sh @ outs \<and>
    sentOut c' = sentOut (cs ! i) @ opt_list (sending (cs ! i)) @ sendCh sh @ outs"
proof -
  obtain sh' c' where run: "(conn_step i)\<^sup>*\<^sup>* (sh, cs ! i) (sh', c')"
    and c': "handling c' = None" "sendCh sh' = []" "produced sh' = produced sh @ outs"
    "sentOut c' = sentOut (cs ! i) @ opt_list (sending (cs ! i)) @ sendCh sh @ outs"
    using handler_and_sender [OF assms(3,4)] by blast
  have "br_step\<^sup>*\<^sup>* (sh, cs) (sh', cs[i := c'])"
    using conn_run [OF run assms(2)] by simp
  with br_reachable_run [OF this assms(1)] c' show ?thesis by blast
qed

theorem live_sender_drains_witness:
  "\<exists>sh' c'. br_step\<^sup>*\<^sup>* (fst br_init, [busy_conn [1]\<lparr>returned := True\<rparr>, busy_conn [2]])
      (sh', [busy_conn [1]\<lparr>returned := True\<rparr>, c']) \<and> handling c' = None \<and> sentOut c' = []"
  using live_sender_drains [OF two_busy, of 1 "[2]" "[]"]
  by (simp add: busy_conn_def new_conn_def br_init_def) blast

text \<open>
  The run into the deadlock: the handler has 18 packets to send. The first is taken by the sender,
  whose send fails, so the sender ends; sixteen more fill the channel. Meanwhile a second
  recording waits in the handler's channel, and the receive loop holds a third.
\<close>

definition wedged_conn :: bconn where
  "wedged_conn = new_conn\<lparr>audioCh := [[2]], pendingRecv := Some [3], handling := Some ([1], [oneshot []]),
     senderDone := True, got := [[1], [2], [3]], handled := [[1]], lostOut := [oneshot []]\<rparr>"

definition wedged_shared :: bshared where
  "wedged_shared = \<lparr>sendCh = replicate 16 (oneshot []), ctxDone = False,
     produced = replicate 17 (oneshot []), taken = [(0, oneshot [])]\<rparr>"

lemma wedge_reachable: "br_reachable (wedged_shared, [wedged_conn])"
proof -
  let ?p = "oneshot []" and ?sh = "fst br_init"
  let ?c1 = "new_conn\<lparr>pendingRecv := Some [1], got := [[1]]\<rparr>"
  let ?c2 = "?c1\<lparr>audioCh := [[1]], pendingRecv := None\<rparr>"
  let ?c3 = "?c2\<lparr>audioCh := [], handling := Some ([1], replicate 18 ?p), handled := [[1]]\<rparr>"
  let ?c4 = "?c3\<lparr>pendingRecv := Some [2], got := [[1], [2]]\<rparr>"
  let ?c5 = "?c4\<lparr>audioCh := [[2]], pendingRecv := None\<rparr>"
  let ?c6 = "?c5\<lparr>pendingRecv := Some [3], got := [[1], [2], [3]]\<rparr>"
  let ?sh7 = "?sh\<lparr>sendCh := [?p], produced := [?p]\<rparr>" and ?c7 = "?c6\<lparr>handling := Some ([1], replicate 17 ?p)\<rparr>"
  let ?sh8 = "?sh7\<lparr>sendCh := [], taken := [(0, ?p)]\<rparr>" and ?c8 = "?c7\<lparr>sending := Some ?p\<rparr>"
  let ?c9 = "?c8\<lparr>sending := None, senderDone := True, lostOut := [?p]\<rparr>"
  have rep: "replicate 18 ?p = ?p # replicate 17 ?p" "replicate 17 ?p = replicate 16 ?p @ [?p]"
    by (simp_all add: eval_nat_numeral)
  note defs = new_conn_def br_init_def sendChCap_def audioChCap_def
  have s1: "conn_step 0 (?sh, new_conn) (?sh, ?c1)"
    using conn_step.recv [of new_conn ?sh 0 "[1]"] by (simp add: defs)
  have s2: "conn_step 0 (?sh, ?c1) (?sh, ?c2)"
    using conn_step.hand [of ?c1 "[1]" 0 ?sh] by (simp add: defs)
  have s3: "conn_step 0 (?sh, ?c2) (?sh, ?c3)"
    using conn_step.take_audio [of ?c2 "[1]" "[]" 0 ?sh "replicate 18 ?p"] by (simp add: defs)
  have s4: "conn_step 0 (?sh, ?c3) (?sh, ?c4)"
    using conn_step.recv [of ?c3 ?sh 0 "[2]"] by (simp add: defs)
  have s5: "conn_step 0 (?sh, ?c4) (?sh, ?c5)"
    using conn_step.hand [of ?c4 "[2]" 0 ?sh] by (simp add: defs)
  have s6: "conn_step 0 (?sh, ?c5) (?sh, ?c6)"
    using conn_step.recv [of ?c5 ?sh 0 "[3]"] by (simp add: defs)
  have s7: "conn_step 0 (?sh, ?c6) (?sh7, ?c7)"
    using conn_step.produce [of ?c6 "[1]" ?p "replicate 17 ?p" ?sh 0] rep(1) by (simp add: defs)
  have s8: "conn_step 0 (?sh7, ?c7) (?sh8, ?c8)"
    using conn_step.take_out [of ?c7 ?sh7 ?p "[]" 0] by (simp add: defs)
  have s9: "conn_step 0 (?sh8, ?c8) (?sh8, ?c9)"
    using conn_step.send_fail [of ?c8 ?p 0 ?sh8] by (simp add: defs)
  have s10: "(conn_step 0)\<^sup>*\<^sup>* (?sh8, ?c9) (wedged_shared, wedged_conn)"
    using handler_fills [of ?c9 "[1]" "replicate 16 ?p" "[?p]" ?sh8 0] rep(2)
    by (simp add: defs wedged_shared_def wedged_conn_def eval_nat_numeral)
  note step = conn_step_run [of 0]
  note run = step [OF s1 step [OF s2 step [OF s3 step [OF s4 step [OF s5 step [OF s6 step [OF s7
    step [OF s8 step [OF s9 s10]]]]]]]]]
  have "br_step\<^sup>*\<^sup>* (?sh, [new_conn]) (wedged_shared, [wedged_conn])"
    using conn_run [OF run, of "[new_conn]"] by simp
  then show ?thesis using first_conn by (rule br_reachable_run)
qed

text \<open>
  C18. A failed send can stop the client for good: there is a reachable state, with the context not
  done and \<open>connect\<close> not returned, in which nothing but the cancellation of the whole process can
  happen. The sending goroutine ended on the failed send, the handler waits for room in the
  channel nobody empties, and the receive loop waits for the handler, so it never learns that the
  connection is broken and \<open>Run\<close> never dials again.
\<close>

theorem failed_send_wedges:
  "br_reachable (wedged_shared, [wedged_conn]) \<and> \<not> ctxDone wedged_shared \<and> \<not> returned wedged_conn \<and>
   {T. br_step (wedged_shared, [wedged_conn]) T} = {(wedged_shared\<lparr>ctxDone := True\<rparr>, [wedged_conn])}"
proof -
  have stuck: "\<not> conn_step 0 (wedged_shared, wedged_conn) (sh', c')" for sh' c'
    by (auto elim!: conn_stepE simp: wedged_shared_def wedged_conn_def new_conn_def sendChCap_def
        audioChCap_def sendCtxDone_def)
  have open_conn: "\<not> returned wedged_conn" by (simp add: wedged_conn_def new_conn_def)
  have "br_step (wedged_shared, [wedged_conn]) T \<longleftrightarrow> T = (wedged_shared\<lparr>ctxDone := True\<rparr>, [wedged_conn])" for T
    using stuck br_step.cancel [of wedged_shared "[wedged_conn]"] open_conn
    by (auto elim!: br_step.cases)
  then show ?thesis
    using wedge_reachable by (auto simp: wedged_shared_def wedged_conn_def new_conn_def)
qed

section \<open>Shutdown\<close>

text \<open>
  What the goroutines of a connection have left to do, for the termination of a shutdown: first the
  recordings that wait, since taking one may add any number of packets; then the packets, each on
  its way through channel and sender, and the goroutines that have not ended.
\<close>

definition conn_waiting :: "bconn \<Rightarrow> nat" where
  "conn_waiting c = length (audioCh c) + length (opt_list (pendingRecv c))"

fun running :: "bool \<Rightarrow> nat" where
  "running True = 0"
| "running False = 1"

definition conn_work :: "bconn \<Rightarrow> nat" where
  "conn_work c = (case handling c of None \<Rightarrow> 0 | Some (d, outs) \<Rightarrow> 1 + 3 * length outs) +
     length (opt_list (sending c)) + length (opt_list (pendingRecv c)) +
     running (returned c) + running (handlerDone c) + running (senderDone c)"

definition br_waiting :: "bshared \<times> bconn list \<Rightarrow> nat" where
  "br_waiting = (\<lambda>(sh, cs). sum_list (map conn_waiting cs))"

definition br_work :: "bshared \<times> bconn list \<Rightarrow> nat" where
  "br_work = (\<lambda>(sh, cs). 2 * length (sendCh sh) + sum_list (map conn_work cs))"

text \<open>Every goroutine of a connection has ended.\<close>

definition conn_stopped :: "bconn \<Rightarrow> bool" where
  "conn_stopped c \<longleftrightarrow> returned c \<and> handlerDone c \<and> senderDone c \<and> handling c = None \<and> sending c = None"

lemma conn_step_decreases:
  assumes "conn_step i (sh, c) (sh', c')" and "ctxDone sh"
  shows "conn_waiting c' < conn_waiting c \<or> conn_waiting c' = conn_waiting c \<and>
    2 * length (sendCh sh') + conn_work c' < 2 * length (sendCh sh) + conn_work c"
  using assms by (cases rule: conn_stepE) (auto simp: conn_waiting_def conn_work_def)

lemma sum_list_update_add:
  "i < length xs \<Longrightarrow> sum_list (map f (xs[i := y])) + f (xs ! i) = sum_list (map f xs) + (f y :: nat)"
proof (induction xs arbitrary: i)
  case (Cons x xs)
  show ?case
  proof (cases i)
    case (Suc j)
    with Cons.IH [of j] Cons.prems show ?thesis by simp
  qed simp
qed simp

lemma br_step_decreases:
  assumes "br_step S T" and "ctxDone (fst S)" and "T \<noteq> S"
  shows "(T, S) \<in> br_waiting <*mlex*> measure br_work"
  using assms
proof (induction rule: br_step.induct)
  case (conn i cs sh sh' c')
  have "conn_waiting c' < conn_waiting (cs ! i) \<or> conn_waiting c' = conn_waiting (cs ! i) \<and>
      2 * length (sendCh sh') + conn_work c' < 2 * length (sendCh sh) + conn_work (cs ! i)"
    using conn_step_decreases [OF conn(2)] conn(3) by simp
  with sum_list_update_add [OF conn(1), of conn_waiting c'] sum_list_update_add [OF conn(1), of conn_work c']
  show ?case by (auto simp: mlex_iff br_waiting_def br_work_def)
next
  case (cancel sh cs)
  then have "sh\<lparr>ctxDone := True\<rparr> = sh" by (cases sh) simp
  with cancel show ?case by simp
qed simp

lemma conn_progress:
  assumes "ctxDone sh" and "\<not> conn_stopped c"
  shows "\<exists>sh' c'. conn_step i (sh, c) (sh', c') \<and> (sh', c') \<noteq> (sh, c)"
proof -
  have moves: "\<exists>sh' c'. conn_step i (sh, c) (sh', c')"
  proof (cases "handling c")
    case (Some w)
    then obtain d outs where w: "handling c = Some (d, outs)" by (cases w) auto
    show ?thesis
    proof (cases outs)
      case Nil
      with w conn_step.finish [of c d i sh] show ?thesis by blast
    next
      case (Cons p ps)
      with w assms(1) conn_step.give_up [of c d p ps sh i] show ?thesis by blast
    qed
  next
    case handler: None
    show ?thesis
    proof (cases "sending c")
      case (Some p)
      from conn_step.send_ok [OF this, of i sh] show ?thesis by blast
    next
      case sender: None
      have "sendCtxDone sh c" using assms(1) by (simp add: sendCtxDone_def)
      then show ?thesis
        using assms handler sender conn_step.stop_handler [of c sh i] conn_step.stop_sender [of c sh i]
          conn_step.ret [of c i sh] conn_step.ret_ctx [of c _ sh i]
        by (cases "pendingRecv c") (auto simp: conn_stopped_def)
    qed
  qed
  then obtain sh' c' where step: "conn_step i (sh, c) (sh', c')" by blast
  from conn_step_decreases [OF this assms(1)] have "(sh', c') \<noteq> (sh, c)" by auto
  with step show ?thesis by blast
qed

lemma stopped_no_step: "conn_stopped c \<Longrightarrow> \<not> conn_step i (sh, c) (sh', c')"
  by (auto elim!: conn_stepE simp: conn_stopped_def)

text \<open>With the context done, only a process all of whose goroutines have ended can do nothing more.\<close>

lemma quiet_iff_stopped:
  assumes "ctxDone sh"
  shows "{T. br_step (sh, cs) T} = {(sh, cs)} \<longleftrightarrow> list_all conn_stopped cs"
proof
  assume quiet: "{T. br_step (sh, cs) T} = {(sh, cs)}"
  show "list_all conn_stopped cs"
  proof (rule ccontr)
    assume "\<not> list_all conn_stopped cs"
    then obtain i where i: "i < length cs" "\<not> conn_stopped (cs ! i)" by (auto simp: list_all_length)
    then obtain sh' c' where "conn_step i (sh, cs ! i) (sh', c')" "(sh', c') \<noteq> (sh, cs ! i)"
      using conn_progress [OF assms i(2)] by blast
    with br_step.conn [OF i(1), of sh sh' c'] quiet have "(sh', cs[i := c']) = (sh, cs)" by blast
    with i(1) \<open>(sh', c') \<noteq> (sh, cs ! i)\<close> show False by (metis Pair_inject nth_list_update_eq)
  qed
next
  assume all: "list_all conn_stopped cs"
  have same: "sh\<lparr>ctxDone := True\<rparr> = sh" using assms by (cases sh) simp
  have "T = (sh, cs)" if "br_step (sh, cs) T" for T
    using that
  proof (cases rule: br_step.cases)
    case (conn i sh' c')
    with all stopped_no_step [of "cs ! i" i sh sh' c'] show ?thesis by (simp add: list_all_length)
  qed (use assms same in simp_all)
  moreover have "br_step (sh, cs) (sh, cs)" using br_step.cancel [of sh cs] same by simp
  ultimately show "{T. br_step (sh, cs) T} = {(sh, cs)}" by blast
qed

text \<open>
  C19. Shutdown completes. Once the context of the process is done, the client's goroutines take only
  finitely many steps more, however they interleave, whatever is still queued and whichever sends
  fail; and they come to rest exactly when every receive loop has returned and every handler and
  every sender has ended, so no goroutine is left waiting for another (as one is, without the
  cancellation, in the state of the failed send).
\<close>

theorem shutdown_completes:
  "wf {(T, S). br_step S T \<and> ctxDone (fst S) \<and> T \<noteq> S} \<and>
   {(sh, cs). ctxDone sh \<and> {T. br_step (sh, cs) T} = {(sh, cs)}} =
   {(sh, cs). ctxDone sh \<and> list_all conn_stopped cs}"
proof
  have "wf (br_waiting <*mlex*> measure br_work)" by (intro wf_mlex wf_measure)
  then show "wf {(T, S). br_step S T \<and> ctxDone (fst S) \<and> T \<noteq> S}"
    by (rule wf_subset) (auto dest: br_step_decreases)
qed (use quiet_iff_stopped in blast)

end
