(* ===== verification/Survival.thy ===== *)
theory Survival
  imports Bridge
begin

text \<open>
  The handler goroutine of the game server over any number of recordings, with the speech of
  \<open>tts.go\<close> in place: \<open>handleAudio\<close> of \<open>app/wl-game-server/bridge_client.go\<close> and all it calls. A panic
  anywhere in it, or in a goroutine it starts, would end the process, since nothing recovers it. The
  theorem is that none can happen as long as the service's answers have no nil pointers inside, and
  that the shared log only grows.
\<close>

section \<open>The surroundings, with the real speech client\<close>

text \<open>
  What an answer of \<open>GenerateContent\<close> has when there is no error: a response, whose candidates and
  parts are all non-nil (a candidate may still have no content, and the content no parts).
\<close>

definition sound_reply :: "gostring + response option \<Rightarrow> bool" where
  "sound_reply r =
     (case r of
        Inl e \<Rightarrow> True
      | Inr None \<Rightarrow> False
      | Inr (Some cs) \<Rightarrow>
          list_all (\<lambda>c. case c of None \<Rightarrow> False | Some None \<Rightarrow> True
                          | Some (Some ps) \<Rightarrow> list_all (\<lambda>p. p \<noteq> None) ps) cs)"

definition go_sum :: "'a go \<Rightarrow> gostring + 'a" where
  "go_sum r = (case r of Return x \<Rightarrow> Inr x | Error e \<Rightarrow> Inl e | Panic p \<Rightarrow> Inl p)"

definition sound_service :: "genai \<Rightarrow> bool" where
  "sound_service gen \<longleftrightarrow> (\<forall>req. sound_reply (gen req))"

lemma sound_serviceD: "sound_service gen \<Longrightarrow> sound_reply (gen req)"
  by (simp add: sound_service_def)

text \<open>
  What one call of a handler meets: the service, the libraries of the encoder, the scheduling of its
  stream, the stream's id, the error of the context and whether a send finds it done, and the
  registry with the sessions at that time.
\<close>

record ('e, 'w) outside =
  oGen :: genai
  oCodec :: "('e, 'w) codec"
  oSched :: sched
  oUuid :: gostring
  oCtxErr :: gostring
  oSendDone :: bool
  oRegistry :: SessionRegistry
  oSession :: "session_id \<Rightarrow> wsSession"

definition server_env ::
  "GeminiProcessor \<Rightarrow> TTSClient \<Rightarrow> ('e, 'w) outside \<Rightarrow> 16 word list call_env" where
  "server_env proc tts o' =
     \<lparr>cEnv = \<lparr>eGen = oGen o', eProc = proc,
        eSpeech = (\<lambda>i prompt. go_sum (GeneratePCM24kFromPrompt (oGen o') tts prompt)),
        eEncode = (\<lambda>pcm. go_sum (encodePCMToOggOpus (oCodec o') pcm)),
        eSched = oSched o', eUuid = oUuid o', eCtxErr = oCtxErr o'\<rparr>,
      cOggOpus = (\<lambda>prompt. GenerateOggOpusFromPrompt (oGen o') (oCodec o') tts prompt),
      cSendDone = oSendDone o', cRegistry = oRegistry o', cSession = oSession o'\<rparr>"

text \<open>
  The goroutine of \<open>connect\<close> that takes recordings and handles them one after the other; \<open>os k j\<close> is
  what the \<open>j\<close>th utterance of recording \<open>k\<close> meets, \<open>gens k\<close> the service as its transcription meets it.
\<close>

fun handle_recordings ::
  "(nat \<Rightarrow> genai) \<Rightarrow> GeminiProcessor \<Rightarrow> TTSClient \<Rightarrow> (nat \<Rightarrow> nat \<Rightarrow> ('e, 'w) outside) \<Rightarrow> nat
     \<Rightarrow> bytes list \<Rightarrow> Dispatcher \<Rightarrow> unit go \<times> Dispatcher \<times> outgoingAudio list" where
  "handle_recordings gens proc tts os k [] d = (Return (), d, [])"
| "handle_recordings gens proc tts os k (audio # audios) d =
     (case handleAudio (gens k) proc (\<lambda>j. server_env proc tts (os k j)) audio d of
        (Panic p, d', out) \<Rightarrow> (Panic p, d', out)
      | (r, d', out) \<Rightarrow>
          (case handle_recordings gens proc tts os (Suc k) audios d' of
             (r', d'', out') \<Rightarrow> (r', d'', out @ out')))"

section \<open>No operation panics\<close>

definition no_panic :: "'a go \<Rightarrow> bool" where
  "no_panic r = (case r of Panic p \<Rightarrow> False | _ \<Rightarrow> True)"

lemma no_panic_simps [simp]:
  "no_panic (Return x)" "no_panic (Error e)" "\<not> no_panic (Panic p)"
  by (simp_all add: no_panic_def)

lemma no_panic_bind: "no_panic r \<Longrightarrow> (\<And>x. r = Return x \<Longrightarrow> no_panic (f x)) \<Longrightarrow> no_panic (go_bind r f)"
  by (cases r) simp_all

lemma no_panic_wrap [simp]: "no_panic (go_wrap c r) = no_panic r"
  by (cases r) simp_all

lemma no_panic_check [intro]: "(\<And>x. no_panic (f x)) \<Longrightarrow> no_panic (check ctx r f)"
  by (cases r) simp_all

lemma first_part_no_panic: "sound_reply (Inr (Some cs)) \<Longrightarrow> no_panic (first_part msg cs)"
  by (auto simp: sound_reply_def first_part_def split: list.splits option.splits)

lemma text_answer_no_panic: "sound_reply r \<Longrightarrow> no_panic (text_answer name r)"
  using first_part_no_panic
  by (auto simp: text_answer_def split: sum.splits option.splits intro!: no_panic_bind)

lemma Transcribe_no_panic:
  assumes "sound_service gen"
  shows "no_panic (Transcribe gen p d)"
  using sound_serviceD [OF assms, of "transcribe_request p d"] first_part_no_panic
  by (auto simp: Transcribe_def Let_def split: sum.splits option.splits prod.splits intro!: no_panic_bind)

lemma encode_loop_no_panic: "no_panic (encode_loop c pcm i t e w)"
proof (induction "length pcm - i" arbitrary: i t e w rule: less_induct)
  case less
  have "no_panic (encode_loop c pcm (i + frameSize) t' e' w')" if "i + frameSize \<le> length pcm" for t' e' w'
    using that by (intro less) (simp add: frameSize_def)
  then show ?case
    by (subst encode_loop.simps)
      (auto simp: go_slice_def Let_def intro!: no_panic_check split: prod.split)
qed

lemma encodePCM_no_panic: "no_panic (encodePCMToOggOpus c pcm)"
  unfolding encodePCMToOggOpus_def Let_def
  by (intro no_panic_check no_panic_bind encode_loop_no_panic) simp_all

lemma GeneratePCM_no_panic:
  assumes "sound_service gen"
  shows "no_panic (GeneratePCM24kFromPrompt gen t prompt)"
proof -
  define req where "req = \<lparr>reqModel = ttsModel t, reqParts = [PartText prompt], reqSystem = None,
            reqMIMEType = '''', reqSchema = None, reqModalities = [''audio''],
            reqVoice = Some ''Despina''\<rparr>"
  have strip: "no_panic (stripWAVHeader b)" for b
    using strip_total [of b] by auto
  have parse: "no_panic (parsePCM16 b)" for b
    using parse_returns [of b] by (cases "even (length b)") (simp_all add: parsePCM16_def odd_iff_mod_2_eq_one)
  have body: "no_panic (case partInline part of
              None \<Rightarrow> Error ''no inline audio data in TTS response''
            | Some blob \<Rightarrow>
                go_bind (stripWAVHeader blob) (\<lambda>pcmData.
                  go_wrap ''parsePCM16'' (parsePCM16 pcmData)))" for part
    using strip parse by (auto split: option.split intro!: no_panic_bind)
  show ?thesis
  proof (cases "gen req")
    case (Inr r)
    then obtain cs where "r = Some cs" using sound_serviceD [OF assms, of req] by (cases r) (auto simp: sound_reply_def)
    with Inr sound_serviceD [OF assms, of req] body show ?thesis
      by (auto simp: GeneratePCM24kFromPrompt_def req_def [symmetric]
          intro!: no_panic_bind first_part_no_panic)
  qed (simp add: GeneratePCM24kFromPrompt_def req_def [symmetric])
qed

lemma no_panic_iff: "no_panic r \<longleftrightarrow> (\<forall>p. r \<noteq> Panic p)"
  by (cases r) simp_all

lemma speak_answer_no_panic: "no_panic (fst (speak_answer ev a))"
proof (cases "streamTTSChunks (eSched ev) (eUuid ev) (eSpeech ev) (eEncode ev) (answer_chunks a)
    (\<lambda>text. sprintf ttsPromptTemplateS4CQ [text])")
  case (Pair e out)
  then have "e \<noteq> OutOfRange" using streamTTSChunks_in_range by (metis fst_conv)
  with Pair show ?thesis
    by (cases e) (simp_all add: speak_answer_def split_returns stream_result_def Let_def)
qed

lemma S4CA_no_panic: "(\<And>p. no_panic (cOggOpus ce p)) \<Longrightarrow> no_panic (fst (S4CA_Handle ce item))"
  by (simp add: S4CA_Handle_def send_one_def no_panic_iff split: go.split)

lemma S4CQ_no_panic:
  "sound_service (eGen (cEnv ce)) \<Longrightarrow> no_panic (fst (S4CQ_Handle ce item))"
  using text_answer_no_panic [OF sound_serviceD] speak_answer_no_panic [of "cEnv ce"]
  by (simp add: S4CQ_Handle_def Ask_def Let_def no_panic_iff split: go.split)

lemma Handle_no_panic:
  assumes "sound_service (oGen o')"
  shows "no_panic (fst (Handle h (server_env proc tts o') item resp audio))"
proof -
  have "no_panic (GenerateOggOpusFromPrompt (oGen o') (oCodec o') tts p)" for p
    unfolding GenerateOggOpusFromPrompt_def
    by (intro no_panic_bind encodePCM_no_panic GeneratePCM_no_panic assms)
  then have "no_panic (fst (S4CA_Handle (server_env proc tts o') item))"
    by (intro S4CA_no_panic) (simp add: server_env_def)
  moreover have "no_panic (fst (S4CQ_Handle (server_env proc tts o') item))"
    using assms by (intro S4CQ_no_panic) (simp add: server_env_def)
  ultimately show ?thesis
    by (simp add: Handle_def Echo_Handle_def send_one_def split: handler.split)
qed

lemma HandleMessage_no_panic:
  assumes "sound_service (eGen ev)"
  shows "no_panic (fst (HandleMessage ev s item l))"
proof -
  define r where "r = GenerateReply (eGen ev) (eProc ev) (session_persona s (receiver item)) (receiver item) (Render l)"
  have "no_panic r" by (simp add: r_def GenerateReply_def Let_def text_answer_no_panic sound_serviceD [OF assms])
  then show ?thesis
    using speak_answer_no_panic
    by (cases r) (simp_all add: HandleMessage_def Let_def r_def [symmetric] case_prod_unfold)
qed

lemma server_env_fields [simp]:
  "cRegistry (server_env proc tts o') = oRegistry o'" "cSession (server_env proc tts o') = oSession o'"
  "eGen (cEnv (server_env proc tts o')) = oGen o'"
  by (simp_all add: server_env_def)

lemma dispatch_item_survives:
  assumes "sound_service (oGen o')" and "unlimited d es"
  shows "no_panic (fst (dispatch_item (server_env proc tts o') i resp audio d))"
proof (cases "if hasRegistry d then Lookup (oRegistry o') (receiver i) else None")
  case None
  then show ?thesis
    using Handle_no_panic [OF assms(1)]
    by (auto simp: dispatch_item_def Let_def case_prod_unfold)
next
  case (Some k)
  have "no_panic (fst (HandleMessage (cEnv (server_env proc tts o')) s i l))" for s l
    using assms(1) by (intro HandleMessage_no_panic) simp
  with Some show ?thesis
    using log_item_unlimited [OF assms(2), of i]
    by (auto simp: dispatch_item_def unlimited_def Let_def case_prod_unfold split: if_splits)
qed

lemma dispatch_loop_survives:
  assumes "\<forall>j. sound_service (oGen (os j))"
  shows "unlimited d es \<Longrightarrow>
    \<exists>r d' out es'. dispatch_loop (\<lambda>j. server_env proc tts (os j)) k items resp audio d = (r, d', out) \<and>
      no_panic r \<and> unlimited d' (es @ es') \<and> handlers d' = handlers d"
proof (induction items arbitrary: k d es)
  case Nil
  then show ?case by (auto intro: exI [of _ "[]"])
next
  case (Cons i items)
  obtain r1 d1 out1 where i: "dispatch_item (server_env proc tts (os k)) i resp audio d = (r1, d1, out1)"
    by (metis prod_cases3)
  have np: "no_panic r1" using dispatch_item_survives [OF spec [OF assms, of k] Cons.prems,
      where proc = proc and tts = tts and i = i and resp = resp and audio = audio] i
    by simp
  obtain rs where rs: "unlimited d1 (es @ item_entry i # rs)"
    using dispatch_item_log [OF i Cons.prems] by blast
  have h1: "handlers d1 = handlers d" using dispatch_item_fields [OF i] by simp
  show ?case
  proof (cases r1)
    case (Return u)
    from Cons.IH [OF rs, of "Suc k"] obtain r d' out es' where
      "dispatch_loop (\<lambda>j. server_env proc tts (os j)) (Suc k) items resp audio d1 = (r, d', out)"
      "no_panic r" "unlimited d' ((es @ item_entry i # rs) @ es')" "handlers d' = handlers d1"
      by blast
    with Return i h1 show ?thesis by (auto intro!: exI [of _ "item_entry i # rs @ es'"])
  next
    case (Error e)
    with i np rs h1 show ?thesis by (auto intro!: exI [of _ "item_entry i # rs"])
  next
    case (Panic p)
    with np show ?thesis by simp
  qed
qed

lemma handleAudio_survives:
  assumes "sound_service gen" and "\<forall>j. sound_service (oGen (os j))" and "unlimited d es"
  shows "\<exists>d' out es'. handleAudio gen proc (\<lambda>j. server_env proc tts (os j)) audio d = (Return (), d', out) \<and>
    unlimited d' (es @ es') \<and> handlers d' = handlers d"
proof (cases "Transcribe gen proc audio")
  case (Return t)
  obtain r d' out es' where
    "dispatch_loop (\<lambda>j. server_env proc tts (os j)) 0 (slice_elems (Items t)) ''OK'' audio d = (r, d', out)"
    "no_panic r" "unlimited d' (es @ es')" "handlers d' = handlers d"
    using dispatch_loop_survives [OF assms(2,3)] by blast
  with Return show ?thesis
    by (cases r) (auto simp: handleAudio_def Reason_def Dispatch_def)
next
  case Error
  then show ?thesis using assms(3) by (auto simp: handleAudio_def intro!: exI [of _ "[]"])
next
  case (Panic p)
  with Transcribe_no_panic [OF assms(1), of proc audio] show ?thesis by simp
qed

section \<open>Properties\<close>

text \<open>
  C20. No recording can stop the game server: whatever recordings arrive and whatever they are
  transcribed to, if the answers of the service hold no nil pointers then handling them all
  panics nowhere, in the chunk goroutines neither, errors of the service, of the libraries and of
  the context included; and the shared log is only ever added to.
\<close>

theorem recordings_survived:
  assumes "\<forall>k. sound_service (gens k)" and "\<forall>k j. sound_service (oGen (os k j))"
    and "unlimited d es"
  shows "\<exists>d' out es'. handle_recordings gens proc tts os n audios d = (Return (), d', out) \<and>
    unlimited d' (es @ es') \<and> handlers d' = handlers d \<and>
    (\<forall>k j prompt p. GeneratePCM24kFromPrompt (oGen (os k j)) tts prompt \<noteq> Panic p) \<and>
    (\<forall>k j pcm p. encodePCMToOggOpus (oCodec (os k j)) pcm \<noteq> Panic p)"
proof -
  have "\<exists>d' out es'. handle_recordings gens proc tts os n audios d = (Return (), d', out) \<and>
      unlimited d' (es @ es') \<and> handlers d' = handlers d"
    using assms(3)
  proof (induction audios arbitrary: n d es)
    case Nil
    then show ?case by (auto intro: exI [of _ "[]"])
  next
    case (Cons a audios)
    obtain d1 out1 es1 where a: "handleAudio (gens n) proc (\<lambda>j. server_env proc tts (os n j)) a d = (Return (), d1, out1)"
      "unlimited d1 (es @ es1)" "handlers d1 = handlers d"
      using handleAudio_survives [OF spec [OF assms(1)] spec [OF assms(2)] Cons.prems] by blast
    obtain d2 out2 es2 where "handle_recordings gens proc tts os (Suc n) audios d1 = (Return (), d2, out2)"
      "unlimited d2 ((es @ es1) @ es2)" "handlers d2 = handlers d1"
      using Cons.IH [OF a(2)] by blast
    with a show ?case by (auto intro!: exI [of _ "es1 @ es2"])
  qed
  moreover have "GeneratePCM24kFromPrompt (oGen (os k j)) tts prompt \<noteq> Panic p" for k j prompt p
    using GeneratePCM_no_panic [of "oGen (os k j)" tts prompt] assms(2) by (simp add: no_panic_iff)
  moreover have "encodePCMToOggOpus (oCodec (os k j)) pcm \<noteq> Panic p" for k j pcm p
    using encodePCM_no_panic [of "oCodec (os k j)" pcm] by auto
  ultimately show ?thesis by blast
qed

definition demo_outside :: "(unit, packet list \<times> packet list) outside" where
  "demo_outside = \<lparr>oGen = (\<lambda>req. text_reply ''roger''), oCodec = list_codec,
     oSched = \<lparr>ready = \<lambda>i j. True, cancel_get = \<lambda>i. False, cancel_send = \<lambda>i. False\<rparr>,
     oUuid = ''u'', oCtxErr = ''context canceled'', oSendDone = False,
     oRegistry = NewSessionRegistry, oSession = \<lambda>i. newWSSession defaultScenario\<rparr>"

theorem recordings_survived_witness:
  "\<exists>d' out es'. handle_recordings (\<lambda>k req. text_reply (marshal (result_json [ascii_item]))) demo_processor
      \<lparr>ttsModel = ''m''\<rparr> (\<lambda>k j. demo_outside) 0 [[7, 8], [9]] main_dispatcher = (Return (), d', out) \<and>
    unlimited d' ([] @ es')"
proof -
  have "sound_reply (text_reply t)" for t by (simp add: sound_reply_def text_reply_def)
  then have "\<forall>k. sound_service (\<lambda>req. text_reply (marshal (result_json [ascii_item])))"
    "\<forall>k j. sound_service (oGen demo_outside)"
    by (simp_all add: sound_service_def demo_outside_def)
  moreover have "unlimited main_dispatcher []"
    by (simp add: unlimited_def main_dispatcher_def registerHandler_def NewDispatcher_def NewConversationLog_def)
  ultimately show ?thesis
    using recordings_survived [where gens = "\<lambda>k req. text_reply (marshal (result_json [ascii_item]))"
        and os = "\<lambda>k j. demo_outside" and proc = demo_processor and tts = "\<lparr>ttsModel = ''m''\<rparr>"
        and n = 0 and audios = "[[7, 8], [9]]" and d = main_dispatcher and es = "[]"]
    by blast
qed

end
