(* ===== verification/GameServer.thy ===== *)
theory GameServer
  imports WsConcurrent Bridge
begin

text \<open>
  The game server as a whole, \<open>main.go\<close>, \<open>config.go\<close> and \<open>ws_server.go\<close> of \<open>app/wl-game-server\<close>: reading
  the configuration, building the parts and wiring them, accepting WebSocket connections, and
  ending.

  The TOML library, the file system, the service's client and the HTTP server are outside.
\<close>

section \<open>Configuration\<close>

record Config =
  cfgRadioBridge :: RadioBridgeConfig
  cfgGemini :: GeminiConfig
  cfgLogLevel :: gostring
  cfgListenAddr :: gostring

text \<open>\<open>toml.DecodeFile\<close> is the parameter \<open>decode\<close>.\<close>

definition LoadConfig :: "(gostring \<Rightarrow> Config go) \<Rightarrow> gostring \<Rightarrow> Config go" where
  "LoadConfig decode path = decode path"

section \<open>The WebSocket server\<close>

text \<open>
  The fields sessions use as they run are state; the processor, the speech client, the send channel
  and the conversation log are arguments of \<open>HandleMessage\<close> in the model and not repeated here.
\<close>

record WSServer =
  wsShared :: shared
  wsScenario :: Scenario

definition NewWSServer :: "CallsignManager \<Rightarrow> SessionRegistry \<Rightarrow> Scenario \<Rightarrow> WSServer" where
  "NewWSServer cm rg sc = \<lparr>wsShared = \<lparr>callsigns = cm, registry = rg\<rparr>, wsScenario = sc\<rparr>"

text \<open>
  \<open>ServeHTTP\<close>: unless the upgrade fails, a new session runs in a goroutine of its own. \<open>run_loop\<close> is
  that goroutine when nothing interleaves; a panic in it is logged and ends the session.
\<close>

definition ServeHTTP ::
  "gostring option \<Rightarrow> session_id \<Rightarrow> ws_event list \<Rightarrow> WSServer \<Rightarrow> WSServer \<times> wsSession option" where
  "ServeHTTP upgradeErr me evs srv =
     (case upgradeErr of
        Some e \<Rightarrow> (srv, None)
      | None \<Rightarrow>
          (case run_loop me evs (wsShared srv, newWSSession (wsScenario srv)) of
             (h, s) \<Rightarrow> (srv\<lparr>wsShared := h\<rparr>, Some s)))"

text \<open>\<open>Run\<close>: what \<open>ListenAndServe\<close> returns, \<open>http.ErrServerClosed\<close> being no error.\<close>

datatype listen_result = ServerClosed | ListenError gostring | ListenNil

definition ws_run :: "listen_result \<Rightarrow> gostring option" where
  "ws_run r = (case r of ListenError e \<Rightarrow> Some e | _ \<Rightarrow> None)"

text \<open>
  What happens to the HTTP server in turn: a request for \<open>/ws\<close> (with the outcome of its upgrade, and
  what its session sees if nothing interleaves), a request for anything else, the cancellation, on
  which the goroutine shuts the server down and \<open>ListenAndServe\<close> returns \<open>http.ErrServerClosed\<close>, or a
  failure to listen. The result is that of \<open>Run\<close>, once it returns.
\<close>

datatype http_event =
    WsRequest "gostring option" session_id "ws_event list"
  | OtherRequest
  | ServerCancelled
  | ListenFailed gostring

fun ws_serve :: "http_event list \<Rightarrow> WSServer \<Rightarrow> WSServer \<times> gostring option option" where
  "ws_serve [] srv = (srv, None)"
| "ws_serve (WsRequest upgradeErr me evs # rest) srv = ws_serve rest (fst (ServeHTTP upgradeErr me evs srv))"
| "ws_serve (OtherRequest # rest) srv = ws_serve rest srv"
| "ws_serve (ServerCancelled # rest) srv = (srv, Some (ws_run ServerClosed))"
| "ws_serve (ListenFailed e # rest) srv = (srv, Some (ws_run (ListenError e)))"

text \<open>After the cancellation no session is started, and \<open>Run\<close> returns no error.\<close>

lemma ws_serve_cancelled:
  "(\<And>e. ListenFailed e \<notin> set evs) \<Longrightarrow> ServerCancelled \<notin> set evs \<Longrightarrow>
   ws_serve (evs @ ServerCancelled # rest) srv = (fst (ws_serve evs srv), Some None)"
  by (induction evs srv rule: ws_serve.induct) (auto simp: ws_run_def)

lemma ws_serve_scenario: "wsScenario (fst (ws_serve evs srv)) = wsScenario srv"
  by (induction evs srv rule: ws_serve.induct)
    (simp_all add: ServeHTTP_def split: option.splits prod.splits)

section \<open>Starting and ending\<close>

definition defaultWSListenAddr :: gostring where
  "defaultWSListenAddr = '':8080''"

text \<open>What \<open>main\<close> has built when it starts the two loops.\<close>

record game_server =
  gsProcessor :: GeminiProcessor
  gsTTS :: TTSClient
  gsDispatcher :: Dispatcher
  gsWSAddr :: gostring
  gsWSServer :: WSServer
  gsBridge :: RadioBridgeConfig

text \<open>
  The outside of a start: the TOML decoder, the two \<open>genai.NewClient\<close> calls, the files, Go's \<open>%q\<close> of
  a path, and the random source of the callsign pool. Errors of the start are fatal.
\<close>

record start_env =
  seDecode :: "gostring \<Rightarrow> Config go"
  seClientErr :: "gostring option"
  seTTSClientErr :: "gostring option"
  seReadFile :: "gostring \<Rightarrow> gostring + gostring"
  seIsPrint :: "rune \<Rightarrow> bool"
  seShuffle :: "nat \<Rightarrow> nat"

definition main_build :: "start_env \<Rightarrow> gostring list \<Rightarrow> game_server go" where
  "main_build se args =
     (let configPath = (if length args > 1 then args ! 1 else ''config.toml'')
      in go_bind (go_wrap ''LoadConfig'' (LoadConfig (seDecode se) configPath)) (\<lambda>cfg.
         go_bind (go_wrap ''NewGeminiProcessor''
             (NewGeminiProcessor (seClientErr se) (seReadFile se) (seIsPrint se) (cfgGemini cfg))) (\<lambda>processor.
         go_bind (go_wrap ''NewTTSClient'' (NewTTSClient (seTTSClientErr se) (TTSModel (cfgGemini cfg)))) (\<lambda>ttsClient.
           Return \<lparr>gsProcessor = processor, gsTTS = ttsClient, gsDispatcher = main_dispatcher,
             gsWSAddr = (if cfgListenAddr cfg = '''' then defaultWSListenAddr else cfgListenAddr cfg),
             gsWSServer = NewWSServer (NewCallsignManager (seShuffle se) ''S4'') NewSessionRegistry defaultScenario,
             gsBridge = cfgRadioBridge cfg\<rparr>))))"

text \<open>
  The end: \<open>client.Run\<close> returned; anything but the cancellation of the context is fatal. \<open>None\<close> when
  \<open>Run\<close> has not returned within the turns given.
\<close>

definition main_run :: "start_env \<Rightarrow> gostring list \<Rightarrow> attempt list \<Rightarrow> unit go option" where
  "main_run se args turns =
     (case main_build se args of
        Error e \<Rightarrow> Some (Error e)
      | Panic p \<Rightarrow> Some (Panic p)
      | Return gs \<Rightarrow>
          (case fst (run_bridge (gsBridge gs) 0 turns) of
             None \<Rightarrow> None
           | Some CtxErr \<Rightarrow> Some (Return ())
           | Some (MaxAttempts e) \<Rightarrow> Some (Error (''BridgeClient.Run: '' @ e))))"


section \<open>All names in use are of the pool\<close>

text \<open>
  \<open>U\<close> are the callsigns of the prefix. The names of a session are its callsigns and those its program
  counter still has to register or to give back.
\<close>

fun pc_names :: "wpc \<Rightarrow> gostring set" where
  "pc_names (Login3 ps) = set ps"
| "pc_names (Cleanup cs) = set cs"
| "pc_names (Cleanup2 c cs) = insert c (set cs)"
| "pc_names _ = {}"

definition session_names :: "wsSession \<times> wpc \<Rightarrow> gostring set" where
  "session_names st = insert (callsign (fst st)) (set (peerCallsigns (fst st)) \<union> pc_names (snd st))"

definition named_in :: "gostring set \<Rightarrow> wsys \<Rightarrow> bool" where
  "named_in U S \<longleftrightarrow> (\<forall>i st. ses S i = Some st \<longrightarrow> session_names st \<subseteq> insert '''' U) \<and>
     (\<forall>k. Lookup (registry (sh S)) k \<noteq> None \<longrightarrow> k \<in> insert '''' U)"

lemma named_upd:
  "named_in U S \<Longrightarrow> session_names (s, pc) \<subseteq> insert '''' U \<Longrightarrow> named_in U (upd i s pc S)"
  by (auto simp: named_in_def)

lemma named_callsigns [simp]: "named_in U (set_callsigns cm S) = named_in U S"
  by (simp add: named_in_def)

lemma named_register:
  "named_in U S \<Longrightarrow> k \<in> insert '''' U \<Longrightarrow> named_in U (set_registry (Register k i (registry (sh S))) S)"
  by (auto simp: named_in_def registry_laws)

lemma named_unregister:
  "named_in U S \<Longrightarrow> named_in U (set_registry (Unregister k (registry (sh S))) S)"
  by (auto simp: named_in_def registry_laws split: if_splits)

lemma named_session: "named_in U S \<Longrightarrow> ses S i = Some st \<Longrightarrow> session_names st \<subseteq> insert '''' U"
  unfolding named_in_def by blast

lemma named_keep:
  "named_in U S \<Longrightarrow> ses S i = Some st \<Longrightarrow> session_names (s, pc) \<subseteq> insert '''' (session_names st) \<Longrightarrow>
   named_in U (upd i s pc S)"
  using named_upd named_session by blast

lemma names_fields [simp]:
  "callsign (sendJSON r s) = callsign s" "peerCallsigns (sendJSON r s) = peerCallsigns s"
  "callsign (sendError m s) = callsign s" "peerCallsigns (sendError m s) = peerCallsigns s"
  "callsign (assign_personas s) = callsign s" "peerCallsigns (assign_personas s) = peerCallsigns s"
  by (simp_all add: sendError_def sendJSON_def assign_personas_def)

lemma ws_step_named:
  assumes "ws_step sc S T" and "named_in U S" and "set (pool (callsigns (sh S))) \<subseteq> U"
  shows "named_in U T"
  using assms
proof (induction rule: ws_step.induct)
  case (connect S i)
  then show ?case by (intro named_upd) (auto simp: session_names_def newWSSession_def)
next
  case (issue S i s cs cm)
  then have "cs \<in> U" by (auto simp: Issue_def Let_def split: if_splits)
  with issue named_session [OF issue(4,1)] show ?case
    by (auto intro!: named_upd simp: session_names_def)
next
  case (issue_peer S i s cs cm)
  then have "cs \<in> U" by (auto simp: Issue_def Let_def split: if_splits)
  with issue_peer named_session [OF issue_peer(3,1)] show ?case
    by (auto intro!: named_upd simp: session_names_def)
next
  case (register_own S i s)
  note n = named_session [OF register_own(2,1)]
  have "named_in U (upd i s (Login3 (peerCallsigns s)) S)"
    using register_own n by (intro named_upd) (auto simp: session_names_def)
  from named_register [OF this, of "callsign s" i] n show ?case by (simp add: session_names_def)
next
  case (register_peer S i s p ps)
  note n = named_session [OF register_peer(2,1)]
  have "named_in U (upd i s (Login3 ps) S)"
    using register_peer n by (intro named_upd) (auto simp: session_names_def)
  from named_register [OF this, of p i] n show ?case by (simp add: session_names_def)
next
  case (unregister S i s c cs)
  note n = named_session [OF unregister(2,1)]
  have "named_in U (upd i s (Cleanup cs) S)"
    using unregister n by (intro named_upd) (auto simp: session_names_def)
  from named_unregister [OF this, of c] show ?case by simp
next
  case (leave S i s)
  note n = named_session [OF leave(2,1)]
  from leave n show ?case by (intro named_upd) (auto simp: session_names_def own_callsigns_def)
qed (((simp only: named_callsigns)?, erule (1) named_keep, auto simp: session_names_def)+)

lemma Issue_keeps_prefix: "Issue m = (r, m') \<Longrightarrow> prefix m' = prefix m"
  by (metis Issue_prefix snd_conv)

lemma ws_reachable_named:
  assumes "ws_reachable sc (NewCallsignManager rnd pre) S"
  shows "named_in (set (buildPool pre)) S \<and> prefix (callsigns (sh S)) = pre"
  using assms
proof (induction rule: ws_reachable.induct)
  case init
  then show ?case
    by (simp add: named_in_def ws_init_def registry_laws NewCallsignManager_def)
next
  case (step S T)
  have "own_inv S" by (rule ws_reachable_inv [OF new_manager_inv new_manager_empty step(1)])
  then have "callsign_inv (callsigns (sh S))" by (simp add: own_inv_def)
  then have "set (pool (callsigns (sh S))) \<subseteq> set (buildPool pre)"
    using step(3) by (auto simp: callsign_inv_def free_def)
  with step ws_step_named have "named_in (set (buildPool pre)) T" by blast
  moreover have "prefix (callsigns (sh T)) = pre"
    using step(2,3) by (cases rule: ws_step.cases) (auto dest: Issue_keeps_prefix)
  ultimately show ?case by blast
qed

lemma services_not_in_pool:
  "cs \<in> {''S4CE'', ''S4CA'', ''S4CQ''} \<Longrightarrow> cs \<notin> insert '''' (set (buildPool ''S4''))"
proof -
  assume cs: "cs \<in> {''S4CE'', ''S4CA'', ''S4CQ''}"
  have "cs \<notin> set (buildPool ''S4'')"
  proof
    assume "cs \<in> set (buildPool ''S4'')"
    then obtain c1 c2 where "cs = ''S4'' @ [c1, c2]" "c1 \<noteq> CHR ''C''"
      unfolding set_buildPool_eq by blast
    with cs show False by auto
  qed
  with cs show ?thesis by auto
qed

text \<open>What the constructors of the two clients need.\<close>

lemma parseSchema_Return_iff:
  "parseSchema t = Return sch \<longleftrightarrow> (\<exists>raw. (parse_json t = Some (JObject raw) \<or>
     parse_json t = Some JNull \<and> raw = []) \<and> sch = convertSchema raw)"
  by (auto simp: parseSchema_def split: option.splits json.splits)

lemma NewGeminiProcessor_Return_iff:
  "NewGeminiProcessor clientErr readFile isPrint cfg = Return p \<longleftrightarrow> clientErr = None \<and>
     (\<exists>prompt schema raw. readFile (TranscribePromptFile cfg) = Inr prompt \<and>
        readFile (TranscribeSchemaFile cfg) = Inr schema \<and>
        (parse_json schema = Some (JObject raw) \<or> parse_json schema = Some JNull \<and> raw = []) \<and>
        p = \<lparr>procCfg = cfg, transcribePrompt = prompt, transcribeSchema = convertSchema raw\<rparr>)"
  by (cases clientErr; cases "readFile (TranscribePromptFile cfg)"; cases "readFile (TranscribeSchemaFile cfg)")
    (auto simp: NewGeminiProcessor_def go_bind_Return_iff parseSchema_Return_iff)

lemma NewTTSClient_Return_iff:
  "NewTTSClient clientErr model = Return t \<longleftrightarrow> clientErr = None \<and>
     t = \<lparr>ttsModel = if model = '''' then defaultTTSModel else model\<rparr>"
  by (cases clientErr) (auto simp: NewTTSClient_def)

section \<open>Properties\<close>

text \<open>
  C31. The built-in services stay reachable: when the server has started, then whatever any number of
  sessions do, none is ever registered under S4CE, S4CA or S4CQ, so the dispatcher, which asks the
  registry before its handlers, always finds the service's handler for these callsigns.
\<close>

theorem services_reachable:
  assumes "main_build se args = Return gs"
    and "ws_reachable (wsScenario (gsWSServer gs)) (callsigns (wsShared (gsWSServer gs))) S"
    and "cs = ''S4CE'' \<or> cs = ''S4CA'' \<or> cs = ''S4CQ''"
  shows "Lookup (registry (sh S)) cs = None \<and> handlers (gsDispatcher gs) cs \<noteq> None"
proof -
  have g: "callsigns (wsShared (gsWSServer gs)) = NewCallsignManager (seShuffle se) ''S4''"
    "gsDispatcher gs = main_dispatcher"
    using assms(1) by (auto simp: main_build_def Let_def go_bind_Return_iff NewWSServer_def)
  have "named_in (set (buildPool ''S4'')) S" using ws_reachable_named assms(2) unfolding g by blast
  with services_not_in_pool [of cs] assms(3) have "Lookup (registry (sh S)) cs = None"
    unfolding named_in_def by blast
  moreover have "handlers (gsDispatcher gs) cs \<noteq> None"
    using assms(3) by (auto simp: g main_dispatcher_def registerHandler_def NewDispatcher_def)
  ultimately show ?thesis ..
qed

definition demo_config :: Config where
  "demo_config = \<lparr>cfgRadioBridge = \<lparr>Host = ''localhost'', Port = 50051, ReconnectIntervalSecs = 5,
       MaxReconnectAttempts = 0\<rparr>,
     cfgGemini = \<lparr>APIKey = ''k'', TranscribeModel = ''m'', ReasoningModel = ''r'', TTSModel = '''',
       TranscribePromptFile = ''p'', TranscribeSchemaFile = ''s''\<rparr>,
     cfgLogLevel = ''info'', cfgListenAddr = ''''\<rparr>"

definition demo_start :: start_env where
  "demo_start = \<lparr>seDecode = (\<lambda>path. if path = ''config.toml'' then Return demo_config else Error ''no file''),
     seClientErr = None, seTTSClientErr = None,
     seReadFile = (\<lambda>f. if f = ''p'' then Inr ''transcribe'' else if f = ''s'' then Inr (marshal (JObject []))
                       else Inl ''no such file''),
     seIsPrint = (\<lambda>r. False), seShuffle = id\<rparr>"

lemma demo_parse: "parseSchema (marshal (JObject [])) = Return (convertSchema [])"
  by (simp add: parseSchema_def parse_marshal maxNestingDepth_def numeral_eq_Suc)

lemma demo_start_builds:
  "\<exists>gs. main_build demo_start [''wl-game-server''] = Return gs \<and> gsWSAddr gs = '':8080'' \<and>
     wsScenario (gsWSServer gs) = defaultScenario \<and>
     wsShared (gsWSServer gs) = \<lparr>callsigns = NewCallsignManager id ''S4'', registry = NewSessionRegistry\<rparr>"
  by (simp add: main_build_def demo_start_def demo_config_def LoadConfig_def NewGeminiProcessor_def
      demo_parse NewTTSClient_def NewWSServer_def defaultWSListenAddr_def Let_def)

theorem services_reachable_witness:
  "\<exists>gs. main_build demo_start [''wl-game-server''] = Return gs \<and>
     Lookup (registry (sh (one_logged_in (NewCallsignManager id ''S4'')))) ''S4CE'' = None \<and>
     handlers (gsDispatcher gs) ''S4CE'' \<noteq> None"
proof -
  obtain gs where gs: "main_build demo_start [''wl-game-server''] = Return gs"
    "wsScenario (gsWSServer gs) = defaultScenario"
    "callsigns (wsShared (gsWSServer gs)) = NewCallsignManager id ''S4''"
    using demo_start_builds by auto
  have "ws_reachable (wsScenario (gsWSServer gs)) (callsigns (wsShared (gsWSServer gs)))
      (one_logged_in (NewCallsignManager id ''S4''))"
    unfolding gs(2,3) by (rule one_logged_in_reachable)
  from services_reachable [OF gs(1) this, of "''S4CE''"] gs(1) show ?thesis by blast
qed

text \<open>
  The start succeeds exactly when every step does: the configuration at the given path (or
  config.toml) decodes, both clients of the service can be made, the prompt and the schema file can
  be read, and the schema is the JSON text of an object or null. Then the parts are as configured,
  with the port 8080 when no address is given.
\<close>

theorem start_succeeds:
  "main_build se args = Return gs \<longleftrightarrow>
     (\<exists>cfg prompt schema raw.
        seDecode se (if length args > 1 then args ! 1 else ''config.toml'') = Return cfg \<and>
        seClientErr se = None \<and> seTTSClientErr se = None \<and>
        seReadFile se (TranscribePromptFile (cfgGemini cfg)) = Inr prompt \<and>
        seReadFile se (TranscribeSchemaFile (cfgGemini cfg)) = Inr schema \<and>
        (parse_json schema = Some (JObject raw) \<or> parse_json schema = Some JNull \<and> raw = []) \<and>
        gs = \<lparr>gsProcessor = \<lparr>procCfg = cfgGemini cfg, transcribePrompt = prompt,
                transcribeSchema = convertSchema raw\<rparr>,
              gsTTS = \<lparr>ttsModel = if TTSModel (cfgGemini cfg) = '''' then defaultTTSModel
                        else TTSModel (cfgGemini cfg)\<rparr>,
              gsDispatcher = main_dispatcher,
              gsWSAddr = if cfgListenAddr cfg = '''' then '':8080'' else cfgListenAddr cfg,
              gsWSServer = NewWSServer (NewCallsignManager (seShuffle se) ''S4'') NewSessionRegistry defaultScenario,
              gsBridge = cfgRadioBridge cfg\<rparr>)"
  unfolding main_build_def Let_def LoadConfig_def go_bind_Return_iff go_wrap_Return_iff
    NewGeminiProcessor_Return_iff NewTTSClient_Return_iff go.inject defaultWSListenAddr_def
  by blast

end
