(* ===== verification/WsTestClient.thy ===== *)
theory WsTestClient
  imports WsSession
begin

text \<open>
  The test client of the game server, \<open>app/wl-game-server-test-client/main.go\<close>: lines of the console
  become WebSocket messages, received messages are decoded and shown.

  What is printed is modelled as data, the console and the connection as events. The client declares
  the command and response structs of the server again, with the same fields.
\<close>

section \<open>The address\<close>

text \<open>
  \<open>net/url\<close>'s escaping of a host: letters, digits and a set of marks stay, every other byte is written
  as a percent sign and two upper-case hexadecimal digits.
\<close>

definition host_char :: "char \<Rightarrow> bool" where
  "host_char c \<longleftrightarrow>
     (let b = (of_char c :: nat)
      in between 97 122 b \<or> between 65 90 b \<or> between 48 57 b \<or>
         c \<in> set ''!$&()*+,;=:[]<>-_.~'' \<or> b = 39 \<or> b = 34)"

definition upper_hex :: "nat \<Rightarrow> char" where
  "upper_hex n = char_of (if n < 10 then 48 + n else 55 + n)"

definition escape_host :: "gostring \<Rightarrow> gostring" where
  "escape_host s =
     concat (map (\<lambda>c. if host_char c then [c]
                     else [CHR ''%'', upper_hex (of_char c div 16), upper_hex (of_char c mod 16)]) s)"

text \<open>\<open>url.URL{Scheme: "ws", Host: arg, Path: "/ws"}.String()\<close>; an empty host is left out.\<close>

definition buildWSURL :: "gostring \<Rightarrow> gostring" where
  "buildWSURL arg =
     (if has_prefix arg ''ws://'' \<or> has_prefix arg ''wss://'' then arg
      else ''ws:'' @ ''//'' @ (if arg \<noteq> '''' then escape_host arg else '''') @ ''/ws'')"

section \<open>Sending\<close>

definition command_json :: "wsCommand \<Rightarrow> json" where
  "command_json c = JObject [(''type'', JString (cmdType c))]"

datatype ws_out = WsText gostring | WsClose

text \<open>\<open>send\<close>: the text handed to \<open>WriteMessage\<close>; a failed write is only logged.\<close>

definition send_cmd :: "wsCommand \<Rightarrow> ws_out list" where
  "send_cmd c = [WsText (marshal (command_json c))]"

text \<open>
  One line of the console: the messages written, and whether the loop ends.
\<close>

definition line_branch :: "gostring \<Rightarrow> ws_out list \<times> bool" where
  "line_branch text =
     (let line = trim_space text
      in if line = '''' then ([], False)
         else if line = ''login'' \<or> line = ''l'' then (send_cmd \<lparr>cmdType = ''login''\<rparr>, False)
         else if line = ''quit'' \<or> line = ''q'' \<or> line = ''exit'' then ([WsClose], True)
         else if line = ''help'' \<or> line = ''h'' \<or> line = ''?'' then ([], False)
         else if has_prefix line ''{'' then ([WsText line], False)
         else ([], False))"

text \<open>
  The main loop: the receiving goroutine has ended, a line was read, or the input has ended. What
  was written, and whether the program ended (after the close message it waits at most two seconds).
\<close>

datatype console_event = RecvDone | Line gostring | InputEOF

fun client_loop :: "console_event list \<Rightarrow> ws_out list \<times> bool" where
  "client_loop [] = ([], False)"
| "client_loop (RecvDone # evs) = ([], True)"
| "client_loop (InputEOF # evs) = ([WsClose], True)"
| "client_loop (Line text # evs) =
     (case line_branch text of
        (out, True) \<Rightarrow> (out, True)
      | (out, False) \<Rightarrow> (case client_loop evs of (out', ended) \<Rightarrow> (out @ out', ended)))"

section \<open>Receiving\<close>

record client_response =
  crType :: gostring
  crCallsign :: gostring
  crPeerCallsigns :: "gostring slice"
  crError :: gostring

definition zero_response :: client_response where
  "zero_response = \<lparr>crType = '''', crCallsign = '''', crPeerCallsigns = \<lparr>backing = [], slen = 0\<rparr>, crError = ''''\<rparr>"

definition store_response :: "gostring \<Rightarrow> json \<Rightarrow> client_response \<Rightarrow> client_response \<times> bool" where
  "store_response k v r =
     (if field_matches ''type'' k then
        (case store_string v (crType r) of (s, ok) \<Rightarrow> (r\<lparr>crType := s\<rparr>, ok))
      else if field_matches ''callsign'' k then
        (case store_string v (crCallsign r) of (s, ok) \<Rightarrow> (r\<lparr>crCallsign := s\<rparr>, ok))
      else if field_matches ''peer_callsigns'' k then
        (case store_slice store_string '''' v (crPeerCallsigns r) of
           (s, ok) \<Rightarrow> (r\<lparr>crPeerCallsigns := s\<rparr>, ok))
      else if field_matches ''error'' k then
        (case store_string v (crError r) of (s, ok) \<Rightarrow> (r\<lparr>crError := s\<rparr>, ok))
      else (r, True))"

text \<open>What is shown for a message.\<close>

datatype shown =
    ShownLogin gostring "gostring list"
  | ShownError gostring
  | ShownOther gostring gostring
  | ShownRaw gostring

definition show_message :: "gostring \<Rightarrow> shown" where
  "show_message msg =
     (case unmarshal store_response msg zero_response of
        (resp, False) \<Rightarrow> ShownRaw msg
      | (resp, True) \<Rightarrow>
          if crType resp = ''login'' then ShownLogin (crCallsign resp) (slice_elems (crPeerCallsigns resp))
          else if crType resp = ''error'' then ShownError (crError resp)
          else ShownOther (crType resp) msg)"

text \<open>The receiving goroutine: it shows messages until a read fails.\<close>

fun client_recv :: "gostring option list \<Rightarrow> shown list" where
  "client_recv [] = []"
| "client_recv (None # evs) = []"
| "client_recv (Some msg # evs) = show_message msg # client_recv evs"

text \<open>
  \<open>main\<close>: the command line (\<open>args\<close> are the arguments that are not flags), the dialling of the
  address, and the main loop; the receiving goroutine, \<open>client_recv\<close>, runs beside it.
\<close>

definition client_main ::
  "gostring list \<Rightarrow> (gostring \<Rightarrow> gostring option) \<Rightarrow> console_event list \<Rightarrow> (ws_out list \<times> bool) go" where
  "client_main args dialErr evs =
     (if length args < 1 then Error ''usage''
      else
        let addr = buildWSURL (args ! 0)
        in case dialErr addr of
             Some e \<Rightarrow> Error e
           | None \<Rightarrow> Return (client_loop evs))"

section \<open>Facts\<close>

definition valid_response :: "wsResponse \<Rightarrow> bool" where
  "valid_response r \<longleftrightarrow> valid_utf8 (respType r) \<and> valid_utf8 (respCallsign r) \<and>
     (\<forall>p \<in> set (respPeerCallsigns r). valid_utf8 p) \<and> valid_utf8 (respError r)"

lemma response_json_read:
  assumes "valid_response r"
  shows "parse_json (marshal (response_json r)) = Some (response_json r)"
proof -
  have "nested 2 (response_json r)"
    by (simp add: response_json_def list_all_iff numeral_2_eq_2)
  then have "nested maxNestingDepth (response_json r)"
    by (rule nested_mono) (simp add: maxNestingDepth_def)
  moreover have "no_numbers (response_json r)" by (simp add: response_json_def list_all_iff)
  moreover have "sanitized (response_json r) = response_json r"
    using assms by (simp add: response_json_def valid_response_def valid_utf8_ascii)
  ultimately show ?thesis by (simp add: parse_marshal)
qed

lemma store_strings: "store_elements store_string z (map JString ps) [] = (ps, True)"
  by (induction ps) simp_all

lemma response_stored:
  "store_struct store_response (response_json r) zero_response =
     (\<lparr>crType = respType r, crCallsign = respCallsign r,
       crPeerCallsigns = \<lparr>backing = respPeerCallsigns r, slen = length (respPeerCallsigns r)\<rparr>,
       crError = respError r\<rparr>, True)"
  by (simp add: response_json_def store_response_def zero_response_def field_names store_strings)

lemma show_response:
  assumes "valid_response r"
  shows "show_message (marshal (response_json r)) =
    (if respType r = ''login'' then ShownLogin (respCallsign r) (respPeerCallsigns r)
     else if respType r = ''error'' then ShownError (respError r)
     else ShownOther (respType r) (marshal (response_json r)))"
  using response_json_read [OF assms]
  by (simp add: show_message_def unmarshal_def response_stored slice_elems_def)

lemma login_command: "unmarshal store_command (marshal (command_json \<lparr>cmdType = ''login''\<rparr>)) c
    = (\<lparr>cmdType = ''login''\<rparr>, True)"
proof -
  let ?j = "command_json \<lparr>cmdType = ''login''\<rparr>"
  have "nested 1 ?j" by (simp add: command_json_def)
  then have "nested maxNestingDepth ?j" by (rule nested_mono) (simp add: maxNestingDepth_def)
  moreover have "no_numbers ?j" "sanitized ?j = ?j" by (simp_all add: command_json_def valid_utf8_ascii)
  ultimately have "parse_json (marshal ?j) = Some ?j" by (simp add: parse_marshal)
  then show ?thesis
    by (simp add: unmarshal_def command_json_def store_command_def field_names)
qed


text \<open>
  What a login leaves behind, and the response it sends: a session that has a callsign keeps it and
  its peers, and nothing is issued.
\<close>

definition refused :: "shared \<Rightarrow> wsSession \<Rightarrow> bool" where
  "refused sh s \<longleftrightarrow> callsign s = '''' \<and> length (pool (callsigns sh)) < 2"

definition refusal :: "shared \<Rightarrow> gostring" where
  "refusal sh = (if pool (callsigns sh) = [] then ''no callsign available'' else ''no peer callsign available'')"

definition logged_in :: "shared \<Rightarrow> wsSession \<Rightarrow> shared \<Rightarrow> wsSession \<Rightarrow> bool" where
  "logged_in sh s sh' s' \<longleftrightarrow>
     (if callsign s \<noteq> '''' then sh' = sh \<and> callsign s' = callsign s \<and> peerCallsigns s' = peerCallsigns s
      else if refused sh s then callsign s' = ''''
      else callsign s' = last (pool (callsigns sh)) \<and>
        peerCallsigns s' = [last (butlast (pool (callsigns sh)))])"

lemma fresh_login_outcome:
  assumes "callsign s = ''''"
  shows "\<exists>r. outbox (snd (handleLogin me (sh, s))) = outbox s @ [marshal (response_json r)] \<and>
    logged_in sh s (fst (handleLogin me (sh, s))) (snd (handleLogin me (sh, s))) \<and>
    (if refused sh s then
       respType r = ''error'' \<and> respCallsign r = '''' \<and> respPeerCallsigns r = [] \<and> respError r = refusal sh
     else r = login_response (snd (handleLogin me (sh, s))))"
proof -
  consider "pool (callsigns sh) = []" | c where "pool (callsigns sh) = [c]"
    | "2 \<le> length (pool (callsigns sh))"
    by (metis One_nat_def Suc_leI le_neq_implies_less length_0_conv length_Suc_conv length_greater_0_conv
        numeral_2_eq_2)
  then show ?thesis
  proof cases
    case 1
    then show ?thesis using assms
      by (intro exI [of _ "\<lparr>respType = ''error'', respCallsign = '''', respPeerCallsigns = [],
          respError = ''no callsign available''\<rparr>"])
        (simp add: handleLogin_def Issue_nonempty Issue_empty sendError_def sendJSON_def Let_def
          refused_def refusal_def logged_in_def)
  next
    case 2
    then show ?thesis using assms
      by (intro exI [of _ "\<lparr>respType = ''error'', respCallsign = '''', respPeerCallsigns = [],
          respError = ''no peer callsign available''\<rparr>"])
        (simp add: handleLogin_def Issue_nonempty Issue_empty sendError_def sendJSON_def Let_def
          refused_def refusal_def logged_in_def)
  next
    case 3
    then have "pool (callsigns sh) \<noteq> []" "butlast (pool (callsigns sh)) \<noteq> []"
      by (auto simp flip: length_greater_0_conv)
    with 3 assms show ?thesis
      by (intro exI [of _ "login_response (snd (handleLogin me (sh, s)))"])
        (simp add: handleLogin_def Issue_nonempty sendJSON_def assign_personas_def login_response_def Let_def
          refused_def logged_in_def)
  qed
qed

lemma login_outcome:
  "\<exists>r. outbox (snd (handleLogin me (sh, s))) = outbox s @ [marshal (response_json r)] \<and>
    logged_in sh s (fst (handleLogin me (sh, s))) (snd (handleLogin me (sh, s))) \<and>
    (if refused sh s then
       respType r = ''error'' \<and> respCallsign r = '''' \<and> respPeerCallsigns r = [] \<and> respError r = refusal sh
     else r = login_response (snd (handleLogin me (sh, s))))"
proof (cases "callsign s = ''''")
  case False
  then show ?thesis
    by (intro exI [of _ "login_response s"])
      (simp add: handleLogin_def sendJSON_def refused_def logged_in_def login_response_def)
qed (rule fresh_login_outcome)

section \<open>Properties\<close>

text \<open>
  C27. Logging in, from the keyboard of the test client to its screen, for the first time or again: the
  line \<open>login\<close> (or \<open>l\<close>, with any space around it) is sent as one message, which the server takes as a
  login; the server's answer is one message. A session that has a callsign keeps it and its peers, no
  callsign is issued, and the client shows them again; otherwise, if two callsigns are left, the
  session gets the last two of the pool and the client shows them, and if not, it gets none and the
  client shows which could not be issued. The callsigns are valid UTF-8, as \<open>buildPool\<close> makes them from a valid prefix.
\<close>

theorem login_round_trip:
  assumes "trim_space text = ''login'' \<or> trim_space text = ''l''"
    and "\<forall>c \<in> set (pool (callsigns sh)) \<union> set (callsign s # peerCallsigns s). valid_utf8 c"
    and "handleLogin me (sh, s) = (sh', s')"
  shows "\<exists>cmd answer. client_loop [Line text] = ([WsText cmd], False) \<and>
    handle_command me cmd (sh, s) = (sh', s') \<and> outbox s' = outbox s @ [answer] \<and>
    client_recv [Some answer] =
      [if callsign s = '''' \<and> length (pool (callsigns sh)) < 2
       then ShownError (if pool (callsigns sh) = [] then ''no callsign available'' else ''no peer callsign available'')
       else ShownLogin (callsign s') (peerCallsigns s')] \<and>
    (if callsign s \<noteq> '''' then sh' = sh \<and> callsign s' = callsign s \<and> peerCallsigns s' = peerCallsigns s
     else if length (pool (callsigns sh)) < 2 then callsign s' = ''''
     else callsign s' = last (pool (callsigns sh)) \<and>
       peerCallsigns s' = [last (butlast (pool (callsigns sh)))])"
proof -
  let ?cmd = "marshal (command_json \<lparr>cmdType = ''login''\<rparr>)"
  have loop: "client_loop [Line text] = ([WsText ?cmd], False)"
    using assms(1) by (auto simp: line_branch_def send_cmd_def)
  have cmd: "handle_command me ?cmd (sh, s) = (sh', s')"
    by (simp add: handle_command_def login_command assms(3))
  obtain r where r: "outbox s' = outbox s @ [marshal (response_json r)]"
    and l: "logged_in sh s sh' s'"
    and o': "if refused sh s then
       respType r = ''error'' \<and> respCallsign r = '''' \<and> respPeerCallsigns r = [] \<and> respError r = refusal sh
     else r = login_response s'"
    using login_outcome [of me sh s] assms(3) by auto
  have "valid_response r"
  proof (cases "refused sh s")
    case True
    with o' show ?thesis by (auto simp: valid_response_def valid_utf8_ascii refusal_def)
  next
    case False
    then have "callsign s \<noteq> '''' \<or> pool (callsigns sh) \<noteq> [] \<and> butlast (pool (callsigns sh)) \<noteq> []"
      by (auto simp: refused_def simp flip: length_greater_0_conv)
    then have "callsign s \<noteq> '''' \<or> last (pool (callsigns sh)) \<in> set (pool (callsigns sh)) \<and>
      last (butlast (pool (callsigns sh))) \<in> set (pool (callsigns sh))"
      by (auto dest: in_set_butlastD last_in_set)
    then have "valid_utf8 (callsign s')" "\<forall>p \<in> set (peerCallsigns s'). valid_utf8 p"
      using l False assms(2) by (auto simp: logged_in_def split: if_splits)
    with False o' show ?thesis
      by (simp add: valid_response_def login_response_def valid_utf8_ascii)
  qed
  from show_response [OF this] o' have "show_message (marshal (response_json r)) =
      (if refused sh s then ShownError (refusal sh) else ShownLogin (callsign s') (peerCallsigns s'))"
    by (auto simp: login_response_def split: if_splits)
  with loop cmd r l show ?thesis
    by (intro exI [of _ ?cmd] exI [of _ "marshal (response_json r)"])
      (auto simp: refused_def refusal_def logged_in_def split: if_splits)
qed

definition demo_shared :: shared where
  "demo_shared = \<lparr>callsigns = \<lparr>prefix = ''S4'', pool = [''S4AA'', ''S4AB'', ''S4CD''], issued = {}\<rparr>,
     registry = NewSessionRegistry\<rparr>"

lemma encode_ascii: "\<forall>c \<in> set s. byte_of c < 128 \<Longrightarrow> encode_runes (map of_char s) = s"
  by (metis valid_utf8_ascii runes_ascii valid_utf8_def)

lemma demo_line: "trim_space '' login'' = ''login''"
proof -
  have "trim_space (encode_runes (map of_char '' login'')) =
      encode_runes (trim_list is_space (map of_char '' login''))"
    by (rule trim_space_encode) (simp add: valid_rune_def)
  also have "trim_list is_space (map of_char '' login'') = map of_char ''login''"
    by (simp add: trim_list_def is_space_def between_def)
  finally show ?thesis
    using encode_ascii [of "'' login''"] encode_ascii [of "''login''"] by simp
qed

text \<open>A first login, and one more by the same session.\<close>

definition demo_member :: wsSession where
  "demo_member = (newWSSession defaultScenario)\<lparr>callsign := ''S4ZZ'', peerCallsigns := [''S4YY'']\<rparr>"

lemma demo_first_login:
  "\<exists>sh' s'. handleLogin 0 (demo_shared, newWSSession defaultScenario) = (sh', s') \<and>
    callsign s' = ''S4CD'' \<and> peerCallsigns s' = [''S4AB'']"
  by (simp add: demo_shared_def newWSSession_def handleLogin_def Issue_def sendJSON_def
      assign_personas_def Let_def)

theorem login_round_trip_witness:
  "(\<exists>cmd answer sh' s'. client_loop [Line '' login''] = ([WsText cmd], False) \<and>
    handle_command 0 cmd (demo_shared, newWSSession defaultScenario) = (sh', s') \<and>
    client_recv [Some answer] = [ShownLogin ''S4CD'' [''S4AB'']]) \<and>
   (\<exists>cmd answer s'. client_loop [Line '' login''] = ([WsText cmd], False) \<and>
    handle_command 0 cmd (demo_shared, demo_member) = (demo_shared, s') \<and>
    client_recv [Some answer] = [ShownLogin ''S4ZZ'' [''S4YY'']])"
proof
  obtain sh' s' where l: "handleLogin 0 (demo_shared, newWSSession defaultScenario) = (sh', s')"
    "callsign s' = ''S4CD''" "peerCallsigns s' = [''S4AB'']"
    using demo_first_login by blast
  show "\<exists>cmd answer sh' s'. client_loop [Line '' login''] = ([WsText cmd], False) \<and>
    handle_command 0 cmd (demo_shared, newWSSession defaultScenario) = (sh', s') \<and>
    client_recv [Some answer] = [ShownLogin ''S4CD'' [''S4AB'']]"
    using login_round_trip [OF disjI1 [OF demo_line] _ l(1)] l(2,3)
    by (auto simp: demo_shared_def newWSSession_def valid_utf8_ascii
        simp del: client_loop.simps client_recv.simps)
  have m: "handleLogin 0 (demo_shared, demo_member) = (demo_shared, sendJSON (login_response demo_member) demo_member)"
    by (simp add: handleLogin_def demo_member_def)
  show "\<exists>cmd answer s'. client_loop [Line '' login''] = ([WsText cmd], False) \<and>
    handle_command 0 cmd (demo_shared, demo_member) = (demo_shared, s') \<and>
    client_recv [Some answer] = [ShownLogin ''S4ZZ'' [''S4YY'']]"
    using login_round_trip [OF disjI1 [OF demo_line] _ m]
    by (auto simp: demo_shared_def demo_member_def sendJSON_def newWSSession_def valid_utf8_ascii
        simp del: client_loop.simps client_recv.simps)
qed

end
