(* ===== verification/OggCrc.thy ===== *)
theory OggCrc
  imports Bytes
begin

unbundle bit_operations_syntax

text \<open>
  The checksum of Ogg pages as \<open>app/radio-bridge-test-client/ogg.go\<close> computes it: a table of 256
  entries filled in \<open>init\<close> and one table lookup per byte. The reference is the bit-serial division
  by the polynomial \<open>0x04c11db7\<close> that the Ogg format (RFC 3533) specifies, most significant bit
  first, initial value and final XOR zero; the theorem says that the two agree on all data.
\<close>

section \<open>The code\<close>

text \<open>The inner loop of the table's construction, one shift at a time.\<close>

definition crc_shift :: "32 word \<Rightarrow> 32 word" where
  "crc_shift crc =
     (if crc AND 0x80000000 \<noteq> 0 then push_bit 1 crc XOR 0x04c11db7 else push_bit 1 crc)"

definition crc_entry :: "nat \<Rightarrow> 32 word" where
  "crc_entry i = (crc_shift ^^ 8) (push_bit 24 (of_nat i))"

definition oggCRCTableData :: "32 word list" where
  "oggCRCTableData = map crc_entry [0..<256]"

definition crc_step :: "32 word \<Rightarrow> byte \<Rightarrow> 32 word" where
  "crc_step crc b =
     push_bit 8 crc XOR oggCRCTableData ! unat ((ucast (drop_bit 24 crc) :: byte) XOR b)"

definition crc32Ogg :: "bytes \<Rightarrow> 32 word" where
  "crc32Ogg d = foldl crc_step 0 d"

section \<open>The reference: bit-serial division\<close>

definition byte_bits :: "byte \<Rightarrow> bool list" where
  "byte_bits b = map (bit b) (rev [0..<8])"

definition crc_bit :: "32 word \<Rightarrow> bool \<Rightarrow> 32 word" where
  "crc_bit crc v =
     (if bit crc 31 \<noteq> v then push_bit 1 crc XOR 0x04c11db7 else push_bit 1 crc)"

definition ogg_checksum :: "bytes \<Rightarrow> 32 word" where
  "ogg_checksum d = foldl crc_bit 0 (concat (map byte_bits d))"

section \<open>Facts\<close>

lemma and_top_bit: "(w :: 32 word) AND 0x80000000 \<noteq> 0 \<longleftrightarrow> bit w 31"
  using bit_iff_and_push_bit_not_eq_0 [of w 31] by simp

lemma bit_beyond: "32 \<le> n \<Longrightarrow> \<not> bit (w :: 32 word) n"
  using bit_imp_le_length [of w n] by auto

lemma crc_shift_bit: "crc_shift w = (if bit w 31 then push_bit 1 w XOR 0x04c11db7 else push_bit 1 w)"
  by (simp add: crc_shift_def and_top_bit)

text \<open>Shifting is linear over XOR, and so is any number of shifts.\<close>

lemma crc_shift_xor: "crc_shift (a XOR b) = crc_shift a XOR crc_shift b"
  by (simp add: crc_shift_bit push_bit_xor bit_xor_iff ac_simps flip: xor.assoc)

lemma crc_shifts_xor: "(crc_shift ^^ n) (a XOR b) = (crc_shift ^^ n) a XOR (crc_shift ^^ n) b"
  by (induction n) (simp_all add: crc_shift_xor)

lemma crc_shift_low: "\<not> bit w 31 \<Longrightarrow> crc_shift w = push_bit 1 w"
  by (simp add: crc_shift_bit)

text \<open>The bits of a message as they stand at the top of a word.\<close>

definition top_bit :: "bool \<Rightarrow> 32 word" where
  "top_bit v = (if v then push_bit 31 1 else 0)"

lemma bit_top_bit: "bit (top_bit v) i \<longleftrightarrow> v \<and> i = 31"
  unfolding top_bit_def by (simp only: bit_push_bit_iff bit_1_iff split: if_splits) auto

lemma push_top_bit: "push_bit 1 (top_bit v) = 0" "push_bit (Suc 0) (top_bit v) = 0"
  by (simp_all add: top_bit_def)

fun top_bits :: "bool list \<Rightarrow> 32 word" where
  "top_bits [] = 0"
| "top_bits (v # vs) = top_bit v XOR drop_bit 1 (top_bits vs)"

lemma bit_top_bits:
  "i < 32 \<Longrightarrow> bit (top_bits vs) i \<longleftrightarrow> 31 - i < length vs \<and> vs ! (31 - i)"
proof (induction vs arbitrary: i)
  case (Cons v vs)
  show ?case
  proof (cases "i = 31")
    case True
    then show ?thesis by (simp add: bit_top_bit bit_simps bit_beyond)
  next
    case False
    with Cons.prems have "31 - i = Suc (31 - Suc i)" "Suc i < 32" by simp_all
    with Cons.IH [of "Suc i"] False Cons.prems show ?thesis
      by (simp add: bit_top_bit bit_simps)
  qed
qed simp

lemma crc_bit_shift: "crc_bit c v = crc_shift (c XOR top_bit v)"
  by (auto simp: crc_bit_def crc_shift_bit bit_top_bit bit_xor_iff push_bit_xor push_top_bit
      simp del: push_bit_Suc push_bit_of_1)

lemma crc_bits_shift:
  "length vs < 32 \<Longrightarrow> foldl crc_bit c vs = (crc_shift ^^ length vs) (c XOR top_bits vs)"
proof (induction vs arbitrary: c)
  case (Cons v vs)
  have "\<not> bit (drop_bit 1 (top_bits vs)) 31"
    by (simp add: bit_simps bit_beyond)
  moreover have "push_bit 1 (drop_bit 1 (top_bits vs)) = top_bits vs"
  proof (rule bit_word_eqI)
    fix i assume "i < LENGTH(32)"
    then show "bit (push_bit 1 (drop_bit 1 (top_bits vs))) i = bit (top_bits vs) i"
      using Cons.prems bit_top_bits [of 0 vs]
      by (cases i; simp only: bit_push_bit_iff bit_drop_bit_eq comp_def; simp)
  qed
  ultimately have "crc_shift (drop_bit 1 (top_bits vs)) = top_bits vs" by (simp add: crc_shift_low)
  then have "crc_shift (c XOR top_bits (v # vs)) = crc_bit c v XOR top_bits vs"
    by (simp add: crc_bit_shift crc_shift_xor flip: xor.assoc)
  with Cons show ?case by (simp add: funpow_Suc_right del: funpow.simps(2))
qed simp

lemma top_bits_byte: "top_bits (byte_bits b) = push_bit 24 (ucast b)"
proof (rule bit_word_eqI)
  fix i assume i: "i < LENGTH(32)"
  show "bit (top_bits (byte_bits b)) i = bit (push_bit 24 (ucast b :: 32 word)) i"
  proof (cases "i < 24")
    case True
    with i have "\<not> 31 - i < 8" by simp
    with True i show ?thesis by (simp add: bit_top_bits byte_bits_def bit_simps)
  next
    case False
    with i have "31 - i < 8" "7 - (31 - i) = i - 24" "i - 24 < 32" by simp_all
    with False i show ?thesis
      by (simp add: bit_top_bits byte_bits_def bit_simps rev_nth del: upt_conv_Cons)
  qed
qed

lemma crc_step_bits: "crc_step c b = foldl crc_bit c (byte_bits b)"
proof -
  let ?hi = "ucast (drop_bit 24 c) :: byte" and ?lo = "take_bit 24 c"
  have "unat (?hi XOR b) < 256" using unsigned_less [of "?hi XOR b", where 'a = nat] by simp
  then have t: "oggCRCTableData ! unat (?hi XOR b) = (crc_shift ^^ 8) (push_bit 24 (ucast (?hi XOR b)))"
    by (simp add: oggCRCTableData_def crc_entry_def unsigned_of_nat unsigned_ucast_eq)
  have lo: "(crc_shift ^^ n) ?lo = push_bit n ?lo" if "n \<le> 8" for n
    using that
  proof (induction n)
    case (Suc n)
    have "\<not> 31 - n < 24" using Suc.prems by simp
    then have "\<not> bit (push_bit n ?lo) 31" by (simp only: bit_push_bit_iff bit_take_bit_iff) simp
    with Suc show ?case by (simp add: crc_shift_low)
  qed simp
  have c: "c = push_bit 24 (ucast ?hi) XOR ?lo"
    by (rule bit_word_eqI) (auto simp: bit_simps)
  have l8: "push_bit 8 ?lo = push_bit 8 c"
    by (rule bit_word_eqI) (auto simp: bit_simps)
  have "foldl crc_bit c (byte_bits b) = (crc_shift ^^ 8) (c XOR push_bit 24 (ucast b))"
    using crc_bits_shift [of "byte_bits b" c] by (simp add: top_bits_byte) (simp add: byte_bits_def)
  also have "c XOR push_bit 24 (ucast b) = push_bit 24 (ucast (?hi XOR b)) XOR ?lo"
    by (subst (1) c) (simp add: push_bit_xor unsigned_xor_eq ac_simps)
  also have "(crc_shift ^^ 8) \<dots> = oggCRCTableData ! unat (?hi XOR b) XOR push_bit 8 c"
    using lo [of 8] by (simp only: crc_shifts_xor t l8)
  finally show ?thesis by (simp add: crc_step_def xor.commute)
qed

section \<open>Properties\<close>

text \<open>
  C33. The table-driven checksum is the bit-serial division by the Ogg polynomial, for data of any
  length.
\<close>

theorem crc_table_correct: "crc32Ogg d = ogg_checksum d"
proof -
  have "foldl crc_step c d = foldl crc_bit c (concat (map byte_bits d))" for c
    by (induction d arbitrary: c) (simp_all add: crc_step_bits)
  then show ?thesis by (simp add: crc32Ogg_def ogg_checksum_def)
qed

end
