(* ===== verification/OggPage.thy ===== *)
theory OggPage
  imports OggCrc
begin

unbundle bit_operations_syntax

text \<open>
  The Ogg writer of the test client, \<open>app/radio-bridge-test-client/ogg.go\<close>: packets are gathered
  into pages of ten, each page with its segment table, its granule position and its checksum.

  The contract is the page format of RFC 3533. A reader of that format is given as the reference,
  and the theorem is that it reads back every packet the writer was given, with the page numbers,
  granule positions and flags in place.
\<close>

section \<open>The writer\<close>

definition framesPerPage :: nat where
  "framesPerPage = 10"

record oggWriter =
  buf :: bytes
  serial :: "32 word"
  pageSeqNo :: "32 word"
  packetBuf :: "bytes list"
  granuleAcc :: "64 word"

definition newOggWriter :: oggWriter where
  "newOggWriter = \<lparr>buf = [], serial = 0x57485052, pageSeqNo = 0, packetBuf = [], granuleAcc = 0\<rparr>"

text \<open>The segment table's entries for a packet of this many bytes.\<close>

fun lacing :: "nat \<Rightarrow> bytes" where
  "lacing remaining = (if remaining \<ge> 255 then 255 # lacing (remaining - 255) else [of_nat remaining])"

declare lacing.simps [simp del]

definition segment_table :: "bytes list \<Rightarrow> bytes" where
  "segment_table packets = concat (map (\<lambda>p. lacing (length p)) packets)"

definition header_type :: "bool \<Rightarrow> bool \<Rightarrow> byte" where
  "header_type bos eos =
     (let h = 0; h = (if bos then h OR 2 else h) in if eos then h OR 4 else h)"

text \<open>
  The page with the checksum field as given; the number of segments is cut to a byte as the code
  cuts it. The code writes a zero first, computes the checksum of the page, and stores it in bytes
  22 to 25.
\<close>

definition page_bytes ::
  "byte \<Rightarrow> 64 word \<Rightarrow> 32 word \<Rightarrow> 32 word \<Rightarrow> 32 word \<Rightarrow> bytes list \<Rightarrow> bytes" where
  "page_bytes headerType granulePos ser seqNo crcv packets =
     ascii ''OggS'' @ [0] @ [headerType] @ le_bytes 8 (unat granulePos) @ le4 (unat ser)
       @ le4 (unat seqNo) @ le4 (unat crcv) @ [of_nat (length (segment_table packets))]
       @ segment_table packets @ concat packets"

definition writeOggPage :: "bytes list \<Rightarrow> 64 word \<Rightarrow> bool \<Rightarrow> bool \<Rightarrow> oggWriter \<Rightarrow> oggWriter" where
  "writeOggPage packets granulePos bos eos w =
     (let pageBytes = page_bytes (header_type bos eos) granulePos (serial w) (pageSeqNo w) 0 packets;
          crc = crc32Ogg pageBytes
      in w\<lparr>buf := buf w @ take 22 pageBytes @ le4 (unat crc) @ drop 26 pageBytes\<rparr>)"

definition writePage :: "bytes \<Rightarrow> 64 word \<Rightarrow> bool \<Rightarrow> bool \<Rightarrow> oggWriter \<Rightarrow> oggWriter" where
  "writePage packet granule bos eos w =
     (let w = writeOggPage [packet] granule bos eos w in w\<lparr>pageSeqNo := pageSeqNo w + 1\<rparr>)"

definition writeAudioPacket :: "bytes \<Rightarrow> 64 word \<Rightarrow> oggWriter \<Rightarrow> oggWriter" where
  "writeAudioPacket packet granule w =
     (let w = w\<lparr>packetBuf := packetBuf w @ [packet], granuleAcc := granule\<rparr>
      in if length (packetBuf w) \<ge> framesPerPage then
           let w = writeOggPage (packetBuf w) (granuleAcc w) False False w
           in w\<lparr>pageSeqNo := pageSeqNo w + 1, packetBuf := []\<rparr>
         else w)"

definition flush_ogg :: "oggWriter \<Rightarrow> oggWriter" where
  "flush_ogg w =
     (if length (packetBuf w) > 0 then
        let w = writeOggPage (packetBuf w) (granuleAcc w) False True w
        in w\<lparr>pageSeqNo := pageSeqNo w + 1, packetBuf := []\<rparr>
      else w)"

definition sampleRate_tc :: nat where
  "sampleRate_tc = 48000"

definition frameSize_tc :: nat where
  "frameSize_tc = 960"

definition buildOpusHead :: bytes where
  "buildOpusHead =
     ascii ''OpusHead'' @ [1] @ [1] @ le_bytes 2 0 @ le4 sampleRate_tc @ le_bytes 2 0 @ [0]"

definition buildOpusTags :: bytes where
  "buildOpusTags =
     (let vendor = ascii ''whisper-link-client''
      in ascii ''OpusTags'' @ le4 (length vendor) @ vendor @ le4 0)"

text \<open>\<open>encodePCMToOggOpus\<close> of the test client's \<open>main.go\<close>.\<close>

fun write_frames :: "bytes list \<Rightarrow> 64 word \<Rightarrow> oggWriter \<Rightarrow> oggWriter" where
  "write_frames [] granule w = w"
| "write_frames (frame # frames) granule w =
     (let granule = granule + of_nat frameSize_tc
      in write_frames frames granule (writeAudioPacket frame granule w))"

definition encodeFramesToOggOpus :: "bytes list \<Rightarrow> bytes go" where
  "encodeFramesToOggOpus frames =
     (if length frames = 0 then Error ''no frames recorded''
      else
        let w = newOggWriter;
            w = writePage buildOpusHead 0 True False w;
            w = writePage buildOpusTags 0 False False w
        in Return (buf (flush_ogg (write_frames frames 0 w))))"

section \<open>The reference: reading the page format\<close>

record ogg_page =
  pgHeaderType :: byte
  pgGranule :: "64 word"
  pgSerial :: "32 word"
  pgSeqNo :: "32 word"
  pgPackets :: "bytes list"

text \<open>
  The packet sizes a segment table states; a table that ends in 255 leaves a packet open for the
  next page, which this reader refuses. Then the packets themselves.
\<close>

fun packet_sizes :: "nat \<Rightarrow> bytes \<Rightarrow> nat list option" where
  "packet_sizes acc [] = (if acc = 0 then Some [] else None)"
| "packet_sizes acc (s # ss) =
     (if s = 255 then packet_sizes (acc + 255) ss
      else map_option (Cons (acc + unat s)) (packet_sizes 0 ss))"

fun split_sizes :: "nat list \<Rightarrow> bytes \<Rightarrow> (bytes list \<times> bytes) option" where
  "split_sizes [] d = Some ([], d)"
| "split_sizes (n # ns) d =
     (if n \<le> length d then map_option (\<lambda>(ps, r). (take n d # ps, r)) (split_sizes ns (drop n d))
      else None)"

definition field :: "nat \<Rightarrow> nat \<Rightarrow> bytes \<Rightarrow> nat" where
  "field i n d = le_value (take n (drop i d))"

text \<open>One page: the magic, the version, the fields, the packets, and the checksum with its field zeroed.\<close>

definition read_page :: "bytes \<Rightarrow> (ogg_page \<times> bytes) option" where
  "read_page d =
     (if length d < 27 \<or> take 5 d \<noteq> ascii ''OggS'' @ [0] \<or> length d < 27 + unat (d ! 26) then None
      else
        case packet_sizes 0 (take (unat (d ! 26)) (drop 27 d)) of
          None \<Rightarrow> None
        | Some ns \<Rightarrow>
            (case split_sizes ns (drop (27 + unat (d ! 26)) d) of
               None \<Rightarrow> None
             | Some (ps, rest) \<Rightarrow>
                 let page = take (length d - length rest) d in
                 if ogg_checksum (take 22 page @ [0, 0, 0, 0] @ drop 26 page) = of_nat (field 22 4 page)
                 then Some (\<lparr>pgHeaderType = d ! 5, pgGranule = of_nat (field 6 8 page),
                        pgSerial = of_nat (field 14 4 page), pgSeqNo = of_nat (field 18 4 page),
                        pgPackets = ps\<rparr>, rest)
                 else None))"

lemma split_sizes_length: "split_sizes ns d = Some (ps, r) \<Longrightarrow> length r \<le> length d"
proof (induction ns arbitrary: d ps)
  case (Cons n ns)
  then obtain ps' where "n \<le> length d" "split_sizes ns (drop n d) = Some (ps', r)"
    by (auto split: if_splits)
  with Cons.IH [OF this(2)] show ?case by simp
qed simp

lemma read_page_length: "read_page d = Some (p, r) \<Longrightarrow> length r < length d"
  by (auto simp: read_page_def Let_def dest!: split_sizes_length split: if_splits option.splits)

function read_pages :: "bytes \<Rightarrow> ogg_page list option" where
  "read_pages d =
     (if d = [] then Some []
      else case read_page d of
             None \<Rightarrow> None
           | Some (p, r) \<Rightarrow> map_option (Cons p) (read_pages r))"
  by pat_completeness auto
termination by (relation "measure length") (auto dest: read_page_length)

declare read_pages.simps [simp del]


section \<open>Facts\<close>

lemma packet_sizes_lacing:
  "packet_sizes acc (lacing n @ ss) = map_option (Cons (acc + n)) (packet_sizes 0 ss)"
proof (induction n arbitrary: acc rule: lacing.induct)
  case (1 n)
  show ?case
  proof (cases "255 \<le> n")
    case True
    then have "lacing n = 255 # lacing (n - 255)" by (subst lacing.simps) simp
    with 1 [of "acc + 255"] True show ?thesis by simp
  next
    case False
    then have l: "lacing n = [of_nat n]" by (subst lacing.simps) simp
    from False have u: "unat (of_nat n :: byte) = n" by (simp add: unat_of_nat)
    have "(of_nat n :: byte) \<noteq> 255"
    proof
      assume "(of_nat n :: byte) = 255"
      then have "unat (of_nat n :: byte) = 255" by simp
      with u False show False by simp
    qed
    with l u show ?thesis by simp
  qed
qed

lemma packet_sizes_table: "packet_sizes 0 (segment_table ps) = Some (map length ps)"
  by (induction ps) (simp_all add: segment_table_def packet_sizes_lacing)

lemma split_sizes_concat: "split_sizes (map length ps) (concat ps @ r) = Some (ps, r)"
  by (induction ps) simp_all

lemma length_lacing: "length (lacing n) = n div 255 + 1"
proof (induction n rule: lacing.induct)
  case (1 n)
  show ?case
  proof (cases "255 \<le> n")
    case True
    then have "lacing n = 255 # lacing (n - 255)" by (subst lacing.simps) simp
    with 1 True show ?thesis by (simp add: le_div_geq)
  next
    case False
    then show ?thesis by (subst lacing.simps) simp
  qed
qed

text \<open>A page fits when its segment table has at most 255 entries.\<close>

definition fits :: "bytes list \<Rightarrow> bool" where
  "fits ps \<longleftrightarrow> length (segment_table ps) \<le> 255"

lemma fits_page:
  assumes "length ps \<le> framesPerPage" and "\<forall>p \<in> set ps. length p \<le> 4096"
  shows "fits ps"
proof -
  have "length (segment_table ps) \<le> 17 * length ps"
    using assms(2)
  proof (induction ps)
    case (Cons p ps)
    then have "length p div 255 \<le> 4096 div 255" by (intro div_le_mono) simp
    with Cons show ?case by (simp add: segment_table_def length_lacing)
  qed (simp add: segment_table_def)
  with assms(1) show ?thesis by (simp add: fits_def framesPerPage_def)
qed

text \<open>The bytes a page stands for: what the writer appends.\<close>

definition encode_page :: "ogg_page \<Rightarrow> bytes" where
  "encode_page p =
     page_bytes (pgHeaderType p) (pgGranule p) (pgSerial p) (pgSeqNo p)
       (crc32Ogg (page_bytes (pgHeaderType p) (pgGranule p) (pgSerial p) (pgSeqNo p) 0 (pgPackets p)))
       (pgPackets p)"

definition page_front :: "byte \<Rightarrow> 64 word \<Rightarrow> 32 word \<Rightarrow> 32 word \<Rightarrow> bytes" where
  "page_front h g s n =
     ascii ''OggS'' @ [0] @ [h] @ le_bytes 8 (unat g) @ le4 (unat s) @ le4 (unat n)"

lemma page_bytes_split:
  "page_bytes h g s n c ps = page_front h g s n @ le4 (unat c)
     @ [of_nat (length (segment_table ps))] @ segment_table ps @ concat ps"
  by (simp add: page_bytes_def page_front_def)

lemma length_page_front [simp]: "length (page_front h g s n) = 22"
  by (simp add: page_front_def)

lemma replace_checksum:
  "take 22 (page_bytes h g s n c ps) @ le4 (unat c') @ drop 26 (page_bytes h g s n c ps)
     = page_bytes h g s n c' ps"
  by (simp add: page_bytes_split)

lemma writeOggPage_page:
  "writeOggPage ps g bos eos w =
     w\<lparr>buf := buf w @ encode_page \<lparr>pgHeaderType = header_type bos eos, pgGranule = g,
        pgSerial = serial w, pgSeqNo = pageSeqNo w, pgPackets = ps\<rparr>\<rparr>"
  by (simp add: writeOggPage_def Let_def replace_checksum encode_page_def)


lemma field_at: "length pre = i \<Longrightarrow> length x = n \<Longrightarrow> field i n (pre @ x @ post) = le_value x"
  by (simp add: field_def)

lemma nth_at: "length pre = i \<Longrightarrow> (pre @ [x] @ post) ! i = x"
  by (simp add: nth_append)

lemma drop_at: "length pre = i \<Longrightarrow> drop i (pre @ post) = post"
  by simp

lemma page_bytes_fields:
  fixes h g s n c ps rest
  defines "d \<equiv> page_bytes h g s n c ps @ rest"
  shows "take 5 d = ascii ''OggS'' @ [0]" "d ! 5 = h" "field 6 8 d = le_value (le_bytes 8 (unat g))"
    "field 14 4 d = le_value (le4 (unat s))" "field 18 4 d = le_value (le4 (unat n))"
    "field 22 4 d = le_value (le4 (unat c))" "d ! 26 = of_nat (length (segment_table ps))"
    "drop 27 d = segment_table ps @ concat ps @ rest"
proof -
  let ?m = "ascii ''OggS'' @ [0]" and ?l = "[of_nat (length (segment_table ps))]"
  let ?tail = "segment_table ps @ concat ps @ rest"
  have d: "d = ?m @ [h] @ le_bytes 8 (unat g) @ le4 (unat s) @ le4 (unat n) @ le4 (unat c) @ ?l @ ?tail"
    by (simp add: d_def page_bytes_def)
  show "take 5 d = ?m" by (simp add: d)
  show "d ! 5 = h" unfolding d by (rule nth_at) simp
  show "field 6 8 d = le_value (le_bytes 8 (unat g))"
    using field_at [of "?m @ [h]" 6 "le_bytes 8 (unat g)" 8] by (simp add: d)
  show "field 14 4 d = le_value (le4 (unat s))"
    using field_at [of "?m @ [h] @ le_bytes 8 (unat g)" 14 "le4 (unat s)" 4] by (simp add: d)
  show "field 18 4 d = le_value (le4 (unat n))"
    using field_at [of "?m @ [h] @ le_bytes 8 (unat g) @ le4 (unat s)" 18 "le4 (unat n)" 4]
    by (simp add: d)
  show "field 22 4 d = le_value (le4 (unat c))"
    using field_at [of "?m @ [h] @ le_bytes 8 (unat g) @ le4 (unat s) @ le4 (unat n)" 22 "le4 (unat c)" 4]
    by (simp add: d)
  show "d ! 26 = of_nat (length (segment_table ps))"
    using nth_at [of "?m @ [h] @ le_bytes 8 (unat g) @ le4 (unat s) @ le4 (unat n) @ le4 (unat c)" 26
        "of_nat (length (segment_table ps))" ?tail]
    by (simp add: d)
  show "drop 27 d = ?tail"
    using drop_at [of "?m @ [h] @ le_bytes 8 (unat g) @ le4 (unat s) @ le4 (unat n) @ le4 (unat c) @ ?l" 27 ?tail]
    by (simp add: d)
qed

lemma read_page_encode:
  assumes "fits (pgPackets p)"
  shows "read_page (encode_page p @ rest) = Some (p, rest)"
proof -
  obtain h g s n ps where p: "p = \<lparr>pgHeaderType = h, pgGranule = g, pgSerial = s, pgSeqNo = n, pgPackets = ps\<rparr>"
    by (cases p)
  define c where "c = crc32Ogg (page_bytes h g s n 0 ps)"
  define page where "page = page_bytes h g s n c ps"
  have e: "encode_page p = page" by (simp add: p encode_page_def page_def c_def)
  have seg: "unat (of_nat (length (segment_table ps)) :: byte) = length (segment_table ps)"
    using assms by (simp add: p fits_def unat_of_nat)
  note f = page_bytes_fields [of h g s n c ps rest, folded page_def]
  note f0 = page_bytes_fields [of h g s n c ps "[]", folded page_def, simplified]
  have len: "length page = 27 + length (segment_table ps) + length (concat ps)"
    by (simp add: page_def page_bytes_split)
  have d27: "drop (27 + length (segment_table ps)) (page @ rest) = concat ps @ rest"
  proof -
    have "drop (27 + length (segment_table ps)) (page @ rest)
        = drop (length (segment_table ps)) (drop 27 (page @ rest))"
      by (simp only: drop_drop add.commute)
    also have "\<dots> = concat ps @ rest" by (simp only: f(8)) simp
    finally show ?thesis .
  qed
  have t27: "take (length (segment_table ps)) (drop 27 (page @ rest)) = segment_table ps"
    by (simp only: f(8) append_eq_conv_conj) simp
  have pg: "take (length (page @ rest) - length rest) (page @ rest) = page" by simp
  have sum: "ogg_checksum (take 22 page @ [0, 0, 0, 0] @ drop 26 page) = c"
  proof -
    have "unat (0 :: 32 word) = 0" "le4 0 = [0, 0, 0, 0]" by (simp_all add: le4_zero)
    with replace_checksum [of h g s n c ps 0]
    have "take 22 page @ [0, 0, 0, 0] @ drop 26 page = page_bytes h g s n 0 ps"
      by (simp only: page_def)
    then show ?thesis by (simp only: c_def crc_table_correct)
  qed
  have big: "\<not> (length (page @ rest) < 27 \<or> take 5 (page @ rest) \<noteq> ascii ''OggS'' @ [0] \<or>
      length (page @ rest) < 27 + length (segment_table ps))"
    using len f(1) by simp
  have fld: "of_nat (field 22 4 page) = c" "of_nat (field 6 8 page) = g" "of_nat (field 14 4 page) = s"
    "of_nat (field 18 4 page) = n"
    using f0 by simp_all
  show ?thesis
    unfolding e read_page_def f(7) seg if_not_P [OF big] t27 d27 packet_sizes_table option.case
      split_sizes_concat prod.case Let_def pg sum fld f(2)
    by (simp add: p)
qed

lemma read_pages_encode:
  "\<forall>p \<in> set ps. fits (pgPackets p) \<Longrightarrow> read_pages (concat (map encode_page ps)) = Some ps"
proof (induction ps)
  case Nil
  show ?case by (subst read_pages.simps) simp
next
  case (Cons p ps)
  have "encode_page p \<noteq> []" by (simp add: encode_page_def page_bytes_split)
  with Cons show ?case by (subst read_pages.simps) (simp add: read_page_encode)
qed


text \<open>
  The pages the audio frames end up in: the \<open>i\<close>th of those that follow the two headers, when \<open>k\<close>
  frames went before.
\<close>

definition granule_at :: "nat \<Rightarrow> 64 word" where
  "granule_at k = of_nat (frameSize_tc * k)"

lemma granule_at_Suc: "granule_at k + of_nat frameSize_tc = granule_at (Suc k)"
  by (simp add: granule_at_def algebra_simps)

definition audio_page :: "nat \<Rightarrow> 32 word \<Rightarrow> bytes list \<Rightarrow> bool \<Rightarrow> ogg_page" where
  "audio_page k n ps eos =
     \<lparr>pgHeaderType = header_type False eos, pgGranule = granule_at k,
      pgSerial = 0x57485052, pgSeqNo = n, pgPackets = ps\<rparr>"

function audio_pages :: "nat \<Rightarrow> 32 word \<Rightarrow> bytes list \<Rightarrow> ogg_page list" where
  "audio_pages k n fs =
     (if fs = [] then []
      else if length fs < framesPerPage then [audio_page (k + length fs) n fs True]
      else audio_page (k + framesPerPage) n (take framesPerPage fs) False
             # audio_pages (k + framesPerPage) (n + 1) (drop framesPerPage fs))"
  by pat_completeness auto
termination
  by (relation "measure (\<lambda>(k, n, fs). length fs)") (auto simp: framesPerPage_def)

declare audio_pages.simps [simp del]

lemma audio_pages_full:
  assumes "length ps = framesPerPage"
  shows "audio_pages k n (ps @ fs) =
    audio_page (k + framesPerPage) n ps False # audio_pages (k + framesPerPage) (n + 1) fs"
proof -
  have "ps \<noteq> []" using assms by (auto simp: framesPerPage_def)
  then show ?thesis using assms by (subst audio_pages.simps) simp
qed

definition write_rest :: "bytes list \<Rightarrow> 64 word \<Rightarrow> oggWriter \<Rightarrow> oggWriter" where
  "write_rest fs g w = flush_ogg (write_frames fs g w)"

lemma write_frames_pages:
  assumes "serial w = 0x57485052" and "length (packetBuf w) < framesPerPage"
    and "packetBuf w \<noteq> [] \<Longrightarrow> granuleAcc w = granule_at (k + length (packetBuf w))"
  shows "buf (write_rest fs (granule_at (k + length (packetBuf w))) w) =
    buf w @ concat (map encode_page (audio_pages k (pageSeqNo w) (packetBuf w @ fs)))"
  using assms
proof (induction fs arbitrary: w k)
  case Nil
  then show ?case
    by (subst audio_pages.simps)
      (auto simp: write_rest_def flush_ogg_def writeOggPage_page audio_page_def Let_def)
next
  case (Cons f fs)
  let ?g = "granule_at (Suc (k + length (packetBuf w)))"
  let ?w = "writeAudioPacket f ?g w"
  have step: "write_rest (f # fs) (granule_at (k + length (packetBuf w))) w = write_rest fs ?g ?w"
    by (simp add: write_rest_def Let_def granule_at_Suc)
  show ?case
  proof (cases "Suc (length (packetBuf w)) < framesPerPage")
    case True
    then have w: "?w = w\<lparr>packetBuf := packetBuf w @ [f], granuleAcc := ?g\<rparr>"
      by (simp add: writeAudioPacket_def Let_def)
    have "buf (write_rest fs (granule_at (k + length (packetBuf ?w))) ?w) =
        buf ?w @ concat (map encode_page (audio_pages k (pageSeqNo ?w) (packetBuf ?w @ fs)))"
      by (rule Cons.IH) (use Cons.prems True w in simp_all)
    with w step show ?thesis by simp
  next
    case False
    let ?ps = "packetBuf w @ [f]"
    have full: "length ?ps = framesPerPage" using False Cons.prems(2) by simp
    then have k: "k + framesPerPage = Suc (k + length (packetBuf w))" by simp
    let ?p = "audio_page (k + framesPerPage) (pageSeqNo w) ?ps False"
    have w: "?w = w\<lparr>packetBuf := [], granuleAcc := ?g, pageSeqNo := pageSeqNo w + 1,
        buf := buf w @ encode_page ?p\<rparr>"
      using full Cons.prems(1) unfolding k
      by (cases w) (simp add: writeAudioPacket_def writeOggPage_page Let_def audio_page_def)
    have "buf (write_rest fs (granule_at (k + framesPerPage + length (packetBuf ?w))) ?w) =
        buf ?w @ concat (map encode_page (audio_pages (k + framesPerPage) (pageSeqNo ?w) (packetBuf ?w @ fs)))"
      by (rule Cons.IH) (use Cons.prems w in \<open>simp_all add: framesPerPage_def\<close>)
    moreover have "audio_pages k (pageSeqNo w) (?ps @ fs) =
        ?p # audio_pages (k + framesPerPage) (pageSeqNo w + 1) fs"
      using full by (rule audio_pages_full)
    ultimately show ?thesis using w step k [symmetric] by simp
  qed
qed


text \<open>The same pages by number: the \<open>i\<close>th holds frames \<open>10 i\<close> to \<open>10 i + 9\<close>.\<close>

definition nth_page :: "bytes list \<Rightarrow> nat \<Rightarrow> ogg_page" where
  "nth_page fs i =
     \<lparr>pgHeaderType = (if 10 * i + 10 \<le> length fs then 0 else 4),
      pgGranule = of_nat (960 * min (10 * i + 10) (length fs)),
      pgSerial = 0x57485052, pgSeqNo = of_nat (i + 2), pgPackets = take 10 (drop (10 * i) fs)\<rparr>"

definition page_count :: "bytes list \<Rightarrow> nat" where
  "page_count fs = (length fs + 9) div 10"

lemma header_types: "header_type False True = 4" "header_type False False = 0" "header_type True False = 2"
  by (simp_all add: header_type_def)

lemma upt_Suc_map: "[0..<Suc m] = 0 # map Suc [0..<m]"
  by (simp add: map_Suc_upt upt_conv_Cons)

lemma audio_pages_nth:
  "audio_pages k n fs =
     map (\<lambda>i. audio_page (k + min (10 * i + 10) (length fs)) (n + of_nat i) (take 10 (drop (10 * i) fs))
       (length fs < 10 * i + 10)) [0..<page_count fs]"
proof (induction k n fs rule: audio_pages.induct)
  case (1 k n fs)
  consider "fs = []" | "fs \<noteq> []" "length fs < 10" | "10 \<le> length fs" by linarith
  then show ?case
  proof cases
    case 1
    then show ?thesis by (subst audio_pages.simps) (simp add: page_count_def)
  next
    case 2
    then have "page_count fs = 1" by (cases fs) (simp_all add: page_count_def)
    with 2 show ?thesis by (subst audio_pages.simps) (simp add: framesPerPage_def)
  next
    case 3
    then have c: "page_count fs = Suc (page_count (drop 10 fs))"
      by (simp add: page_count_def div_add_self2 flip: le_add_diff_inverse)
    from 3 have "fs \<noteq> []" by auto
    with 3 "1.IH" have "audio_pages k n fs =
        audio_page (k + 10) n (take 10 fs) False # audio_pages (k + 10) (n + 1) (drop 10 fs)"
      and ih: "audio_pages (k + 10) (n + 1) (drop 10 fs) =
        map (\<lambda>i. audio_page (k + 10 + min (10 * i + 10) (length (drop 10 fs))) (n + 1 + of_nat i)
          (take 10 (drop (10 * i) (drop 10 fs))) (length (drop 10 fs) < 10 * i + 10))
          [0..<page_count (drop 10 fs)]"
      by (subst audio_pages.simps, simp_all add: framesPerPage_def)
    moreover have "10 + min (10 * i + 10) (length fs - 10) = min (10 * Suc i + 10) (length fs)"
      "length fs - 10 < 10 * i + 10 \<longleftrightarrow> length fs < 10 * Suc i + 10" for i
      using 3 by (simp, arith)
    ultimately show ?thesis
      using 3 unfolding c upt_Suc_map by (simp add: comp_def ac_simps)
  qed
qed


definition header_page :: "byte \<Rightarrow> 32 word \<Rightarrow> bytes \<Rightarrow> ogg_page" where
  "header_page h n p =
     \<lparr>pgHeaderType = h, pgGranule = 0, pgSerial = 0x57485052, pgSeqNo = n, pgPackets = [p]\<rparr>"

definition opus_pages :: "bytes list \<Rightarrow> ogg_page list" where
  "opus_pages frames =
     header_page 2 0 buildOpusHead # header_page 0 1 buildOpusTags
       # map (nth_page frames) [0..<page_count frames]"

lemma audio_pages_numbered: "audio_pages 0 2 fs = map (nth_page fs) [0..<page_count fs]"
  unfolding audio_pages_nth [of 0 2 fs]
  by (auto simp: audio_page_def nth_page_def header_types granule_at_def frameSize_tc_def not_le)

lemma write_rest_pages:
  assumes "serial w = 0x57485052" and "packetBuf w = []" and "pageSeqNo w = 2"
  shows "buf (write_rest fs 0 w) = buf w @ concat (map encode_page (map (nth_page fs) [0..<page_count fs]))"
  using write_frames_pages [of w 0 fs] assms
  by (simp add: granule_at_def framesPerPage_def audio_pages_numbered)

lemma encode_pages:
  assumes "frames \<noteq> []"
  shows "encodeFramesToOggOpus frames = Return (concat (map encode_page (opus_pages frames)))"
  using assms
  by (simp add: encodeFramesToOggOpus_def Let_def writePage_def writeOggPage_page newOggWriter_def
      header_types opus_pages_def header_page_def write_rest_pages flip: write_rest_def)

lemma opus_pages_fit:
  assumes "\<forall>f \<in> set frames. length f \<le> 4096" and "p \<in> set (opus_pages frames)"
  shows "fits (pgPackets p)"
proof (rule fits_page)
  show "length (pgPackets p) \<le> framesPerPage"
    using assms(2) by (auto simp: opus_pages_def header_page_def nth_page_def framesPerPage_def)
  have "length buildOpusHead \<le> 4096" "length buildOpusTags \<le> 4096"
    by (simp_all add: buildOpusHead_def buildOpusTags_def Let_def)
  then show "\<forall>f \<in> set (pgPackets p). length f \<le> 4096"
    using assms by (auto simp: opus_pages_def header_page_def nth_page_def dest!: in_set_takeD in_set_dropD)
qed

lemma pages_hold_all: "concat (map (\<lambda>i. take 10 (drop (10 * i) fs)) [0..<n]) = take (10 * n) fs"
proof (induction n)
  case (Suc n)
  have "take (10 * n + 10) fs = take (10 * n) fs @ take 10 (drop (10 * n) fs)"
    by (rule take_add)
  with Suc show ?case by (simp add: add.commute)
qed simp

lemma opus_pages_packets: "concat (map pgPackets (opus_pages frames)) = buildOpusHead # buildOpusTags # frames"
proof -
  have "length frames \<le> 10 * page_count frames" unfolding page_count_def by presburger
  then show ?thesis
    using pages_hold_all [of frames "page_count frames"]
    by (simp add: opus_pages_def header_page_def nth_page_def comp_def)
qed

section \<open>Properties\<close>

text \<open>
  C12. What the test client sends can be read back: of any frames of at most 4096 bytes (the size of
  the encoder's buffer), the container it writes is a sequence of valid Ogg pages that hold the two
  header packets and then exactly the frames in order, ten to a page, numbered from 0, the granule
  position counting the samples so far, and no segment table overflows its length byte.
\<close>

theorem container_reads_back:
  assumes "frames \<noteq> []" and "\<forall>f \<in> set frames. length f \<le> 4096"
  shows "\<exists>d. encodeFramesToOggOpus frames = Return d \<and> read_pages d = Some (opus_pages frames) \<and>
    concat (map pgPackets (opus_pages frames)) = buildOpusHead # buildOpusTags # frames"
  using assms(1) read_pages_encode [of "opus_pages frames"] opus_pages_fit [OF assms(2)]
  by (simp add: encode_pages opus_pages_packets)

theorem container_reads_back_witness:
  "\<exists>d. encodeFramesToOggOpus [[1, 2], [3]] = Return d \<and> read_pages d = Some (opus_pages [[1, 2], [3]]) \<and>
    concat (map pgPackets (opus_pages [[1, 2], [3]])) = [buildOpusHead, buildOpusTags, [1, 2], [3]]"
  by (rule container_reads_back) simp_all

text \<open>
  The end-of-stream flag: the last page carries it unless the number of frames is a multiple of
  ten. Then no page does, because \<open>flush\<close> has nothing left to write.
\<close>

theorem end_of_stream_flag:
  assumes "frames \<noteq> []" and "\<forall>f \<in> set frames. length f \<le> 4096"
  shows "\<exists>d ps p. encodeFramesToOggOpus frames = Return d \<and> read_pages d = Some (ps @ [p]) \<and>
    pgHeaderType p = (if 10 dvd length frames then 0 else 4) \<and>
    map pgHeaderType ps = 2 # replicate (page_count frames) 0"
proof -
  have "0 < length frames" using assms(1) by simp
  then have "page_count frames \<noteq> 0" unfolding page_count_def by presburger
  then obtain m where m: "page_count frames = Suc m" by (cases "page_count frames") auto
  let ?ps = "header_page 2 0 buildOpusHead # header_page 0 1 buildOpusTags # map (nth_page frames) [0..<m]"
  have bounds: "10 * m < length frames" "length frames \<le> 10 * m + 10"
    using m by (simp_all add: page_count_def)
  then have full: "10 * i + 10 \<le> length frames" if "i < m" for i using that by simp
  have "10 * m + 10 \<le> length frames \<longleftrightarrow> 10 dvd length frames" using bounds by presburger
  then have "pgHeaderType (nth_page frames m) = (if 10 dvd length frames then 0 else 4)"
    by (simp add: nth_page_def)
  moreover have "map pgHeaderType ?ps = 2 # replicate (page_count frames) 0"
    using full by (simp add: m header_page_def nth_page_def map_replicate_const list_eq_iff_nth_eq nth_Cons split: nat.split)
  moreover have "opus_pages frames = ?ps @ [nth_page frames m]" by (simp add: opus_pages_def m)
  ultimately show ?thesis
    using assms(1) read_pages_encode [of "opus_pages frames"] opus_pages_fit [OF assms(2)]
    by (metis encode_pages)
qed

theorem end_of_stream_flag_witness:
  "\<exists>d ps p. encodeFramesToOggOpus (replicate 10 [7]) = Return d \<and> read_pages d = Some (ps @ [p]) \<and>
    pgHeaderType p = 0 \<and> map pgHeaderType ps = [2, 0]"
  using end_of_stream_flag [of "replicate 10 [7]"] by (simp add: page_count_def)

end
