(* ===== verification/PcmOut.thy ===== *)
theory PcmOut
  imports Bytes
begin

text \<open>
  The playback loop that the emulator (\<open>audio.go\<close>) and the test client (\<open>main.go\<close>) share: samples
  are copied to the output buffer one full frame at a time, and each frame is written to the device.
\<close>

text \<open>
  \<open>werr k\<close> is the error of the \<open>k\<close>th write. The frames written, and the error that ended the loop.
  (The frame is a positive constant in both programs; with a frame of 0 the Go loop would not end.)
\<close>

function write_loop ::
  "nat \<Rightarrow> (nat \<Rightarrow> gostring option) \<Rightarrow> 'a list \<Rightarrow> nat \<Rightarrow> 'a list list \<times> gostring option" where
  "write_loop frame werr pcm i =
     (if 0 < frame \<and> i + frame \<le> length pcm then
        case werr (i div frame) of
          Some e \<Rightarrow> ([], Some e)
        | None \<Rightarrow>
            (case write_loop frame werr pcm (i + frame) of
               (fs, r) \<Rightarrow> (take frame (drop i pcm) # fs, r))
      else ([], None))"
  by pat_completeness auto
termination by (relation "measure (\<lambda>(frame, werr, pcm, i). length pcm - i)") auto

declare write_loop.simps [simp del]

text \<open>
  When no write fails, the frames together are the samples up to the last full frame; what is left
  over, less than a frame, is never written.
\<close>

lemma write_loop_all:
  assumes "0 < frame" and "werr = (\<lambda>k. None)" and "i \<le> length pcm"
  shows "snd (write_loop frame werr pcm i) = None \<and>
    concat (fst (write_loop frame werr pcm i)) = take (frame * ((length pcm - i) div frame)) (drop i pcm)"
  using assms
proof (induction frame werr pcm i rule: write_loop.induct)
  case (1 frame werr pcm i)
  show ?case
  proof (cases "i + frame \<le> length pcm")
    case True
    have w: "write_loop frame werr pcm i = (case write_loop frame werr pcm (i + frame) of
        (fs, r) \<Rightarrow> (take frame (drop i pcm) # fs, r))"
      using 1 True by (subst write_loop.simps) simp
    have d: "(length pcm - i) div frame = Suc ((length pcm - (i + frame)) div frame)"
      using True 1 div_add_self2 [of frame "length pcm - (i + frame)"] by simp
    have "snd (write_loop frame werr pcm (i + frame)) = None \<and>
        concat (fst (write_loop frame werr pcm (i + frame))) =
          take (frame * ((length pcm - (i + frame)) div frame)) (drop (i + frame) pcm)"
      using 1 True by simp
    then show ?thesis
      by (simp add: w d take_add add.commute case_prod_unfold)
  next
    case False
    then have "length pcm - i < frame" using "1.prems"(3) by arith
    then have "(length pcm - i) div frame = 0" by simp
    moreover have "write_loop frame werr pcm i = ([], None)"
      using False by (subst write_loop.simps) simp
    ultimately show ?thesis by simp
  qed
qed

end
