(* ===== verification/Terminal.thy ===== *)
theory Terminal
  imports GoFmt
begin

unbundle bit_operations_syntax

text \<open>
  The raw mode of the test client's terminal, \<open>app/radio-bridge-test-client/terminal.go\<close>. The bits of
  the flags are constants of the operating system's package and so parameters here; the two
  \<open>ioctl\<close> calls are a terminal that holds settings, and the errors they may return.
\<close>

record termios =
  Iflag :: "64 word"
  Oflag :: "64 word"
  Cflag :: "64 word"
  Lflag :: "64 word"
  Cc :: "byte list"

record unix_consts =
  IGNBRK :: "64 word"
  BRKINT :: "64 word"
  PARMRK :: "64 word"
  ISTRIP :: "64 word"
  INLCR :: "64 word"
  IGNCR :: "64 word"
  ICRNL :: "64 word"
  IXON :: "64 word"
  ECHO :: "64 word"
  ECHONL :: "64 word"
  ICANON :: "64 word"
  ISIG :: "64 word"
  IEXTEN :: "64 word"
  CSIZE :: "64 word"
  PARENB :: "64 word"
  CS8 :: "64 word"
  VMIN :: nat
  VTIME :: nat

definition input_bits :: "unix_consts \<Rightarrow> 64 word" where
  "input_bits u = IGNBRK u OR BRKINT u OR PARMRK u OR ISTRIP u OR INLCR u OR IGNCR u OR ICRNL u OR IXON u"

definition local_bits :: "unix_consts \<Rightarrow> 64 word" where
  "local_bits u = ECHO u OR ECHONL u OR ICANON u OR ISIG u OR IEXTEN u"

text \<open>The settings \<open>makeRaw\<close> writes, from those it has read.\<close>

definition raw_settings :: "unix_consts \<Rightarrow> termios \<Rightarrow> termios" where
  "raw_settings u t =
     (let t = t\<lparr>Iflag := Iflag t AND NOT (input_bits u)\<rparr>;
          t = t\<lparr>Lflag := Lflag t AND NOT (local_bits u)\<rparr>;
          t = t\<lparr>Cflag := Cflag t AND NOT (CSIZE u OR PARENB u)\<rparr>;
          t = t\<lparr>Cflag := Cflag t OR CS8 u\<rparr>
      in t\<lparr>Cc := (Cc t)[VMIN u := 1, VTIME u := 0]\<rparr>)"

text \<open>
  \<open>makeRaw\<close> on a terminal with settings \<open>t\<close>: the old settings or an error, and the terminal's
  settings afterwards. \<open>restoreTerminal\<close> ignores the error of its call.
\<close>

definition makeRaw ::
  "unix_consts \<Rightarrow> gostring option \<Rightarrow> gostring option \<Rightarrow> termios \<Rightarrow> termios go \<times> termios" where
  "makeRaw u getErr setErr t =
     (case getErr of
        Some e \<Rightarrow> (Error e, t)
      | None \<Rightarrow>
          (case setErr of
             Some e \<Rightarrow> (Error e, t)
           | None \<Rightarrow> (Return t, raw_settings u t)))"

definition restoreTerminal :: "gostring option \<Rightarrow> termios \<Rightarrow> termios \<Rightarrow> termios" where
  "restoreTerminal setErr old t = (case setErr of Some e \<Rightarrow> t | None \<Rightarrow> old)"

section \<open>Facts\<close>

text \<open>
  In raw mode none of the listed input and local bits is left, the character size is the one asked
  for and every other bit, and the output processing as a whole, is as before.
\<close>

lemma raw_bits:
  assumes "makeRaw u None None t = (Return old, t')"
  shows "Iflag t' AND input_bits u = 0" and "Lflag t' AND local_bits u = 0"
    and "Iflag t' OR (Iflag t AND input_bits u) = Iflag t"
    and "Lflag t' OR (Lflag t AND local_bits u) = Lflag t"
    and "Cflag t' AND CS8 u = CS8 u" and "Oflag t' = Oflag t"
  using assms
  by (auto simp: makeRaw_def raw_settings_def Let_def bit_eq_iff bit_simps)

text \<open>However the session ends, the deferred call gives the terminal back as it was.\<close>

theorem terminal_restored:
  assumes "makeRaw u getErr setErr t = (r, t')"
  shows "(case r of Return old \<Rightarrow> restoreTerminal None old t' | _ \<Rightarrow> t') = t"
  using assms by (auto simp: makeRaw_def restoreTerminal_def split: option.splits)

end
