(* ===== verification/TestClient.thy ===== *)
theory TestClient
  imports OggPage PcmOut Proto Terminal
begin

text \<open>
  The test client of the radio bridge, \<open>app/radio-bridge-test-client/main.go\<close>: the space bar starts
  and stops a recording, which is sent as one ONESHOT chunk; received chunks are played.

  The microphone, the Opus library, the terminal and the gRPC stream are outside: what their calls
  return are the arguments and events. Console output is left out.
\<close>

section \<open>Recording and sending\<close>

text \<open>
  The Opus encoder: \<open>Encode\<close> writes into a buffer of 4096 bytes, so it returns at most as many.
\<close>

type_synonym 'e opus_encode = "'e \<Rightarrow> 16 word list \<Rightarrow> (gostring + bytes) \<times> 'e"

text \<open>
  One turn of the loop's \<open>select\<close>: the context is done, a key event (with what \<open>Start\<close> of the
  microphone and \<open>Send\<close> of the stream return if they are called), or a tick (with what \<open>Read\<close>
  returns, or else the samples it leaves in the buffer).
\<close>

datatype tx_event =
    TxCtxDone gostring
  | TxKey "gostring option" "gostring option"
  | TxTick "gostring + 16 word list"

record 'e tx_state =
  txRecording :: bool
  txFrames :: "bytes list"
  txEncoder :: 'e
  txSent :: "AudioChunk list"

text \<open>\<open>copy(pcmCopy, in)\<close> into a fresh buffer of a frame's length.\<close>

definition copy_frame :: "16 word list \<Rightarrow> 16 word list" where
  "copy_frame s = take frameSize_tc (s @ replicate frameSize_tc 0)"

text \<open>The branch of a key event: the state after it, and the error that ends the function.\<close>

definition key_branch ::
  "gostring option \<Rightarrow> gostring option \<Rightarrow> 'e tx_state \<Rightarrow> 'e tx_state \<times> gostring option" where
  "key_branch startErr sendErr st =
     (if \<not> txRecording st then
        let st = st\<lparr>txRecording := True, txFrames := []\<rparr>
        in case startErr of
             Some e \<Rightarrow> (st\<lparr>txRecording := False\<rparr>, None)
           | None \<Rightarrow> (st, None)
      else
        let st = st\<lparr>txRecording := False\<rparr>
        in if length (txFrames st) = 0 then (st, None)
           else case encodeFramesToOggOpus (txFrames st) of
                  Return ogg \<Rightarrow>
                    (case sendErr of
                       Some e \<Rightarrow> (st, Some (''[send] stream send error: '' @ e))
                     | None \<Rightarrow>
                         (st\<lparr>txSent := txSent st @
                            [\<lparr>OggOpusData = ogg, ChunkStatus = ONESHOT, ChunkStreamId = ''''\<rparr>]\<rparr>, None))
                | _ \<Rightarrow> (st, None))"

definition tick_branch :: "'e opus_encode \<Rightarrow> gostring + 16 word list \<Rightarrow> 'e tx_state \<Rightarrow> 'e tx_state" where
  "tick_branch enc r st =
     (if \<not> txRecording st then st
      else case r of
             Inl e \<Rightarrow> st
           | Inr s \<Rightarrow>
               (case enc (txEncoder st) (copy_frame s) of
                  (Inl e, e') \<Rightarrow> st\<lparr>txEncoder := e'\<rparr>
                | (Inr b, e') \<Rightarrow> st\<lparr>txEncoder := e', txFrames := txFrames st @ [b]\<rparr>))"

text \<open>The loop; \<open>None\<close> while it waits for more events.\<close>

fun tx_loop :: "'e opus_encode \<Rightarrow> tx_event list \<Rightarrow> 'e tx_state \<Rightarrow> unit go option \<times> 'e tx_state" where
  "tx_loop enc [] st = (None, st)"
| "tx_loop enc (TxCtxDone e # evs) st = (Some (Error e), st)"
| "tx_loop enc (TxKey startErr sendErr # evs) st =
     (case key_branch startErr sendErr st of
        (st', Some e) \<Rightarrow> (Some (Error e), st')
      | (st', None) \<Rightarrow> tx_loop enc evs st')"
| "tx_loop enc (TxTick r # evs) st = tx_loop enc evs (tick_branch enc r st)"

text \<open>\<open>recordAndSend\<close>: the set-up steps, each of which may fail, then the loop.\<close>

definition recordAndSend ::
  "gostring option \<Rightarrow> gostring + 'e \<Rightarrow> gostring option \<Rightarrow> 'e opus_encode \<Rightarrow> tx_event list
     \<Rightarrow> unit go option \<times> AudioChunk list" where
  "recordAndSend rawErr newEnc openErr enc evs =
     (case rawErr of
        Some e \<Rightarrow> (Some (Error (''makeRaw: '' @ e)), [])
      | None \<Rightarrow>
          (case newEnc of
             Inl e \<Rightarrow> (Some (Error (''opus encoder: '' @ e)), [])
           | Inr e0 \<Rightarrow>
               (case openErr of
                  Some e \<Rightarrow> (Some (Error (''portaudio input: '' @ e)), [])
                | None \<Rightarrow>
                    (case tx_loop enc evs
                       \<lparr>txRecording = False, txFrames = [], txEncoder = e0, txSent = []\<rparr> of
                       (r, st) \<Rightarrow> (r, txSent st)))))"

section \<open>Keys\<close>

text \<open>
  \<open>readKeys\<close>: each turn reads a byte (or none, and returns) while \<open>keyEvent\<close>, a channel of capacity
  4, holds some events. A space is sent without blocking; Ctrl+C cancels and returns. The events
  now in the channel, whether the context is cancelled and whether the goroutine has returned.
\<close>

definition keyEventCap :: nat where
  "keyEventCap = 4"

definition read_key :: "byte option \<Rightarrow> nat \<Rightarrow> nat \<times> bool \<times> bool" where
  "read_key b n =
     (case b of
        None \<Rightarrow> (n, False, True)
      | Some c \<Rightarrow>
          if c = 0x20 then (if n < keyEventCap then n + 1 else n, False, False)
          else if c = 0x03 then (n, True, True)
          else (n, False, False))"

section \<open>Receiving and playing\<close>

text \<open>
  What \<open>stream.Recv()\<close> returns, with whether the context has an error by then. Each chunk's bytes go
  to a playback goroutine of their own, whatever the chunk's status and stream.
\<close>

datatype tc_recv = TcChunk AudioChunk | TcEOF | TcError gostring

fun receiveAndPlay :: "(tc_recv \<times> bool) list \<Rightarrow> bytes list" where
  "receiveAndPlay [] = []"
| "receiveAndPlay ((r, ctxErr) # evs) =
     (if r = TcEOF \<or> ctxErr then []
      else case r of
             TcError e \<Rightarrow> []
           | TcChunk c \<Rightarrow> OggOpusData c # receiveAndPlay evs
           | TcEOF \<Rightarrow> [])"

text \<open>
  Decoding with the library's stream: each \<open>Read\<close> returns samples together with \<open>nil\<close>, \<open>io.EOF\<close> or
  an error. \<open>None\<close> when the reads given end without one.
\<close>

datatype read_end = ReadMore | ReadEOF | ReadFail gostring

fun decode_loop :: "(16 word list \<times> read_end) list \<Rightarrow> 16 word list \<Rightarrow> 16 word list go option" where
  "decode_loop [] pcm = None"
| "decode_loop ((s, e) # rs) pcm =
     (let pcm = (if length s > 0 then pcm @ s else pcm)
      in case e of
           ReadEOF \<Rightarrow> Some (Return pcm)
         | ReadFail msg \<Rightarrow> Some (Error msg)
         | ReadMore \<Rightarrow> decode_loop rs pcm)"

definition decodeOggOpus_tc ::
  "gostring option \<Rightarrow> (16 word list \<times> read_end) list \<Rightarrow> 16 word list go option" where
  "decodeOggOpus_tc newErr rs =
     (case newErr of
        Some e \<Rightarrow> Some (Error (''opus.NewStream: '' @ e))
      | None \<Rightarrow> decode_loop rs [])"

text \<open>
  Playing what was decoded: the frames written to the device, none when something fails before.
\<close>

definition playOggOpus_tc ::
  "16 word list go \<Rightarrow> gostring option \<Rightarrow> gostring option \<Rightarrow> (nat \<Rightarrow> gostring option) \<Rightarrow> 16 word list list" where
  "playOggOpus_tc decoded openErr startErr werr =
     (case decoded of
        Return pcmData \<Rightarrow>
          if length pcmData = 0 then []
          else (case openErr of
                  Some e \<Rightarrow> []
                | None \<Rightarrow>
                    (case startErr of
                       Some e \<Rightarrow> []
                     | None \<Rightarrow> fst (write_loop frameSize_tc werr pcmData 0)))
      | _ \<Rightarrow> [])"


section \<open>Facts\<close>

text \<open>The frames a sequence of ticks adds while recording: those that were read and encoded.\<close>

fun captured :: "'e opus_encode \<Rightarrow> 'e \<Rightarrow> (gostring + 16 word list) list \<Rightarrow> bytes list \<times> 'e" where
  "captured enc e [] = ([], e)"
| "captured enc e (Inl msg # rs) = captured enc e rs"
| "captured enc e (Inr s # rs) =
     (case enc e (copy_frame s) of
        (Inl msg, e') \<Rightarrow> captured enc e' rs
      | (Inr b, e') \<Rightarrow> (case captured enc e' rs of (fs, e'') \<Rightarrow> (b # fs, e'')))"

lemma ticks_idle:
  "\<not> txRecording st \<Longrightarrow> tx_loop enc (map TxTick rs @ evs) st = tx_loop enc evs st"
  by (induction rs) (simp_all add: tick_branch_def)

lemma ticks_recording:
  "txRecording st \<Longrightarrow> captured enc (txEncoder st) rs = (fs, e') \<Longrightarrow>
   tx_loop enc (map TxTick rs @ evs) st =
     tx_loop enc evs (st\<lparr>txFrames := txFrames st @ fs, txEncoder := e'\<rparr>)"
proof (induction rs arbitrary: st fs)
  case (Cons r rs)
  show ?case
  proof (cases r)
    case (Inl m)
    with Cons show ?thesis by (simp add: tick_branch_def)
  next
    case (Inr s)
    obtain x e1 where enc: "enc (txEncoder st) (copy_frame s) = (x, e1)" by fastforce
    show ?thesis
    proof (cases x)
      case Inl
      with Cons Inr enc show ?thesis by (simp add: tick_branch_def)
    next
      case (Inr b)
      obtain fs' where "captured enc e1 rs = (fs', e')" and "fs = b # fs'"
        using Cons.prems Inr \<open>r = Inr s\<close> enc by (auto split: prod.splits)
      with Cons.IH [of "st\<lparr>txEncoder := e1, txFrames := txFrames st @ [b]\<rparr>" fs'] Cons.prems
        Inr \<open>r = Inr s\<close> enc
      show ?thesis by (simp add: tick_branch_def)
    qed
  qed
next
  case Nil
  then show ?case by (cases st) simp
qed

text \<open>
  A take: ticks while nothing is recorded, the space bar, the ticks of the recording, the space bar
  again. The frames of each of a sequence of takes.
\<close>

type_synonym take = "(gostring + 16 word list) list \<times> (gostring + 16 word list) list"

definition take_events :: "take \<Rightarrow> tx_event list" where
  "take_events = (\<lambda>(idle, rec). map TxTick idle @ [TxKey None None] @ map TxTick rec @ [TxKey None None])"

fun take_frames :: "'e opus_encode \<Rightarrow> 'e \<Rightarrow> take list \<Rightarrow> bytes list list" where
  "take_frames enc e [] = []"
| "take_frames enc e ((idle, rec) # ts) =
     (case captured enc e rec of (fs, e') \<Rightarrow> fs # take_frames enc e' ts)"

definition sent_take :: "bytes list \<Rightarrow> AudioChunk" where
  "sent_take fs =
     \<lparr>OggOpusData = concat (map encode_page (opus_pages fs)), ChunkStatus = ONESHOT, ChunkStreamId = ''''\<rparr>"

lemma one_take:
  assumes "\<not> txRecording st" and "captured enc (txEncoder st) rec = (fs, e')"
  shows "tx_loop enc (take_events (idle, rec) @ evs) st = tx_loop enc evs
    (st\<lparr>txFrames := fs, txEncoder := e',
        txSent := txSent st @ (if fs = [] then [] else [sent_take fs])\<rparr>)"
proof -
  let ?on = "st\<lparr>txRecording := True, txFrames := []\<rparr>"
  have key: "key_branch None None st = (?on, None)"
    using assms(1) by (simp add: key_branch_def Let_def)
  have rec: "tx_loop enc (map TxTick rec @ TxKey None None # evs) ?on =
      tx_loop enc (TxKey None None # evs) (?on\<lparr>txFrames := fs, txEncoder := e'\<rparr>)"
    using ticks_recording [of ?on enc rec fs e' "TxKey None None # evs"] assms(2) by simp
  show ?thesis
    using assms(1) key rec
    by (cases st) (simp add: take_events_def ticks_idle key_branch_def encode_pages sent_take_def Let_def)
qed

lemma all_takes:
  "\<not> txRecording st \<Longrightarrow>
   \<exists>st'. tx_loop enc (concat (map take_events ts)) st = (None, st') \<and>
     txSent st' = txSent st @ map sent_take (filter (\<lambda>fs. fs \<noteq> []) (take_frames enc (txEncoder st) ts))"
proof (induction ts arbitrary: st)
  case (Cons t ts)
  obtain idle rec where t: "t = (idle, rec)" by fastforce
  obtain fs e' where c: "captured enc (txEncoder st) rec = (fs, e')" by fastforce
  let ?st = "st\<lparr>txFrames := fs, txEncoder := e',
      txSent := txSent st @ (if fs = [] then [] else [sent_take fs])\<rparr>"
  have "tx_loop enc (concat (map take_events (t # ts))) st = tx_loop enc (concat (map take_events ts)) ?st"
    using one_take [OF Cons.prems c] by (simp add: t)
  with Cons.IH [of ?st] Cons.prems show ?case by (auto simp: t c)
qed simp

definition buffer_4096 :: "'e opus_encode \<Rightarrow> bool" where
  "buffer_4096 enc \<longleftrightarrow> (\<forall>e s b e'. enc e s = (Inr b, e') \<longrightarrow> length b \<le> 4096)"

lemma captured_sizes:
  "buffer_4096 enc \<Longrightarrow> captured enc e rs = (fs, e') \<Longrightarrow> f \<in> set fs \<Longrightarrow> length f \<le> 4096"
proof (induction enc e rs arbitrary: fs rule: captured.induct)
  case (3 enc e s rs)
  then have "length b \<le> 4096" if "enc e (copy_frame s) = (Inr b, e1)" for b e1
    using that by (metis buffer_4096_def)
  with 3 show ?case by (auto split: prod.splits sum.splits)
qed auto

lemma take_frames_sizes:
  "buffer_4096 enc \<Longrightarrow> fs \<in> set (take_frames enc e ts) \<Longrightarrow> f \<in> set fs \<Longrightarrow> length f \<le> 4096"
proof (induction ts arbitrary: e)
  case (Cons t ts)
  obtain idle rec where t: "t = (idle, rec)" by fastforce
  obtain gs e' where c: "captured enc e rec = (gs, e')" by fastforce
  with Cons t captured_sizes [OF Cons.prems(1) c] show ?case by auto
qed simp

lemma recordAndSend_takes:
  "recordAndSend None (Inr e0) None enc (concat (map take_events ts)) =
     (None, map sent_take (filter (\<lambda>fs. fs \<noteq> []) (take_frames enc e0 ts)))"
  using all_takes [of "\<lparr>txRecording = False, txFrames = [], txEncoder = e0, txSent = []\<rparr>" enc ts]
  by (auto simp: recordAndSend_def)

lemma take_reads:
  assumes "buffer_4096 enc" and "fs \<in> set (take_frames enc e ts)"
  shows "read_pages (concat (map encode_page (opus_pages fs))) = Some (opus_pages fs)"
  using take_frames_sizes [OF assms] read_pages_encode [of "opus_pages fs"] opus_pages_fit [of fs]
  by simp

section \<open>Properties\<close>

text \<open>
  What is spoken between two presses of the space bar is what is sent: for any sequence of takes,
  with ticks in between and reads and encodings that may fail, the client sends one ONESHOT chunk
  per take that captured something, in order, and each chunk reads back as the Ogg pages of exactly
  the frames of its take.
\<close>

theorem takes_sent:
  assumes "buffer_4096 enc"
  shows "\<exists>chunks. recordAndSend None (Inr e0) None enc (concat (map take_events ts)) = (None, chunks) \<and>
    map (\<lambda>c. (ChunkStatus c, ChunkStreamId c, read_pages (OggOpusData c))) chunks =
      map (\<lambda>fs. (ONESHOT, '''', Some (opus_pages fs))) (filter (\<lambda>fs. fs \<noteq> []) (take_frames enc e0 ts))"
  using take_reads [OF assms] by (auto simp: recordAndSend_takes) (auto simp: sent_take_def)

definition demo_encode :: "nat opus_encode" where
  "demo_encode n s = (if n = 1 then Inl ''fail'' else Inr [of_nat n], n + 1)"

theorem takes_sent_witness:
  "\<exists>chunks. recordAndSend None (Inr 0) None demo_encode
      (concat (map take_events [([Inr []], [Inr [], Inl ''x'', Inr [], Inr []]), ([], []), ([], [Inr []])]))
      = (None, chunks) \<and>
    map (\<lambda>c. (ChunkStatus c, ChunkStreamId c, read_pages (OggOpusData c))) chunks =
      [(ONESHOT, '''', Some (opus_pages [[0], [2]])), (ONESHOT, '''', Some (opus_pages [[3]]))]"
  using takes_sent [of demo_encode 0
      "[([Inr []], [Inr [], Inl ''x'', Inr [], Inr []]), ([], []), ([], [Inr []])]"]
  by (simp add: buffer_4096_def demo_encode_def)


section \<open>The program\<close>

text \<open>
  \<open>main\<close>: the arguments, then the steps that are fatal when they fail (the client, the stream, the
  sound device), then \<open>recordAndSend\<close>, whose error is only printed. The address dialled, and the
  outcome and the chunks sent. \<open>receiveAndPlay\<close> runs beside it.
\<close>

definition tc_main ::
  "gostring list \<Rightarrow> (gostring \<Rightarrow> gostring option) \<Rightarrow> gostring option \<Rightarrow> gostring option
     \<Rightarrow> gostring option \<Rightarrow> gostring + 'e \<Rightarrow> gostring option \<Rightarrow> 'e opus_encode \<Rightarrow> tx_event list
     \<Rightarrow> (gostring \<times> unit go option \<times> AudioChunk list) go" where
  "tc_main args newClientErr connectErr paErr rawErr newEnc openErr enc evs =
     (if length args < 3 then Error ''usage''
      else
        let addr = args ! 1 @ '':'' @ args ! 2
        in case newClientErr addr of
             Some e \<Rightarrow> Error (''failed to connect: '' @ e)
           | None \<Rightarrow>
               (case connectErr of
                  Some e \<Rightarrow> Error (''failed to connect stream: '' @ e)
                | None \<Rightarrow>
                    (case paErr of
                       Some e \<Rightarrow> Error (''portaudio init: '' @ e)
                     | None \<Rightarrow> Return (addr, recordAndSend rawErr newEnc openErr enc evs))))"

end
