(* ===== verification/EmuLevel.thy ===== *)
theory EmuLevel
  imports Bytes Complex_Main "HOL-Library.Signed_Division"
begin

text \<open>
  The sample arithmetic of the emulator's \<open>audio.go\<close>: halving the sample rate of the microphone's
  input, doubling it for the speaker, and the level (root mean square) of a frame.

  \<open>computeRMS\<close> is written with integers here. The code computes in \<open>float64\<close>; that version is
  \<open>computeRMS_float\<close>, over any rounding function with the properties of IEEE 754 double precision,
  and the equivalence theorem is the licence for the integers.
\<close>

definition alsaSampleRate :: nat where
  "alsaSampleRate = 48000"

definition opusSampleRate :: nat where
  "opusSampleRate = 24000"

definition alsaFrameSize :: nat where
  "alsaFrameSize = 960"

definition opusFrameSize :: nat where
  "opusFrameSize = 480"

section \<open>Resampling\<close>

definition average :: "16 word \<Rightarrow> 16 word \<Rightarrow> 16 word" where
  "average a b = word_of_int (sint (scast a + scast b :: 32 word) sdiv 2)"

text \<open>\<open>copy(pcm48, in)\<close> into a fresh frame, then one sample for every two.\<close>

definition downsample :: "16 word list \<Rightarrow> 16 word list" where
  "downsample input =
     (let pcm48 = take alsaFrameSize (input @ replicate alsaFrameSize 0)
      in map (\<lambda>i. average (pcm48 ! (i * 2)) (pcm48 ! (i * 2 + 1))) [0..<opusFrameSize])"

definition upsample :: "16 word list \<Rightarrow> 16 word list" where
  "upsample pcm = concat (map (\<lambda>s. [s, s]) pcm)"

section \<open>The level of a frame\<close>

text \<open>The greatest number whose square is at most \<open>n\<close>, by halving the interval.\<close>

function isqrt_loop :: "nat \<Rightarrow> nat \<Rightarrow> nat \<Rightarrow> nat" where
  "isqrt_loop n lo hi =
     (if hi \<le> lo + 1 then lo
      else let mid = (lo + hi) div 2
           in if mid * mid \<le> n then isqrt_loop n mid hi else isqrt_loop n lo mid)"
  by pat_completeness auto
termination by (relation "measure (\<lambda>(n, lo, hi). hi - lo)") auto

declare isqrt_loop.simps [simp del]

definition isqrt :: "nat \<Rightarrow> nat" where
  "isqrt n = isqrt_loop n 0 (n + 1)"

definition sum_squares :: "16 word list \<Rightarrow> int" where
  "sum_squares samples = sum_list (map (\<lambda>s. sint s * sint s) samples)"

definition computeRMS :: "16 word list \<Rightarrow> 16 word" where
  "computeRMS samples =
     (if length samples = 0 then 0
      else of_nat (min 65535 (isqrt (nat (sum_squares samples) div length samples))))"

text \<open>The code's version: every operation on \<open>float64\<close> is the exact one, rounded.\<close>

definition computeRMS_float :: "(real \<Rightarrow> real) \<Rightarrow> 16 word list \<Rightarrow> 16 word" where
  "computeRMS_float rnd samples =
     (if length samples = 0 then 0
      else
        let sumSq = foldl (\<lambda>acc s. rnd (acc + rnd (of_int (sint s) * of_int (sint s)))) 0 samples;
            rms = rnd (sqrt (rnd (sumSq / real (length samples))))
        in if rms > 65535 then 65535 else of_nat (nat \<lfloor>rms\<rfloor>))"

text \<open>
  What IEEE 754 binary64 rounding to nearest guarantees and the proof uses: it is monotone, exact on
  integers up to \<open>2 ^ 53\<close>, and off by at most one part in \<open>2 ^ 53\<close> on the normal range.
\<close>

definition binary64 :: "(real \<Rightarrow> real) \<Rightarrow> bool" where
  "binary64 rnd \<longleftrightarrow> mono rnd \<and> (\<forall>n. \<bar>n\<bar> \<le> 2 ^ 53 \<longrightarrow> rnd (of_int n) = of_int n) \<and>
     (\<forall>x. 1 / 2 ^ 1022 \<le> x \<and> x \<le> 2 ^ 1023 \<longrightarrow> \<bar>rnd x - x\<bar> \<le> x / 2 ^ 53)"

section \<open>Facts\<close>

lemma isqrt_loop_bounds:
  "lo * lo \<le> n \<Longrightarrow> n < hi * hi \<Longrightarrow>
   isqrt_loop n lo hi * isqrt_loop n lo hi \<le> n \<and> n < Suc (isqrt_loop n lo hi) * Suc (isqrt_loop n lo hi)"
proof (induction n lo hi rule: isqrt_loop.induct)
  case (1 n lo hi)
  show ?case
  proof (cases "hi \<le> lo + 1")
    case True
    then have "hi * hi \<le> Suc lo * Suc lo" by (intro mult_le_mono) simp_all
    with 1 True show ?thesis by (subst (1 2 3 4) isqrt_loop.simps) simp
  next
    case False
    let ?mid = "(lo + hi) div 2"
    have r: "isqrt_loop n lo hi = (if ?mid * ?mid \<le> n then isqrt_loop n ?mid hi else isqrt_loop n lo ?mid)"
      using False by (subst isqrt_loop.simps) (simp add: Let_def)
    show ?thesis
    proof (cases "?mid * ?mid \<le> n")
      case True
      with "1.IH"(1) [OF False refl True] "1.prems" show ?thesis by (simp only: r if_True)
    next
      case nle: False
      then have "n < ?mid * ?mid" by simp
      with "1.IH"(2) [OF False refl nle] "1.prems" nle show ?thesis by (simp only: r if_False)
    qed
  qed
qed

lemma isqrt_bounds: "isqrt n * isqrt n \<le> n" "n < Suc (isqrt n) * Suc (isqrt n)"
  using isqrt_loop_bounds [of 0 n "n + 1"] by (simp_all add: isqrt_def)

lemma isqrt_le: "n \<le> m * m \<Longrightarrow> isqrt n \<le> m"
proof (rule ccontr)
  assume "n \<le> m * m" and "\<not> isqrt n \<le> m"
  then have "Suc m * Suc m \<le> isqrt n * isqrt n" by (intro mult_le_mono) simp_all
  with isqrt_bounds(1) [of n] \<open>n \<le> m * m\<close> show False by simp
qed

lemma sint16_bounds: "- 32768 \<le> sint (s :: 16 word)" "sint s < 32768"
  using sint_ge [of s] sint_lt [of s] by simp_all


lemma average_exact: "sint (average a b) = (sint a + sint b) sdiv 2"
proof -
  have s: "sint (scast a + scast b :: 32 word) = sint a + sint b"
    using sint16_bounds [of a] sint16_bounds [of b]
    by (simp add: signed_scast_eq sint_word_ariths signed_take_bit_int_eq_self)
  have "- 32768 \<le> (sint a + sint b) sdiv 2" "(sint a + sint b) sdiv 2 < 32768"
    using sint16_bounds [of a] sint16_bounds [of b]
    by (auto simp: signed_divide_int_def sgn_if)
  then show ?thesis by (simp add: average_def s sint_sbintrunc' signed_take_bit_int_eq_self)
qed

lemma length_downsample [simp]: "length (downsample s) = opusFrameSize"
  by (simp add: downsample_def Let_def)

lemma upsample_simps [simp]: "upsample [] = []" "upsample (s # ss) = s # s # upsample ss"
  by (simp_all add: upsample_def)

lemma length_upsample [simp]: "length (upsample pcm) = 2 * length pcm"
  by (induction pcm) simp_all

lemma square_bound: "0 \<le> sint (s :: 16 word) * sint s" "sint s * sint s \<le> 2 ^ 30"
proof -
  have "\<bar>sint s\<bar> \<le> 2 ^ 15" using sint16_bounds [of s] by simp
  then have "\<bar>sint s\<bar> * \<bar>sint s\<bar> \<le> 2 ^ 15 * 2 ^ 15" by (intro mult_mono) simp_all
  then show "sint s * sint s \<le> 2 ^ 30" by (simp flip: abs_mult)
qed simp

lemma sum_squares_bounds: "0 \<le> sum_squares ss" "sum_squares ss \<le> int (length ss) * 2 ^ 30"
proof (induction ss)
  case (Cons s ss)
  { case 1 show ?case using Cons square_bound(1) [of s] by (simp add: sum_squares_def) }
  { case 2 show ?case using Cons square_bound(2) [of s] by (simp add: sum_squares_def) }
qed (simp_all add: sum_squares_def)

text \<open>Summing in \<open>float64\<close> is exact: squares and partial sums are integers below \<open>2 ^ 53\<close>.\<close>

lemma float_sum_exact:
  assumes "binary64 rnd"
  shows "0 \<le> n \<Longrightarrow> n + int (length ss) * 2 ^ 30 \<le> 2 ^ 53 \<Longrightarrow>
    foldl (\<lambda>acc s. rnd (acc + rnd (of_int (sint s) * of_int (sint s)))) (of_int n) ss
      = (of_int (n + sum_squares ss) :: real)"
proof (induction ss arbitrary: n)
  case Nil
  then show ?case by (simp add: sum_squares_def)
next
  case (Cons s ss)
  let ?q = "sint s * sint s"
  have ex: "rnd (of_int m) = of_int m" if "\<bar>m\<bar> \<le> 2 ^ 53" for m
    using assms that by (simp add: binary64_def)
  note q = square_bound [of s]
  have bound: "n + ?q + int (length ss) * 2 ^ 30 \<le> 2 ^ 53" using Cons.prems q by simp
  have "rnd (of_int (sint s) * of_int (sint s)) = of_int ?q"
    using ex [of ?q] q by simp
  moreover have "rnd (of_int n + of_int ?q) = of_int (n + ?q)"
    using ex [of "n + ?q"] q Cons.prems by simp
  moreover have "foldl (\<lambda>acc s. rnd (acc + rnd (of_int (sint s) * of_int (sint s)))) (of_int (n + ?q)) ss
      = (of_int (n + ?q + sum_squares ss) :: real)"
    using Cons.prems q bound by (intro Cons.IH) simp_all
  ultimately show ?case by (simp add: sum_squares_def add.assoc)
qed


text \<open>
  The square root as a real number lies between the integer root and the next integer, and keeps
  so much distance from the latter that rounding twice does not bridge it.
\<close>

lemma root_of_quotient:
  fixes S n :: nat
  assumes "0 < n" and "S \<le> n * 2 ^ 30"
  defines "r \<equiv> isqrt (S div n)" and "x \<equiv> real S / real n"
  shows "r \<le> 32768" and "real r ^ 2 \<le> x" and "x \<le> real (Suc r) ^ 2 - 1 / real n"
proof -
  have "S div n \<le> 2 ^ 30" using assms(1,2) by (metis div_le_mono nonzero_mult_div_cancel_left less_not_refl)
  then show "r \<le> 32768" unfolding r_def by (intro isqrt_le) simp
  have b: "r * r \<le> S div n" "S div n < Suc r * Suc r" unfolding r_def by (rule isqrt_bounds)+
  have "n * (r * r) \<le> S"
    using b(1) assms(1) by (metis div_times_less_eq_dividend le_trans mult.commute mult_le_mono2)
  then have "real n * real r ^ 2 \<le> real S" by (simp add: power2_eq_square flip: of_nat_mult)
  then show "real r ^ 2 \<le> x" using assms(1) by (simp add: x_def field_simps)
  have "S < n * (Suc r * Suc r)"
    using b(2) assms(1) by (metis div_less_iff_less_mult mult.commute)
  then have "real (Suc S) \<le> real (n * (Suc r * Suc r))" by (simp only: of_nat_le_iff Suc_le_eq)
  then have "real S + 1 \<le> real n * real (Suc r) ^ 2" by (simp add: power2_eq_square algebra_simps)
  then show "x \<le> real (Suc r) ^ 2 - 1 / real n"
    using assms(1) by (simp add: x_def field_simps)
qed

lemma rounding_gap:
  fixes A u d :: real
  assumes "0 < d" and "A \<le> 2 ^ 31" and "1 / 2 ^ 20 \<le> d" and "0 \<le> x" and "x \<le> A - d"
    and "u = 1 / 2 ^ 53"
  shows "x * (1 + u) ^ 3 < A"
proof -
  have u: "0 < u" "u \<le> 1 / 8" by (simp_all add: assms(6))
  have "u * u \<le> u * (1 / 8)" using u by (intro mult_left_mono) simp_all
  moreover from this have "u * u * u \<le> u * (1 / 8) * u" using u by (intro mult_right_mono) simp_all
  moreover have "(1 + u) ^ 3 = 1 + 3 * u + 3 * (u * u) + u * u * u"
    by (simp add: power3_eq_cube algebra_simps)
  ultimately have c: "(1 + u) ^ 3 \<le> 1 + 4 * u" using u by linarith
  have "x * (1 + u) ^ 3 \<le> (A - d) * (1 + 4 * u)"
    using c assms(4,5) u by (intro mult_mono) simp_all
  also have "\<dots> = A + (A * (4 * u) - d) - d * (4 * u)" by (simp add: algebra_simps)
  also have "\<dots> < A"
  proof -
    have "A * (4 * u) \<le> 2 ^ 31 * (4 * u)" using assms(2) u by (intro mult_right_mono) simp_all
    also have "\<dots> = 1 / 2 ^ 20" by (simp add: assms(6))
    finally have "A * (4 * u) \<le> d" using assms(3) by simp
    moreover have "0 < d * (4 * u)" using assms(1) u by simp
    ultimately show ?thesis by linarith
  qed
  finally show ?thesis .
qed

lemma relative_error:
  fixes y a u :: real
  assumes "\<bar>y - a\<bar> \<le> a * u"
  shows "y \<le> a * (1 + u) \<and> a * (1 - u) \<le> y"
  using assms by (auto simp: algebra_simps abs_le_iff)

lemma rounded_root:
  fixes rnd n r and x :: real
  assumes rnd: "binary64 rnd" and n: "0 < n" "n \<le> (2 :: nat) ^ 20" and r: "r \<le> (32768 :: nat)"
    and lo: "real r ^ 2 \<le> x" and hi: "x \<le> real (Suc r) ^ 2 - 1 / real n"
    and x: "x = 0 \<or> 1 / real n \<le> x"
  shows "real r \<le> rnd (sqrt (rnd x)) \<and> rnd (sqrt (rnd x)) < real r + 1"
proof -
  let ?u = "1 / 2 ^ 53 :: real"
  have mono: "a \<le> b \<Longrightarrow> rnd a \<le> rnd b" for a b using rnd by (auto simp: binary64_def mono_def)
  have ex: "rnd (of_int m) = of_int m" if "\<bar>m\<bar> \<le> 2 ^ 53" for m
    using rnd that by (simp add: binary64_def)
  have rel: "rnd a \<le> a * (1 + ?u) \<and> a * (1 - ?u) \<le> rnd a" if "1 / 2 ^ 1022 \<le> a" "a \<le> 2 ^ 1023" for a
  proof (rule relative_error)
    have "\<bar>rnd a - a\<bar> \<le> a / 2 ^ 53" using rnd that unfolding binary64_def by blast
    then show "\<bar>rnd a - a\<bar> \<le> a * ?u" by simp
  qed
  have "r * r \<le> 32768 * 32768" using r by (intro mult_le_mono) simp_all
  then have "int (r * r) \<le> int (32768 * 32768)" by (simp only: of_nat_le_iff)
  then have "\<bar>int (r * r)\<bar> \<le> 2 ^ 53" by simp
  from ex [OF this] have "rnd (real r ^ 2) = real r ^ 2" by (simp add: power2_eq_square)
  with mono [OF lo] have y: "real r ^ 2 \<le> rnd x" by simp
  then have "real r \<le> sqrt (rnd x)" by (rule real_le_rsqrt)
  then have low: "real r \<le> rnd (sqrt (rnd x))"
    using mono [of "real r" "sqrt (rnd x)"] ex [of "int r"] r by simp
  have "rnd (sqrt (rnd x)) < real r + 1"
  proof (cases "x = 0")
    case True
    then show ?thesis using ex [of 0] by simp
  next
    case False
    then have x1: "1 / real n \<le> x" using x by simp
    have n20: "1 / 2 ^ 20 \<le> 1 / real n"
      using n by (intro divide_left_mono) (simp_all add: of_nat_le_iff [symmetric] del: of_nat_le_iff)
    have A: "real (Suc r) ^ 2 \<le> 2 ^ 31"
    proof -
      have "real (Suc r) ^ 2 \<le> 32769 ^ 2" using r by (intro power_mono) simp_all
      then show ?thesis by simp
    qed
    have x0: "1 / 2 ^ 20 \<le> x" "x \<le> 2 ^ 31"
    proof -
      show "1 / 2 ^ 20 \<le> x" by (rule order_trans [OF n20 x1])
      have "0 \<le> 1 / real n" by simp
      with hi have "x \<le> real (Suc r) ^ 2" by linarith
      then show "x \<le> 2 ^ 31" using A by (rule order_trans)
    qed
    have y1: "rnd x \<le> x * (1 + ?u)" "x * (1 - ?u) \<le> rnd x"
      using rel [of x] x0 by (auto intro: order_trans)
    have "x * (1 / 2) \<le> x * (1 - ?u)" using x0 by (intro mult_left_mono) simp_all
    then have y0: "1 / 2 ^ 21 \<le> rnd x" using x0 y1(2) by simp
    have ypos: "0 < rnd x" using y0 by (rule less_le_trans [rotated]) simp
    have s0: "1 / 2 ^ 21 \<le> sqrt (rnd x)"
    proof (rule real_le_rsqrt)
      have "(1 / 2 ^ 21 :: real) ^ 2 \<le> 1 / 2 ^ 21"
        by (simp add: power2_eq_square)
      with y0 show "(1 / 2 ^ 21) ^ 2 \<le> rnd x" by linarith
    qed
    have "rnd x \<le> 2 ^ 31 * 2" using y1(1) x0(2) mult_mono [of x "2 ^ 31" "1 + ?u" 2] x0(1) by simp
    then have "sqrt (rnd x) \<le> 2 ^ 31 * 2"
      using ypos real_sqrt_le_mono [of "rnd x" "(2 ^ 31 * 2) ^ 2"] by simp
    then have z: "rnd (sqrt (rnd x)) \<le> sqrt (rnd x) * (1 + ?u)"
      using rel [of "sqrt (rnd x)"] s0 by (auto intro: order_trans)
    have zpos: "0 \<le> rnd (sqrt (rnd x))" using low by (rule order_trans [rotated]) simp
    have "rnd (sqrt (rnd x)) ^ 2 \<le> (sqrt (rnd x) * (1 + ?u)) ^ 2"
      using z zpos by (intro power_mono)
    also have "\<dots> = rnd x * (1 + ?u) ^ 2" using ypos by (simp only: power_mult_distrib real_sqrt_pow2 [OF less_imp_le])
    also have "\<dots> \<le> x * (1 + ?u) * (1 + ?u) ^ 2" using y1(1) by (intro mult_right_mono) simp_all
    also have "\<dots> = x * (1 + ?u) ^ 3" by (simp add: power3_eq_cube power2_eq_square)
    also have "\<dots> < real (Suc r) ^ 2"
      using n hi A n20 x0(1) by (intro rounding_gap [of "1 / real n"]) (auto intro: order_trans [rotated])
    finally have "rnd (sqrt (rnd x)) ^ 2 < real (Suc r) ^ 2" .
    then have "rnd (sqrt (rnd x)) < real (Suc r)" by (rule power_less_imp_less_base) simp
    then show ?thesis by simp
  qed
  with low show ?thesis ..
qed


section \<open>Properties\<close>

text \<open>
  C29. The floating-point level is exact: for any rounding with the properties of IEEE 754 double
  precision and frames of up to \<open>2 ^ 20\<close> samples (the program's have 480), \<open>computeRMS\<close> in
  \<open>float64\<close> returns the integer part of the true root mean square, as the integer version does.
\<close>

theorem rms_exact:
  assumes "binary64 rnd" and "length samples \<le> 2 ^ 20"
  shows "computeRMS_float rnd samples = computeRMS samples \<and>
    unat (computeRMS samples) = nat \<lfloor>sqrt (of_int (sum_squares samples) / real (length samples))\<rfloor>"
proof (cases "samples = []")
  case True
  then show ?thesis by (simp add: computeRMS_float_def computeRMS_def)
next
  case False
  define n where "n = length samples"
  define S where "S = nat (sum_squares samples)"
  define r where "r = isqrt (S div n)"
  define x where "x = real S / real n"
  have n: "0 < n" "n \<le> 2 ^ 20" using False assms(2) by (simp_all add: n_def)
  note sq = sum_squares_bounds [of samples, folded n_def]
  then have S: "real S = of_int (sum_squares samples)" "S \<le> n * 2 ^ 30" by (simp_all add: S_def)
  note root = root_of_quotient [OF n(1) S(2), folded r_def x_def]
  have "int n \<le> 2 ^ 20" using n(2) by (metis of_nat_le_iff of_nat_numeral of_nat_power)
  then have "int n * 2 ^ 30 \<le> 2 ^ 53" by simp
  then have sum: "foldl (\<lambda>acc s. rnd (acc + rnd (of_int (sint s) * of_int (sint s)))) 0 samples = real S"
    using float_sum_exact [OF assms(1), of 0 samples] S(1) by (simp add: n_def)
  have x: "x = 0 \<or> 1 / real n \<le> x"
    using n(1) by (cases "S = 0") (simp_all add: x_def divide_right_mono)
  have z: "real r \<le> rnd (sqrt (rnd x)) \<and> rnd (sqrt (rnd x)) < real r + 1"
    using rounded_root [OF assms(1) n root x] .
  then have "\<lfloor>rnd (sqrt (rnd x))\<rfloor> = int r" "\<not> rnd (sqrt (rnd x)) > 65535"
    using root(1) by (auto intro!: floor_unique)
  then have fl: "computeRMS_float rnd samples = of_nat r"
    using False unfolding computeRMS_float_def Let_def sum by (simp add: x_def n_def)
  have int: "computeRMS samples = of_nat r"
    using False root(1) by (simp add: computeRMS_def r_def S_def n_def)
  have "real r \<le> sqrt x" using root(2) by (rule real_le_rsqrt)
  moreover have "sqrt x < real (Suc r)"
  proof (rule real_less_lsqrt)
    have "0 < 1 / real n" using n(1) by simp
    with root(3) show "x < real (Suc r) ^ 2" by linarith
  qed (simp_all add: x_def)
  ultimately have "\<lfloor>sqrt x\<rfloor> = int r" by (intro floor_unique) simp_all
  moreover have "unat (of_nat r :: 16 word) = r" using root(1) by (simp add: unat_of_nat)
  ultimately show ?thesis using fl int S(1) by (simp add: x_def n_def)
qed

lemma binary64_exact: "binary64 (\<lambda>x. x)"
proof -
  have "\<forall>x. 1 / 2 ^ 1022 \<le> x \<and> x \<le> 2 ^ 1023 \<longrightarrow> \<bar>x - x\<bar> \<le> x / (2 :: real) ^ 53"
  proof (intro allI impI)
    fix x :: real assume "1 / 2 ^ 1022 \<le> x \<and> x \<le> 2 ^ 1023"
    then have "1 / 2 ^ 1022 \<le> x" by (rule conjunct1)
    moreover have "0 \<le> 1 / (2 :: real) ^ 1022" by (rule divide_nonneg_nonneg) (rule zero_le_one, rule zero_le_power, simp)
    ultimately have "0 \<le> x" by (rule order_trans [rotated])
    then show "\<bar>x - x\<bar> \<le> x / (2 :: real) ^ 53" by simp
  qed
  then show ?thesis unfolding binary64_def by (intro conjI allI impI monoI) (assumption | simp)+
qed

theorem rms_exact_witness:
  "computeRMS_float (\<lambda>x. x) [3, -4, 12] = computeRMS [3, -4, 12] \<and>
   unat (computeRMS [3, -4, 12]) = nat \<lfloor>sqrt (of_int (sum_squares [3, -4, 12]) / real (length [3, -4, 12 :: 16 word]))\<rfloor>"
  by (rule rms_exact [OF binary64_exact]) simp

text \<open>
  Halving the sample rate cannot overflow: the sum of two samples fits the 32-bit intermediate,
  and the halved sum, rounded towards zero, fits a sample again.
\<close>

theorem downsample_exact:
  assumes "length s = 960" and "i < 480"
  shows "sint (downsample s ! i) = (sint (s ! (2 * i)) + sint (s ! (2 * i + 1))) sdiv 2"
  using assms
  by (simp add: downsample_def Let_def average_exact alsaFrameSize_def opusFrameSize_def mult.commute)

theorem downsample_exact_witness:
  "sint (downsample (replicate 960 32767) ! 5) = (32767 + 32767) sdiv 2"
  using downsample_exact [of "replicate 960 32767" 5] by simp

end
