(* ===== verification/EmuAudio.thy ===== *)
theory EmuAudio
  imports EmuLevel OggLib PcmOut
begin

text \<open>
  Recording and playing in the emulator, \<open>app/radio-bridge-emulator/audio.go\<close>: the loop that listens
  to the microphone, starts a recording at the first loud frame and ends it after silence or at the
  maximum length; trimming and packing; decoding and writing to the speaker.

  The sound device, the clock, the Opus codec and the Ogg library are outside: what their calls
  return are arguments and events.
\<close>

record AudioConfig =
  InputThresholdRMS :: "16 word"
  InputSilenceMs :: "64 word"
  InputMinRecordingMs :: "64 word"
  InputMaxRecordingSecs :: "64 word"

definition emuOpusBitrate :: nat where
  "emuOpusBitrate = 16000"

definition emuChannels :: nat where
  "emuChannels = 1"

section \<open>The Ogg container\<close>

text \<open>The errors of the library are ignored by the code, so the parameters have none.\<close>

record 'w ogg_lib =
  newPacketWriter :: "32 word \<Rightarrow> 'w"
  headPacket :: "OpusHead \<Rightarrow> bytes"
  tagsPacket :: "gostring \<Rightarrow> bytes"
  putPacket :: "'w \<Rightarrow> bytes \<Rightarrow> 64 word \<Rightarrow> bool \<Rightarrow> bool \<Rightarrow> 'w"
  flushPackets :: "'w \<Rightarrow> 'w"
  writtenBytes :: "'w \<Rightarrow> bytes"

fun put_frames :: "'w ogg_lib \<Rightarrow> bytes list \<Rightarrow> nat \<Rightarrow> nat \<Rightarrow> 64 word \<Rightarrow> 'w \<Rightarrow> 'w" where
  "put_frames lib [] n i totalSamples pw = pw"
| "put_frames lib (frame # frames) n i totalSamples pw =
     (let totalSamples = totalSamples + of_nat opusFrameSize;
          granule = 312 + totalSamples;
          isLast = (int i = int n - 1)
      in put_frames lib frames n (i + 1) totalSamples (putPacket lib pw frame granule False isLast))"

definition encodeToOggOpus :: "'w ogg_lib \<Rightarrow> bytes list \<Rightarrow> bytes" where
  "encodeToOggOpus lib frames =
     (let pw = newPacketWriter lib 0x57485052;
          headPkt = headPacket lib \<lparr>Version = 1, Channels = emuChannels, PreSkip = 312,
            InputSampleRate = opusSampleRate, ChannelMappingFamily = 0\<rparr>;
          pw = putPacket lib pw headPkt 0 True False;
          tagsPkt = tagsPacket lib ''radio-bridge-emulator'';
          pw = putPacket lib pw tagsPkt 0 False False;
          pw = put_frames lib frames (length frames) 0 0 pw
      in writtenBytes lib (flushPackets lib pw))"

section \<open>Recording\<close>

text \<open>
  One turn of the loop: what \<open>stream.Read\<close> returns, the samples it leaves in the buffer, and the
  clock (in nanoseconds) at the four places that may read it: when a loud frame is seen, when a
  recording starts, and at the two checks for the end.
\<close>

record mic_read =
  rdSamples :: "16 word list"
  tLoud :: int
  tStart :: int
  tMaxCheck :: int
  tSilenceCheck :: int

record 'e rec_state =
  opusFrames :: "bytes list"
  frameRMS :: "16 word list"
  recording :: bool
  lastAboveThreshold :: "int option"
  recordStarted :: int
  opusEncoder :: 'e

text \<open>\<open>time.Duration(n) * unit\<close>: a 64-bit conversion and product, read as signed.\<close>

definition go_duration :: "64 word \<Rightarrow> 64 word \<Rightarrow> int" where
  "go_duration n unit_ns = sint (n * unit_ns)"

definition silenceDuration :: "AudioConfig \<Rightarrow> int" where
  "silenceDuration cfg = go_duration (InputSilenceMs cfg) 1000000"

definition maxDuration :: "AudioConfig \<Rightarrow> int" where
  "maxDuration cfg = go_duration (InputMaxRecordingSecs cfg) 1000000000"

text \<open>The branch of a loud frame.\<close>

definition loud_branch :: "AudioConfig \<Rightarrow> 16 word \<Rightarrow> mic_read \<Rightarrow> 'e rec_state \<Rightarrow> 'e rec_state" where
  "loud_branch cfg rms r st =
     (if rms \<ge> InputThresholdRMS cfg then
        let st = st\<lparr>lastAboveThreshold := Some (tLoud r)\<rparr>
        in if \<not> recording st
           then st\<lparr>recording := True, recordStarted := tStart r, opusFrames := [], frameRMS := []\<rparr>
           else st
      else st)"

text \<open>One turn after a successful read; the flag says whether the loop is left.\<close>

definition record_turn ::
  "AudioConfig \<Rightarrow> ('e \<Rightarrow> 16 word list \<Rightarrow> (gostring + bytes) \<times> 'e) \<Rightarrow> mic_read \<Rightarrow> 'e rec_state
     \<Rightarrow> 'e rec_state \<times> bool" where
  "record_turn cfg enc r st =
     (let pcm = downsample (rdSamples r);
          rms = computeRMS pcm;
          st = loud_branch cfg rms r st
      in if recording st then
           case enc (opusEncoder st) pcm of
             (Inl e, enc') \<Rightarrow> (st\<lparr>opusEncoder := enc'\<rparr>, False)
           | (Inr b, enc') \<Rightarrow>
               let st = st\<lparr>opusEncoder := enc', opusFrames := opusFrames st @ [b],
                     frameRMS := frameRMS st @ [rms]\<rparr>
               in if tMaxCheck r - recordStarted st \<ge> maxDuration cfg then (st, True)
                  else (st, (case lastAboveThreshold st of
                               None \<Rightarrow> False
                             | Some t \<Rightarrow> tSilenceCheck r - t \<ge> silenceDuration cfg))
         else (st, False))"

text \<open>The loop: \<open>None\<close> while it listens on, else the error of a read or the state it is left in.\<close>

fun record_loop ::
  "AudioConfig \<Rightarrow> ('e \<Rightarrow> 16 word list \<Rightarrow> (gostring + bytes) \<times> 'e) \<Rightarrow> (gostring + mic_read) list
     \<Rightarrow> 'e rec_state \<Rightarrow> 'e rec_state go option" where
  "record_loop cfg enc [] st = None"
| "record_loop cfg enc (Inl e # rs) st = Some (Error (''portaudio read: '' @ e))"
| "record_loop cfg enc (Inr r # rs) st =
     (case record_turn cfg enc r st of
        (st', True) \<Rightarrow> Some (Return st')
      | (st', False) \<Rightarrow> record_loop cfg enc rs st')"

text \<open>The last frame at or above the threshold, searched from the end; -1 if there is none.\<close>

fun last_speech :: "16 word \<Rightarrow> 16 word list \<Rightarrow> nat \<Rightarrow> int" where
  "last_speech threshold rms 0 = -1"
| "last_speech threshold rms (Suc i) =
     (if rms ! i \<ge> threshold then int i else last_speech threshold rms i)"

definition keep_frames :: "16 word \<Rightarrow> 16 word list \<Rightarrow> nat \<Rightarrow> int" where
  "keep_frames threshold rms n =
     (let lastSpeech = last_speech threshold rms n
      in if lastSpeech \<ge> 0 then
           let keepFrames = lastSpeech + 1 + 1
           in if keepFrames > int n then int n else keepFrames
         else int n)"

text \<open>What follows the loop; \<open>[]\<close> stands for the \<open>nil\<close> slice.\<close>

definition finish_recording :: "AudioConfig \<Rightarrow> 'w ogg_lib \<Rightarrow> 'e rec_state \<Rightarrow> bytes" where
  "finish_recording cfg lib st =
     (if length (opusFrames st) = 0 then []
      else
        let keepFrames = keep_frames (InputThresholdRMS cfg) (frameRMS st) (length (opusFrames st));
            trimmed = take (nat keepFrames) (opusFrames st);
            durationMs = of_nat (length trimmed) * of_nat opusFrameSize * 1000 div of_nat opusSampleRate;
            minMs = (if InputMinRecordingMs cfg = 0 then 800 else InputMinRecordingMs cfg)
        in if durationMs < minMs then [] else encodeToOggOpus lib trimmed)"

text \<open>The set-up calls of \<open>recordUntilSilence\<close> that may fail, in their order.\<close>

record 'e mic_setup =
  openMic :: "gostring option"
  startMic :: "gostring option"
  newOpusEncoder :: "gostring + 'e"
  setEncBitrate :: "'e \<Rightarrow> nat \<Rightarrow> gostring + 'e"

definition new_rec_state :: "'e \<Rightarrow> 'e rec_state" where
  "new_rec_state e = \<lparr>opusFrames = [], frameRMS = [], recording = False, lastAboveThreshold = None,
     recordStarted = 0, opusEncoder = e\<rparr>"

definition recordUntilSilence ::
  "AudioConfig \<Rightarrow> 'e mic_setup \<Rightarrow> ('e \<Rightarrow> 16 word list \<Rightarrow> (gostring + bytes) \<times> 'e) \<Rightarrow> 'w ogg_lib
     \<Rightarrow> (gostring + mic_read) list \<Rightarrow> bytes go option" where
  "recordUntilSilence cfg su enc lib rs =
     (case openMic su of
        Some e \<Rightarrow> Some (Error (''portaudio open: '' @ e))
      | None \<Rightarrow>
     (case startMic su of
        Some e \<Rightarrow> Some (Error (''portaudio start: '' @ e))
      | None \<Rightarrow>
     (case newOpusEncoder su of
        Inl e \<Rightarrow> Some (Error (''opus encoder: '' @ e))
      | Inr e0 \<Rightarrow>
     (case setEncBitrate su e0 emuOpusBitrate of
        Inl e \<Rightarrow> Some (Error (''opus set bitrate: '' @ e))
      | Inr e1 \<Rightarrow>
          map_option (\<lambda>r. go_bind r (\<lambda>st. Return (finish_recording cfg lib st)))
            (record_loop cfg enc rs (new_rec_state e1))))))"

section \<open>Decoding and playing\<close>

text \<open>
  Decoding: the packets the library's reader returns before its first error. The first two are the
  headers; a packet the decoder rejects is skipped.
\<close>

fun decode_packets ::
  "('d \<Rightarrow> bytes \<Rightarrow> (gostring + 16 word list) \<times> 'd) \<Rightarrow> nat \<Rightarrow> packet list \<Rightarrow> 'd \<Rightarrow> 16 word list" where
  "decode_packets dec headerPackets [] d = []"
| "decode_packets dec headerPackets (pkt # pkts) d =
     (if headerPackets < 2 then decode_packets dec (headerPackets + 1) pkts d
      else case dec d (pkData pkt) of
             (Inl e, d') \<Rightarrow> decode_packets dec headerPackets pkts d'
           | (Inr s, d') \<Rightarrow> s @ decode_packets dec headerPackets pkts d')"

text \<open>
  \<open>newDec\<close> creates a decoder for a sample rate and a number of channels; \<open>dec\<close> decodes a packet into
  a buffer of so many samples.
\<close>

definition decodeOggOpus ::
  "(nat \<Rightarrow> nat \<Rightarrow> gostring + 'd) \<Rightarrow> ('d \<Rightarrow> bytes \<Rightarrow> nat \<Rightarrow> (gostring + 16 word list) \<times> 'd)
     \<Rightarrow> (bytes \<Rightarrow> packet list) \<Rightarrow> bytes \<Rightarrow> 16 word list go" where
  "decodeOggOpus newDec dec readPackets d =
     (case newDec opusSampleRate emuChannels of
        Inl e \<Rightarrow> Error (''opus.NewDecoder: '' @ e)
      | Inr d0 \<Rightarrow>
          Return (decode_packets (\<lambda>d b. dec d b (opusFrameSize * 10)) 0 (readPackets d) d0))"

text \<open>Playing: the frames written to the device and the result.\<close>

definition playOggOpus ::
  "16 word list go \<Rightarrow> gostring option \<Rightarrow> gostring option \<Rightarrow> (nat \<Rightarrow> gostring option)
     \<Rightarrow> 16 word list list \<times> unit go" where
  "playOggOpus decoded openErr startErr werr =
     (case decoded of
        Error e \<Rightarrow> ([], Error (''decode: '' @ e))
      | Panic p \<Rightarrow> ([], Panic p)
      | Return pcmData \<Rightarrow>
          if length pcmData = 0 then ([], Return ())
          else (case openErr of
                  Some e \<Rightarrow> ([], Error (''portaudio open: '' @ e))
                | None \<Rightarrow>
                    (case startErr of
                       Some e \<Rightarrow> ([], Error (''portaudio start: '' @ e))
                     | None \<Rightarrow>
                         (case write_loop alsaFrameSize werr (upsample pcmData) 0 of
                            (fs, None) \<Rightarrow> (fs, Return ())
                          | (fs, Some e) \<Rightarrow> (fs, Error (''portaudio write: '' @ e))))))"


section \<open>Facts about recording\<close>

definition level :: "mic_read \<Rightarrow> 16 word" where
  "level r = computeRMS (downsample (rdSamples r))"

definition loud :: "AudioConfig \<Rightarrow> mic_read \<Rightarrow> bool" where
  "loud cfg r \<longleftrightarrow> InputThresholdRMS cfg \<le> level r"

text \<open>
  The frames an encoder makes of readings, each with its reading: a reading whose encoding fails is
  passed over. The encoder's state after some readings.
\<close>

fun encoded ::
  "('e \<Rightarrow> 16 word list \<Rightarrow> (gostring + bytes) \<times> 'e) \<Rightarrow> 'e \<Rightarrow> mic_read list
     \<Rightarrow> (bytes \<times> mic_read) list" where
  "encoded enc e [] = []"
| "encoded enc e (r # rs) =
     (case enc e (downsample (rdSamples r)) of
        (Inl m, e') \<Rightarrow> encoded enc e' rs
      | (Inr b, e') \<Rightarrow> (b, r) # encoded enc e' rs)"

definition enc_after ::
  "('e \<Rightarrow> 16 word list \<Rightarrow> (gostring + bytes) \<times> 'e) \<Rightarrow> 'e \<Rightarrow> mic_read list \<Rightarrow> 'e" where
  "enc_after enc e rs = fold (\<lambda>r e. snd (enc e (downsample (rdSamples r)))) rs e"

lemma encoded_one_length: "length (encoded enc e [r]) \<le> 1"
  by (auto split: prod.split sum.split)

lemma encoded_length: "length (encoded enc e rs) \<le> length rs"
  by (induction rs arbitrary: e) (auto split: prod.split sum.split intro: le_SucI)

text \<open>With an encoder that does not fail, no reading is passed over.\<close>

lemma encoded_all:
  "(\<And>e s. \<exists>b e'. enc e s = (Inr b, e')) \<Longrightarrow> map snd (encoded enc e rs) = rs"
proof (induction rs arbitrary: e)
  case (Cons r rs)
  obtain b e' where "enc e (downsample (rdSamples r)) = (Inr b, e')" using Cons.prems by blast
  with Cons show ?case by simp
qed simp

lemma turn_quiet:
  "\<not> recording st \<Longrightarrow> \<not> loud cfg r \<Longrightarrow> record_turn cfg enc r st = (st, False)"
  by (simp add: record_turn_def loud_branch_def loud_def level_def Let_def)

lemma encoded_Cons:
  "encoded enc e (r # rs) = encoded enc e [r] @ encoded enc (snd (enc e (downsample (rdSamples r)))) rs"
  by (auto split: prod.splits sum.splits)

text \<open>
  A turn of a recording, one that starts it included, adds the frame and its level if the encoding
  succeeds, and only then can it leave the loop.
\<close>

lemma turn_records:
  fixes cfg and enc :: "'e \<Rightarrow> 16 word list \<Rightarrow> (gostring + bytes) \<times> 'e" and r and st
  assumes "recording st \<or> loud cfg r"
  defines "next \<equiv> record_turn cfg enc r st" and "new \<equiv> encoded enc (opusEncoder st) [r]"
  shows "opusFrames (fst next) = (if recording st then opusFrames st else []) @ map fst new"
    and "frameRMS (fst next) = (if recording st then frameRMS st else []) @ map (level \<circ> snd) new"
    and "recording (fst next)"
    and "opusEncoder (fst next) = snd (enc (opusEncoder st) (downsample (rdSamples r)))"
    and "recordStarted (fst next) = (if recording st then recordStarted st else tStart r)"
    and "new \<noteq> [] \<Longrightarrow> tMaxCheck r - recordStarted (fst next) \<ge> maxDuration cfg \<Longrightarrow> snd next"
    and "snd next \<Longrightarrow> new \<noteq> []"
proof -
  let ?st = "loud_branch cfg (level r) r st"
  obtain x e' where e: "enc (opusEncoder st) (downsample (rdSamples r)) = (x, e')" by fastforce
  have l: "opusEncoder ?st = opusEncoder st" "recording ?st"
    "opusFrames ?st = (if recording st then opusFrames st else [])"
    "frameRMS ?st = (if recording st then frameRMS st else [])"
    "recordStarted ?st = (if recording st then recordStarted st else tStart r)"
    using assms(1) by (auto simp: loud_branch_def loud_def Let_def)
  let ?st' = "\<lambda>b. ?st\<lparr>opusEncoder := e', opusFrames := opusFrames ?st @ [b],
      frameRMS := frameRMS ?st @ [level r]\<rparr>"
  have n: "next = (case x of
      Inl m \<Rightarrow> (?st\<lparr>opusEncoder := e'\<rparr>, False)
    | Inr b \<Rightarrow> (?st' b, tMaxCheck r - recordStarted (?st' b) \<ge> maxDuration cfg \<or>
        (case lastAboveThreshold (?st' b) of None \<Rightarrow> False | Some t \<Rightarrow> tSilenceCheck r - t \<ge> silenceDuration cfg)))"
    using e l(1,2) by (simp add: next_def record_turn_def Let_def split: sum.split flip: level_def)
  have new: "new = (case x of Inl m \<Rightarrow> [] | Inr b \<Rightarrow> [(b, r)])"
    by (simp add: new_def e split: sum.split)
  show "opusFrames (fst next) = (if recording st then opusFrames st else []) @ map fst new"
    "frameRMS (fst next) = (if recording st then frameRMS st else []) @ map (level \<circ> snd) new"
    "recording (fst next)"
    "opusEncoder (fst next) = snd (enc (opusEncoder st) (downsample (rdSamples r)))"
    "recordStarted (fst next) = (if recording st then recordStarted st else tStart r)"
    by (simp_all add: n new l e split: sum.split)
  show "snd next" if "new \<noteq> []" "tMaxCheck r - recordStarted (fst next) \<ge> maxDuration cfg"
    using that by (cases x) (simp_all add: n new)
  show "new \<noteq> []" if "snd next"
    using that by (cases x) (simp_all add: n new)
qed

lemma loop_step:
  "record_loop cfg enc (Inr r # rs) st =
     (if snd (record_turn cfg enc r st) then Some (Return (fst (record_turn cfg enc r st)))
      else record_loop cfg enc rs (fst (record_turn cfg enc r st)))"
  by (simp split: prod.split)

lemma loop_while_recording:
  "recording st \<Longrightarrow> record_loop cfg enc (map Inr rs) st = Some (Return st') \<Longrightarrow>
    \<exists>spoken rest. rs = spoken @ rest \<and>
      opusFrames st' = opusFrames st @ map fst (encoded enc (opusEncoder st) spoken) \<and>
      frameRMS st' = frameRMS st @ map (level \<circ> snd) (encoded enc (opusEncoder st) spoken)"
proof (induction rs arbitrary: st)
  case (Cons r rs)
  let ?t = "record_turn cfg enc r st"
  have "recording st \<or> loud cfg r" using Cons.prems(1) ..
  note t = turn_records [OF this, of enc]
  have loop: "(if snd ?t then Some (Return (fst ?t)) else record_loop cfg enc (map Inr rs) (fst ?t))
      = Some (Return st')"
    using Cons.prems(2) by (simp only: list.map loop_step)
  show ?case
  proof (cases "snd ?t")
    case True
    with loop have "st' = fst ?t" by simp
    with t(1,2) Cons.prems(1) show ?thesis
      by (intro exI [of _ "[r]"] exI [of _ rs]) (simp del: encoded.simps)
  next
    case False
    with loop have "record_loop cfg enc (map Inr rs) (fst ?t) = Some (Return st')" by simp
    from Cons.IH [OF t(3) this] obtain spoken rest where sp: "rs = spoken @ rest"
      "opusFrames st' = opusFrames (fst ?t) @ map fst (encoded enc (opusEncoder (fst ?t)) spoken)"
      "frameRMS st' = frameRMS (fst ?t) @ map (level \<circ> snd) (encoded enc (opusEncoder (fst ?t)) spoken)"
      by blast
    show ?thesis
      using sp t(1,2,4) Cons.prems(1)
      by (intro exI [of _ "r # spoken"] exI [of _ rest])
        (simp add: encoded_Cons [of _ _ r spoken] del: encoded.simps)
  qed
qed simp

lemma loop_records:
  assumes "\<not> recording st"
    and "record_loop cfg enc (map Inr rs) st = Some (Return st')"
  shows "\<exists>quiet r spoken rest. rs = quiet @ (r # spoken) @ rest \<and> (\<forall>q \<in> set quiet. \<not> loud cfg q) \<and>
    loud cfg r \<and> opusFrames st' = map fst (encoded enc (opusEncoder st) (r # spoken)) \<and>
    frameRMS st' = map (level \<circ> snd) (encoded enc (opusEncoder st) (r # spoken))"
  using assms(2)
proof (induction rs)
  case (Cons r rs)
  show ?case
  proof (cases "loud cfg r")
    case True
    let ?t = "record_turn cfg enc r st"
    have "recording st \<or> loud cfg r" using True ..
    note t = turn_records [OF this, of enc]
    have loop: "(if snd ?t then Some (Return (fst ?t)) else record_loop cfg enc (map Inr rs) (fst ?t))
        = Some (Return st')"
      using Cons.prems by (simp only: list.map loop_step)
    show ?thesis
    proof (cases "snd ?t")
      case True
      with loop have "st' = fst ?t" by simp
      with t(1,2) \<open>loud cfg r\<close> assms(1) show ?thesis
        by (intro exI [of _ "[]"] exI [of _ r] exI [of _ rs]) (simp del: encoded.simps)
    next
      case False
      with loop have "record_loop cfg enc (map Inr rs) (fst ?t) = Some (Return st')" by simp
      from loop_while_recording [OF t(3) this] obtain spoken rest where sp: "rs = spoken @ rest"
        "opusFrames st' = opusFrames (fst ?t) @ map fst (encoded enc (opusEncoder (fst ?t)) spoken)"
        "frameRMS st' = frameRMS (fst ?t) @ map (level \<circ> snd) (encoded enc (opusEncoder (fst ?t)) spoken)"
        by blast
      show ?thesis
        using sp t(1,2,4) \<open>loud cfg r\<close> assms(1)
        by (intro exI [of _ "[]"] exI [of _ r] exI [of _ spoken] exI [of _ rest])
          (simp add: encoded_Cons [of _ _ r spoken] del: encoded.simps)
    qed
  next
    case False
    with Cons.prems turn_quiet [OF assms(1) False, of enc]
    have "record_loop cfg enc (map Inr rs) st = Some (Return st')" by simp
    from Cons.IH [OF this] obtain quiet r' spoken rest where
      "rs = quiet @ (r' # spoken) @ rest" "\<forall>q \<in> set quiet. \<not> loud cfg q" "loud cfg r'"
      "opusFrames st' = map fst (encoded enc (opusEncoder st) (r' # spoken))"
      "frameRMS st' = map (level \<circ> snd) (encoded enc (opusEncoder st) (r' # spoken))"
      by blast
    with False show ?thesis
      by (intro exI [of _ "r # quiet"] exI [of _ r'] exI [of _ spoken] exI [of _ rest]) simp
  qed
qed simp


section \<open>Facts about trimming\<close>

definition trailing_quiet :: "16 word \<Rightarrow> 16 word list \<Rightarrow> nat" where
  "trailing_quiet threshold rms = length (takeWhile (\<lambda>x. x < threshold) (rev rms))"

lemma last_speech_trailing:
  "n \<le> length rms \<Longrightarrow> last_speech th rms n = int n - 1 - int (trailing_quiet th (take n rms))"
proof (induction n)
  case (Suc n)
  then have "rev (take (Suc n) rms) = rms ! n # rev (take n rms)" by (simp add: take_Suc_conv_app_nth)
  with Suc show ?case by (simp add: trailing_quiet_def not_le)
qed (simp add: trailing_quiet_def)

lemma trailing_quiet_le: "trailing_quiet th rms \<le> length rms"
  by (metis length_rev length_takeWhile_le trailing_quiet_def)

lemma trailing_quiet_less: "\<not> x < th \<Longrightarrow> trailing_quiet th (x # rms) \<le> length rms"
proof -
  assume x: "\<not> x < th"
  have "takeWhile (\<lambda>x. x < th) (ys @ [x]) = takeWhile (\<lambda>x. x < th) ys" for ys
    by (induction ys) (simp_all add: x)
  then show ?thesis by (metis length_rev length_takeWhile_le rev.simps(2) trailing_quiet_def)
qed

lemma keep_frames_bounds: "0 \<le> keep_frames th rms (length rms)" "keep_frames th rms (length rms) \<le> int (length rms)"
  by (auto simp: keep_frames_def Let_def)

lemma keep_frames_all_quiet:
  "trailing_quiet th rms = length rms \<Longrightarrow> keep_frames th rms (length rms) = int (length rms)"
  by (simp add: keep_frames_def last_speech_trailing Let_def)

lemma keep_frames_trailing:
  "trailing_quiet th rms < length rms \<Longrightarrow>
   keep_frames th rms (length rms) = int (min (length rms) (length rms + 1 - trailing_quiet th rms))"
  by (auto simp: keep_frames_def last_speech_trailing Let_def min_def)

section \<open>Facts about packing\<close>

text \<open>
  The library hands on the packets it is given, in order: \<open>packets\<close> are those a writer has got, and
  once it is flushed the reader \<open>readPackets\<close> finds them in its bytes. Of the bytes of a writer that
  is not flushed nothing is said.
\<close>

definition keeps_packets ::
  "'w ogg_lib \<Rightarrow> ('w \<Rightarrow> packet list) \<Rightarrow> (bytes \<Rightarrow> packet list) \<Rightarrow> bool" where
  "keeps_packets lib packets readPackets \<longleftrightarrow> (\<forall>s. packets (newPacketWriter lib s) = []) \<and>
     (\<forall>w p g b e. packets (putPacket lib w p g b e) =
        packets w @ [\<lparr>pkData = p, pkGranule = g, pkBOS = b, pkEOS = e\<rparr>]) \<and>
     (\<forall>w. readPackets (writtenBytes lib (flushPackets lib w)) = packets w)"

definition emu_packet :: "nat \<Rightarrow> nat \<times> bytes \<Rightarrow> packet" where
  "emu_packet n = (\<lambda>(i, f). \<lparr>pkData = f, pkGranule = of_nat (312 + opusFrameSize * Suc i),
     pkBOS = False, pkEOS = (Suc i = n)\<rparr>)"

lemma put_frames_packets:
  assumes "keeps_packets lib packets readPackets"
  shows "packets (put_frames lib fs n i (of_nat (opusFrameSize * i)) w) =
    packets w @ map (emu_packet n) (enumerate i fs)"
proof (induction fs arbitrary: i w)
  case (Cons f fs)
  have g: "of_nat (opusFrameSize * i) + of_nat opusFrameSize = (of_nat (opusFrameSize * Suc i) :: 64 word)"
    by (simp add: algebra_simps)
  let ?w = "putPacket lib w f (312 + of_nat (opusFrameSize * Suc i)) False (int i = int n - 1)"
  have "put_frames lib (f # fs) n i (of_nat (opusFrameSize * i)) w =
      put_frames lib fs n (Suc i) (of_nat (opusFrameSize * Suc i)) ?w"
    by (simp only: put_frames.simps Let_def g Suc_eq_plus1)
  moreover have "packets ?w = packets w @ [emu_packet n (i, f)]"
    using assms by (auto simp: keeps_packets_def emu_packet_def)
  ultimately show ?case by (simp only: Cons.IH) simp
qed simp

lemma decode_after_headers:
  "decode_packets dec 0 (a # b # pkts) d = decode_packets dec 2 pkts d"
  by (simp add: numeral_2_eq_2)

fun decoded_frames ::
  "('d \<Rightarrow> bytes \<Rightarrow> (gostring + 16 word list) \<times> 'd) \<Rightarrow> 'd \<Rightarrow> bytes list \<Rightarrow> 16 word list" where
  "decoded_frames dec d [] = []"
| "decoded_frames dec d (f # fs) =
     (case dec d f of
        (Inl e, d') \<Rightarrow> decoded_frames dec d' fs
      | (Inr s, d') \<Rightarrow> s @ decoded_frames dec d' fs)"

lemma decode_packets_frames: "decode_packets dec 2 pkts d = decoded_frames dec d (map pkData pkts)"
  by (induction pkts arbitrary: d) (auto split: prod.split sum.split)

definition emu_head :: OpusHead where
  "emu_head = \<lparr>Version = 1, Channels = emuChannels, PreSkip = 312, InputSampleRate = opusSampleRate, ChannelMappingFamily = 0\<rparr>"

definition emu_packets :: "'w ogg_lib \<Rightarrow> bytes list \<Rightarrow> packet list" where
  "emu_packets lib fs =
     \<lparr>pkData = headPacket lib emu_head, pkGranule = 0, pkBOS = True, pkEOS = False\<rparr>
     # \<lparr>pkData = tagsPacket lib ''radio-bridge-emulator'', pkGranule = 0, pkBOS = False, pkEOS = False\<rparr>
     # map (emu_packet (length fs)) (enumerate 0 fs)"

lemma encode_packets_written:
  assumes "keeps_packets lib packets readPackets"
  shows "readPackets (encodeToOggOpus lib fs) = emu_packets lib fs"
proof -
  let ?w0 = "newPacketWriter lib 0x57485052"
  let ?w1 = "putPacket lib ?w0 (headPacket lib emu_head) 0 True False"
  let ?w2 = "putPacket lib ?w1 (tagsPacket lib ''radio-bridge-emulator'') 0 False False"
  let ?w = "put_frames lib fs (length fs) 0 0 ?w2"
  have "encodeToOggOpus lib fs = writtenBytes lib (flushPackets lib ?w)"
    by (simp add: encodeToOggOpus_def emu_head_def Let_def)
  moreover have "packets ?w = emu_packets lib fs"
    using put_frames_packets [OF assms, of fs "length fs" 0] assms
    by (simp add: keeps_packets_def emu_packets_def)
  ultimately show ?thesis using assms by (simp add: keeps_packets_def)
qed


section \<open>Well-formed recordings\<close>

definition rec_wf :: "'e rec_state \<Rightarrow> bool" where
  "rec_wf st \<longleftrightarrow> length (frameRMS st) = length (opusFrames st) \<and>
     (recording st \<longrightarrow> lastAboveThreshold st \<noteq> None) \<and> (\<not> recording st \<longrightarrow> opusFrames st = [])"

lemma loud_branch_wf: "rec_wf st \<Longrightarrow> rec_wf (loud_branch cfg rms r st)
    \<or> (loud_branch cfg rms r st = st\<lparr>lastAboveThreshold := Some (tLoud r), recording := True,
         recordStarted := tStart r, opusFrames := [], frameRMS := []\<rparr>)"
  by (auto simp: loud_branch_def rec_wf_def Let_def)

lemma turn_wf:
  assumes "rec_wf st"
  shows "rec_wf (fst (record_turn cfg enc r st)) \<and>
    (snd (record_turn cfg enc r st) \<longrightarrow> recording (fst (record_turn cfg enc r st)) \<and>
      opusFrames (fst (record_turn cfg enc r st)) \<noteq> [])"
proof -
  let ?st = "loud_branch cfg (level r) r st"
  have wf: "rec_wf ?st" using assms by (auto simp: rec_wf_def loud_branch_def Let_def)
  obtain x e' where "enc (opusEncoder ?st) (downsample (rdSamples r)) = (x, e')" by fastforce
  with wf show ?thesis
    by (cases x) (auto simp: record_turn_def rec_wf_def Let_def simp flip: level_def)
qed

lemma loop_wf:
  "rec_wf st \<Longrightarrow> record_loop cfg enc rs st = Some (Return st') \<Longrightarrow>
   rec_wf st' \<and> recording st' \<and> opusFrames st' \<noteq> []"
proof (induction rs arbitrary: st)
  case (Cons r rs)
  show ?case
  proof (cases r)
    case (Inr rd)
    with Cons turn_wf [OF Cons.prems(1), of cfg enc rd] show ?thesis
      by (auto simp: loop_step simp del: record_loop.simps split: if_splits)
  qed (use Cons.prems in simp)
qed simp

lemma new_rec_state_wf: "rec_wf (new_rec_state e)"
  by (simp add: rec_wf_def new_rec_state_def)

section \<open>Ending a recording\<close>

lemma encoded_succeeds: "enc e (downsample (rdSamples r)) = (Inr b, e') \<Longrightarrow> encoded enc e [r] \<noteq> []"
  by simp

lemma recording_stops:
  "recording st \<or> loud cfg (hd (a @ late # b)) \<Longrightarrow>
    (if recording st then recordStarted st else tStart (hd (a @ late # b))) = start \<Longrightarrow>
    enc (enc_after enc (opusEncoder st) a) (downsample (rdSamples late)) = (Inr p, e') \<Longrightarrow>
    tMaxCheck late - start \<ge> maxDuration cfg \<Longrightarrow>
    \<exists>st'. record_loop cfg enc (map Inr (a @ late # b)) st = Some (Return st') \<and>
      length (opusFrames st') \<le> (if recording st then length (opusFrames st) else 0) + length a + 1"
proof (induction a arbitrary: st)
  case Nil
  then have "recording st \<or> loud cfg late" by simp
  note t = turn_records [OF this, of enc]
  have "recordStarted (fst (record_turn cfg enc late st)) = start"
    using t(5) Nil.prems(2) by (cases "recording st") simp_all
  moreover have "encoded enc (opusEncoder st) [late] \<noteq> []"
    using Nil.prems(3) by (intro encoded_succeeds) (simp add: enc_after_def)
  ultimately have "snd (record_turn cfg enc late st)" using t(6) Nil.prems(4) by simp
  then show ?case
    using t(1) encoded_one_length [of enc "opusEncoder st" late]
    by (simp add: loop_step del: record_loop.simps encoded.simps)
next
  case (Cons r a)
  then have "recording st \<or> loud cfg r" by simp
  note t = turn_records [OF this, of enc]
  let ?st = "fst (record_turn cfg enc r st)"
  have len: "length (opusFrames ?st) \<le> (if recording st then length (opusFrames st) else 0) + 1"
    using t(1) encoded_one_length [of enc "opusEncoder st" r] by (simp del: encoded.simps)
  show ?case
  proof (cases "snd (record_turn cfg enc r st)")
    case True
    then show ?thesis using len by (simp add: loop_step del: record_loop.simps)
  next
    case False
    have "enc (enc_after enc (opusEncoder ?st) a) (downsample (rdSamples late)) = (Inr p, e')"
      using Cons.prems(3) t(4) by (simp add: enc_after_def)
    then have "\<exists>st'. record_loop cfg enc (map Inr (a @ late # b)) ?st = Some (Return st') \<and>
        length (opusFrames st') \<le> (if recording ?st then length (opusFrames ?st) else 0) + length a + 1"
      using t(3,5) Cons.prems by (intro Cons.IH) auto
    then show ?thesis using False t(3) len by (auto simp: loop_step simp del: record_loop.simps)
  qed
qed

lemma skip_quiet:
  "\<not> recording st \<Longrightarrow> \<forall>q \<in> set quiet. \<not> loud cfg q \<Longrightarrow>
   record_loop cfg enc (map Inr (quiet @ rs)) st = record_loop cfg enc (map Inr rs) st"
  by (induction quiet) (simp_all add: turn_quiet)

text \<open>
  The check of the maximum length stands after the encoding, and a failed encoding goes on with the
  next frame: while the encoder fails the loop is never left, however long it has been recording.
\<close>

lemma failing_encoder_records_on:
  "(\<And>e s. \<exists>m e'. enc e s = (Inl m, e')) \<Longrightarrow> record_loop cfg enc (map Inr rs) st = None"
proof (induction rs arbitrary: st)
  case (Cons r rs)
  have "\<not> snd (record_turn cfg enc r st)"
  proof (cases "recording st \<or> loud cfg r")
    case True
    obtain m e' where "enc (opusEncoder st) (downsample (rdSamples r)) = (Inl m, e')"
      using Cons.prems by blast
    then show ?thesis using turn_records(7) [OF True, of enc] by auto
  qed (simp add: turn_quiet)
  with Cons show ?case by (simp add: loop_step del: record_loop.simps)
qed simp

section \<open>Properties\<close>

text \<open>The configured minimum of a recording in milliseconds.\<close>

definition min_ms :: "AudioConfig \<Rightarrow> nat" where
  "min_ms cfg = (if InputMinRecordingMs cfg = 0 then 800 else unat (InputMinRecordingMs cfg))"

text \<open>What follows the loop, with the length arithmetic of the code done without wrap-around.\<close>

lemma finish_keeps:
  assumes "keep_frames (InputThresholdRMS cfg) (frameRMS st) (length (opusFrames st)) = int n"
    and "n \<le> length (opusFrames st)" and "n < 2 ^ 40" and "opusFrames st \<noteq> []"
  shows "finish_recording cfg lib st =
    (if 20 * n < min_ms cfg then [] else encodeToOggOpus lib (take n (opusFrames st)))"
proof -
  have ms: "unat (of_nat n * of_nat opusFrameSize * 1000 div of_nat opusSampleRate :: 64 word) = 20 * n"
  proof -
    have "of_nat n * of_nat opusFrameSize * 1000 = (of_nat (n * 480000) :: 64 word)"
      by (simp add: opusFrameSize_def)
    moreover have "unat (of_nat (n * 480000) :: 64 word) = n * 480000"
      using assms(3) by (simp add: unat_of_nat del: of_nat_mult)
    ultimately show ?thesis
      by (simp add: unat_div_distrib opusSampleRate_def del: of_nat_mult)
  qed
  have short: "(of_nat n * of_nat opusFrameSize * 1000 div of_nat opusSampleRate :: 64 word)
      < (if InputMinRecordingMs cfg = 0 then 800 else InputMinRecordingMs cfg) \<longleftrightarrow> 20 * n < min_ms cfg"
    unfolding word_less_nat_alt ms by (simp add: min_ms_def)
  have tl: "length (take n (opusFrames st)) = n" using assms(2) by simp
  have "length (opusFrames st) \<noteq> 0" using assms(4) by simp
  then show ?thesis
    unfolding finish_recording_def Let_def assms(1) nat_int tl short by (rule if_not_P)
qed

text \<open>
  C13. What a recording holds, whether the encoder fails on some frames or not. What
  \<open>recordUntilSilence\<close> returns was made of one stretch of the input: all frames before it were below
  the threshold and its first is loud. Its frames were encoded in order, by the encoder the set-up
  made; those whose encoding failed were passed over, and of those encoded (\<open>kept\<close>, at least one) the
  quiet ones at the end were cut but for one, unless all of them are quiet, which then are all left.
  The result is the \<open>nil\<close> slice exactly when the rest is shorter than the configured minimum (800 ms
  if none is configured) at 20 ms a frame. The number of readings is below \<open>2 ^ 40\<close> (700 years).
\<close>

theorem recording_contents:
  assumes "length rs < 2 ^ 40"
    and "recordUntilSilence cfg su enc lib (map Inr rs) = Some (Return d)"
  shows "\<exists>e0 e quiet spoken rest kept levels n.
    newOpusEncoder su = Inr e0 \<and> setEncBitrate su e0 16000 = Inr e \<and>
    rs = quiet @ spoken @ rest \<and> spoken \<noteq> [] \<and>
    (\<forall>q \<in> set quiet. \<not> loud cfg q) \<and> loud cfg (hd spoken) \<and>
    kept = encoded enc e spoken \<and> kept \<noteq> [] \<and> levels = map (level \<circ> snd) kept \<and>
    n = (if trailing_quiet (InputThresholdRMS cfg) levels = length kept then length kept
         else min (length kept) (length kept + 1 - trailing_quiet (InputThresholdRMS cfg) levels)) \<and>
    d = (if 20 * n < min_ms cfg then [] else encodeToOggOpus lib (take n (map fst kept)))"
proof -
  obtain e0 e st where su: "newOpusEncoder su = Inr e0" "setEncBitrate su e0 16000 = Inr e"
    and st: "record_loop cfg enc (map Inr rs) (new_rec_state e) = Some (Return st)"
    and d: "d = finish_recording cfg lib st"
    using assms(2)
    by (auto simp: recordUntilSilence_def emuOpusBitrate_def go_bind_Return_iff split: option.splits sum.splits)
  have "\<not> recording (new_rec_state e)" "opusEncoder (new_rec_state e) = e" by (simp_all add: new_rec_state_def)
  from loop_records [OF this(1) st] this(2) obtain quiet r spoken rest where
    rs: "rs = quiet @ (r # spoken) @ rest" and q: "\<forall>q \<in> set quiet. \<not> loud cfg q" and r: "loud cfg r"
    and fr: "opusFrames st = map fst (encoded enc e (r # spoken))"
    and lv: "frameRMS st = map (level \<circ> snd) (encoded enc e (r # spoken))"
    by auto
  define kept where "kept = encoded enc e (r # spoken)"
  let ?th = "InputThresholdRMS cfg" and ?lv = "map (level \<circ> snd) kept"
  have ne: "opusFrames st \<noteq> []" using loop_wf [OF new_rec_state_wf st] by simp
  have len: "length (opusFrames st) = length kept" by (simp only: fr kept_def length_map)
  define n where "n = (if trailing_quiet ?th ?lv = length kept then length kept
      else min (length kept) (length kept + 1 - trailing_quiet ?th ?lv))"
  have keep: "keep_frames ?th (frameRMS st) (length (opusFrames st)) = int n"
    using keep_frames_trailing [of ?th ?lv] keep_frames_all_quiet [of ?th ?lv] trailing_quiet_le [of ?th ?lv]
    unfolding len n_def lv kept_def [symmetric] by (auto simp: le_less)
  have "length kept \<le> length (r # spoken)" unfolding kept_def by (rule encoded_length)
  then have n: "n \<le> length kept" "n < 2 ^ 40" using assms(1) rs by (auto simp: n_def)
  have nl: "n \<le> length (opusFrames st)" using n(1) len by simp
  have d': "d = (if 20 * n < min_ms cfg then [] else encodeToOggOpus lib (take n (map fst kept)))"
    unfolding d kept_def fr [symmetric] by (rule finish_keeps [OF keep nl n(2) ne])
  have "kept \<noteq> []" using ne len by auto
  moreover have "(r # spoken) \<noteq> []" "loud cfg (hd (r # spoken))" using r by simp_all
  ultimately show ?thesis using su rs q n_def kept_def d' by blast
qed


text \<open>A configuration that records everything and stops at once, and libraries that keep lists.\<close>

definition demo_audio_cfg :: AudioConfig where
  "demo_audio_cfg = \<lparr>InputThresholdRMS = 0, InputSilenceMs = 0, InputMinRecordingMs = 20,
     InputMaxRecordingSecs = 0\<rparr>"

definition demo_mic :: "nat mic_setup" where
  "demo_mic = \<lparr>openMic = None, startMic = None, newOpusEncoder = Inr 7, setEncBitrate = (\<lambda>e b. Inr e)\<rparr>"

text \<open>An encoder whose eighth frame fails.\<close>

definition demo_opus :: "nat \<Rightarrow> 16 word list \<Rightarrow> (gostring + bytes) \<times> nat" where
  "demo_opus e s = (if e = 7 then Inl ''opus'' else Inr [of_nat e], Suc e)"

definition demo_read :: mic_read where
  "demo_read = \<lparr>rdSamples = [], tLoud = 0, tStart = 0, tMaxCheck = 0, tSilenceCheck = 0\<rparr>"

definition list_lib :: "packet list ogg_lib" where
  "list_lib = \<lparr>newPacketWriter = (\<lambda>s. []), headPacket = (\<lambda>h. []), tagsPacket = (\<lambda>v. []),
     putPacket = (\<lambda>w p g b e. w @ [\<lparr>pkData = p, pkGranule = g, pkBOS = b, pkEOS = e\<rparr>]),
     flushPackets = (\<lambda>w. w), writtenBytes = (\<lambda>w. concat (map pkData w))\<rparr>"


theorem recording_contents_witness:
  "\<exists>e0 e quiet spoken rest kept levels n.
    newOpusEncoder demo_mic = Inr e0 \<and> setEncBitrate demo_mic e0 16000 = Inr e \<and>
    [demo_read, demo_read] = quiet @ spoken @ rest \<and> spoken \<noteq> [] \<and>
    (\<forall>q \<in> set quiet. \<not> loud demo_audio_cfg q) \<and> loud demo_audio_cfg (hd spoken) \<and>
    kept = encoded demo_opus e spoken \<and> kept \<noteq> [] \<and> levels = map (level \<circ> snd) kept \<and>
    n = (if trailing_quiet (InputThresholdRMS demo_audio_cfg) levels = length kept then length kept
         else min (length kept) (length kept + 1 - trailing_quiet (InputThresholdRMS demo_audio_cfg) levels)) \<and>
    [8] = (if 20 * n < min_ms demo_audio_cfg then [] else encodeToOggOpus list_lib (take n (map fst kept)))"
proof (rule recording_contents)
  have "recordUntilSilence demo_audio_cfg demo_mic demo_opus list_lib (map Inr [demo_read, demo_read])
      = map_option (\<lambda>r. go_bind r (\<lambda>st. Return (finish_recording demo_audio_cfg list_lib st)))
          (record_loop demo_audio_cfg demo_opus (map Inr [demo_read, demo_read]) (new_rec_state 7))"
    by (simp add: recordUntilSilence_def demo_mic_def)
  also have "\<dots> = Some (Return [8])"
    by (simp add: record_turn_def loud_branch_def new_rec_state_def demo_audio_cfg_def demo_opus_def
        demo_read_def Let_def maxDuration_def go_duration_def finish_recording_def keep_frames_def
        encodeToOggOpus_def list_lib_def opusFrameSize_def opusSampleRate_def)
  finally show "recordUntilSilence demo_audio_cfg demo_mic demo_opus list_lib (map Inr [demo_read, demo_read])
      = Some (Return [8])" .
qed simp

text \<open>
  C39. A recording ends: once a loud frame has started it, the loop returns no later than at the
  first frame that the encoder accepts (\<open>enc_after\<close> is its state by then) and whose clock is
  \<open>maxDuration\<close> past the start, however loud it stays and whichever frames the encoder rejected
  before, with at most as many frames as were read from the start on. A frame the encoder rejects
  does not end it, whatever the clock says (\<open>failing_encoder_records_on\<close>).
\<close>

theorem recording_ends:
  assumes "\<forall>q \<in> set quiet. \<not> loud cfg q" and "loud cfg (hd (a @ late # b))"
    and "enc (enc_after enc e a) (downsample (rdSamples late)) = (Inr p, e')"
    and "tMaxCheck late - tStart (hd (a @ late # b)) \<ge> maxDuration cfg"
  shows "\<exists>st. record_loop cfg enc (map Inr (quiet @ a @ late # b)) (new_rec_state e) = Some (Return st) \<and>
    length (opusFrames st) \<le> length a + 1"
proof -
  have new: "\<not> recording (new_rec_state e)" "opusEncoder (new_rec_state e) = e"
    by (simp_all add: new_rec_state_def)
  then show ?thesis
    using recording_stops [OF _ _ _ assms(4), where st = "new_rec_state e" and enc = enc] assms(2,3)
      skip_quiet [OF _ assms(1), of "new_rec_state e" enc "a @ late # b"]
    by simp
qed

theorem recording_ends_witness:
  "\<exists>st. record_loop demo_audio_cfg demo_opus (map Inr ([] @ [demo_read] @ demo_read # [])) (new_rec_state 7)
      = Some (Return st) \<and> length (opusFrames st) \<le> length [demo_read] + 1"
  by (rule recording_ends [where p = "[8]" and e' = 9])
    (simp_all add: loud_def demo_audio_cfg_def demo_read_def maxDuration_def go_duration_def
      demo_opus_def enc_after_def)

text \<open>
  C40. A finished recording is well formed, encoder errors included: it has a frame, as many levels
  as frames, and the number of frames to keep lies within them, so neither the search for the last
  loud frame nor the slice that trims can index out of range.
\<close>

theorem finished_recording_well_formed:
  assumes "record_loop cfg enc rs (new_rec_state e) = Some (Return st)"
  shows "opusFrames st \<noteq> [] \<and> length (frameRMS st) = length (opusFrames st) \<and>
    0 < keep_frames th (frameRMS st) (length (opusFrames st)) \<and>
    keep_frames th (frameRMS st) (length (opusFrames st)) \<le> int (length (opusFrames st))"
proof -
  have wf: "rec_wf st \<and> recording st \<and> opusFrames st \<noteq> []" using loop_wf [OF new_rec_state_wf assms] .
  then have l: "length (frameRMS st) = length (opusFrames st)" by (simp add: rec_wf_def)
  have "0 < keep_frames th (frameRMS st) (length (frameRMS st))"
    using wf l by (auto simp: keep_frames_def Let_def)
  with wf l keep_frames_bounds(2) [of th "frameRMS st"] show ?thesis by simp
qed

theorem finished_recording_well_formed_witness:
  "\<exists>st. opusFrames st \<noteq> [] \<and> length (frameRMS st) = length (opusFrames st) \<and>
    0 < keep_frames 5 (frameRMS st) (length (opusFrames st)) \<and>
    keep_frames 5 (frameRMS st) (length (opusFrames st)) \<le> int (length (opusFrames (st :: nat rec_state)))"
proof -
  obtain st where "record_loop demo_audio_cfg demo_opus (map Inr [demo_read]) (new_rec_state 0) = Some (Return st)"
    using recording_stops [where st = "new_rec_state 0" and cfg = demo_audio_cfg and a = "[]" and late = demo_read
        and b = "[]" and start = 0 and enc = demo_opus and p = "[0]" and e' = 1]
    by (auto simp: loud_def demo_audio_cfg_def demo_read_def maxDuration_def go_duration_def
        new_rec_state_def demo_opus_def enc_after_def)
  from finished_recording_well_formed [OF this, of 5] show ?thesis by blast
qed

text \<open>
  What the emulator records it can play: if the Ogg reader returns the packets that a flushed writer
  was given, decoding a packed recording skips the two headers and decodes exactly the recorded frames
  in order; and the granule positions count the samples after the pre-skip, with the end mark on
  the last frame alone.
\<close>

theorem recording_decodes:
  assumes "keeps_packets lib packets readPackets" and "newDec 24000 1 = Inr d"
  shows "readPackets (encodeToOggOpus lib frames) = emu_packets lib frames \<and>
    decodeOggOpus newDec dec readPackets (encodeToOggOpus lib frames) =
      Return (decoded_frames (\<lambda>d b. dec d b 4800) d frames)"
proof -
  have "map pkData (map (emu_packet (length frames)) (enumerate 0 frames)) = frames"
    by (simp add: emu_packet_def comp_def case_prod_unfold)
  then show ?thesis
    using encode_packets_written [OF assms(1), of frames] assms(2)
    by (simp add: decodeOggOpus_def emu_packets_def decode_after_headers decode_packets_frames
        opusSampleRate_def opusFrameSize_def emuChannels_def del: decode_packets.simps)
qed

text \<open>A container format for the instance: each byte is marked, and a zero ends the packet.\<close>

fun mark_bytes :: "bytes \<Rightarrow> bytes" where
  "mark_bytes [] = [0]"
| "mark_bytes (b # bs) = 1 # b # mark_bytes bs"

fun unmark_bytes :: "bytes \<Rightarrow> bytes \<times> bytes" where
  "unmark_bytes (m # b # d) = (if m = 0 then ([], b # d) else (case unmark_bytes d of (bs, r) \<Rightarrow> (b # bs, r)))"
| "unmark_bytes d = ([], [])"

lemma unmark_mark: "unmark_bytes (mark_bytes bs @ r) = (bs, r)"
proof (induction bs)
  case Nil
  show ?case by (cases r) simp_all
qed simp

lemma unmark_length: "length (snd (unmark_bytes d)) \<le> length d"
  by (induction d rule: unmark_bytes.induct) (auto split: prod.splits)

definition pack :: "packet \<Rightarrow> bytes" where
  "pack p = le_bytes 8 (unat (pkGranule p)) @ [of_bool (pkBOS p), of_bool (pkEOS p)] @ mark_bytes (pkData p)"

function unpack_all :: "bytes \<Rightarrow> packet list" where
  "unpack_all d =
     (if length d < 10 then []
      else \<lparr>pkData = fst (unmark_bytes (drop 10 d)), pkGranule = of_nat (le_value (take 8 d)),
             pkBOS = (d ! 8 = 1), pkEOS = (d ! 9 = 1)\<rparr> # unpack_all (snd (unmark_bytes (drop 10 d))))"
  by pat_completeness auto
termination
proof (relation "measure length")
  fix d :: bytes assume "\<not> length d < 10"
  with unmark_length [of "drop 10 d"] show "(snd (unmark_bytes (drop 10 d)), d) \<in> measure length" by simp
qed simp

declare unpack_all.simps [simp del]

lemma unpack_pack: "unpack_all (concat (map pack ps)) = ps"
proof (induction ps)
  case Nil
  show ?case by (subst unpack_all.simps) simp
next
  case (Cons p ps)
  let ?r = "mark_bytes (pkData p) @ concat (map pack ps)"
  let ?d = "le_bytes 8 (unat (pkGranule p)) @ [of_bool (pkBOS p), of_bool (pkEOS p)] @ ?r"
  have "unpack_all ?d = \<lparr>pkData = pkData p, pkGranule = pkGranule p, pkBOS = pkBOS p, pkEOS = pkEOS p\<rparr> # ps"
    using Cons by (subst unpack_all.simps) (simp add: nth_append unmark_mark)
  then have "unpack_all (pack p @ concat (map pack ps)) = p # ps" by (simp add: pack_def [of p])
  then show ?case by simp
qed

text \<open>Its writer holds all packets back until it is flushed.\<close>

definition pack_lib :: "(packet list \<times> packet list) ogg_lib" where
  "pack_lib = \<lparr>newPacketWriter = (\<lambda>s. ([], [])), headPacket = (\<lambda>h. []), tagsPacket = (\<lambda>v. []),
     putPacket = (\<lambda>(out, pending) p g b e.
       (out, pending @ [\<lparr>pkData = p, pkGranule = g, pkBOS = b, pkEOS = e\<rparr>])),
     flushPackets = (\<lambda>(out, pending). (out @ pending, [])),
     writtenBytes = (\<lambda>(out, pending). concat (map pack out))\<rparr>"

theorem recording_decodes_witness:
  "unpack_all (encodeToOggOpus pack_lib [[1], [2, 3]]) = emu_packets pack_lib [[1], [2, 3]] \<and>
   decodeOggOpus (\<lambda>r ch. Inr ()) (\<lambda>d b n. (Inr (map ucast b), d)) unpack_all
       (encodeToOggOpus pack_lib [[1], [2, 3]])
     = Return (decoded_frames (\<lambda>d b. (Inr (map ucast b), d)) () [[1], [2, 3]])"
  by (rule recording_decodes [of pack_lib "\<lambda>(out, pending). out @ pending"])
    (simp_all add: keeps_packets_def pack_lib_def unpack_pack del: map_append concat_append)

text \<open>
  What is played: when no write fails the device gets every decoded sample twice, up to the last
  full frame of 960. Nothing is cut when the samples are whole frames of 20 ms.
\<close>

theorem played_samples:
  assumes "pcm \<noteq> []"
  shows "\<exists>fs. playOggOpus (Return pcm) None None (\<lambda>k. None) = (fs, Return ()) \<and>
    concat fs = take (960 * (length pcm div 480)) (upsample pcm) \<and>
    (concat fs = upsample pcm \<longleftrightarrow> 480 dvd length pcm)"
proof -
  obtain fs r where fs: "write_loop alsaFrameSize (\<lambda>k. None) (upsample pcm) 0 = (fs, r)" by fastforce
  have w: "r = None \<and> concat fs = take (alsaFrameSize * (length (upsample pcm) div alsaFrameSize)) (upsample pcm)"
  proof -
    have "0 < alsaFrameSize" by (simp add: alsaFrameSize_def)
    from write_loop_all [OF this refl, of 0 "upsample pcm"] show ?thesis by (simp add: fs)
  qed
  have "2 * length pcm div 960 = length pcm div 480"
    using div_mult_mult1 [of 2 "length pcm" 480] by simp
  then have c: "concat fs = take (960 * (length pcm div 480)) (upsample pcm)"
    using w by (simp add: alsaFrameSize_def)
  have "take (960 * (length pcm div 480)) (upsample pcm) = upsample pcm \<longleftrightarrow>
      2 * length pcm \<le> 960 * (length pcm div 480)"
    by (simp only: take_all_iff length_upsample)
  also have "\<dots> \<longleftrightarrow> length pcm mod 480 = 0"
    using div_mult_mod_eq [of "length pcm" 480] by arith
  also have "\<dots> \<longleftrightarrow> 480 dvd length pcm" by (simp only: dvd_eq_mod_eq_0)
  finally have e: "concat fs = upsample pcm \<longleftrightarrow> 480 dvd length pcm" by (simp only: c)
  have "playOggOpus (Return pcm) None None (\<lambda>k. None) = (fs, Return ())"
    using assms conjunct1 [OF w] by (simp add: playOggOpus_def fs)
  with c e show ?thesis by blast
qed

theorem played_samples_witness:
  "\<exists>fs. playOggOpus (Return [5, 7]) None None (\<lambda>k. None) = (fs, Return ()) \<and>
    concat fs = take (960 * (length [5, 7 :: 16 word] div 480)) (upsample [5, 7]) \<and>
    (concat fs = upsample [5, 7] \<longleftrightarrow> 480 dvd length [5, 7 :: 16 word])"
  by (rule played_samples) simp

end
