(* ===== verification/Recorder.thy ===== *)
theory Recorder
  imports EmuAudio "HOL-Library.Sublist"
begin

text \<open>
  The emulator's recorder, \<open>app/radio-bridge-emulator/recorder.go\<close>: recordings are broadcast to the
  subscribers' channels, each of capacity 8, and dropped for a subscriber whose channel is full. The
  mutex makes \<open>subscribe\<close> and \<open>broadcast\<close> atomic; each gRPC connection subscribes once and receives
  from its channel.

  The connections see the recorder through the locale \<open>lossy_hub\<close>.
\<close>

section \<open>The recorder\<close>

record recorder =
  recCfg :: AudioConfig
  subs :: "bytes list list"

definition newRecorder :: "AudioConfig \<Rightarrow> recorder" where
  "newRecorder cfg = \<lparr>recCfg = cfg, subs = []\<rparr>"

definition subChanCap :: nat where
  "subChanCap = 8"

text \<open>\<open>subscribe\<close> returns the new channel, here its index in \<open>subs\<close>.\<close>

definition subscribe :: "recorder \<Rightarrow> nat \<times> recorder" where
  "subscribe r = (length (subs r), r\<lparr>subs := subs r @ [[]]\<rparr>)"

definition broadcast :: "bytes \<Rightarrow> recorder \<Rightarrow> recorder" where
  "broadcast d r = r\<lparr>subs := map (\<lambda>ch. if length ch < subChanCap then ch @ [d] else ch) (subs r)\<rparr>"

text \<open>One turn of \<open>run\<close>: what \<open>recordUntilSilence\<close> returned is broadcast unless it is an error or nil.\<close>

definition run_turn :: "bytes go \<Rightarrow> recorder \<Rightarrow> recorder" where
  "run_turn result r =
     (case result of
        Return d \<Rightarrow> if d = [] then r else broadcast d r
      | _ \<Rightarrow> r)"

text \<open>The receiving end: the connection's goroutine takes the oldest recording of its channel.\<close>

definition take_sub :: "nat \<Rightarrow> recorder \<Rightarrow> recorder" where
  "take_sub i r = r\<lparr>subs := (subs r)[i := tl (subs r ! i)]\<rparr>"

section \<open>The interface\<close>

locale lossy_hub =
  fixes join :: "'h \<Rightarrow> nat \<times> 'h"
    and publish :: "'d \<Rightarrow> 'h \<Rightarrow> 'h"
    and take_one :: "nat \<Rightarrow> 'h \<Rightarrow> 'h"
    and pending :: "'h \<Rightarrow> 'd list list"
    and cap :: nat
  assumes join_index: "fst (join h) = length (pending h)"
    and pending_join: "pending (snd (join h)) = pending h @ [[]]"
    and length_publish: "length (pending (publish d h)) = length (pending h)"
    and pending_publish: "i < length (pending h) \<Longrightarrow> pending (publish d h) ! i =
          (if length (pending h ! i) < cap then pending h ! i @ [d] else pending h ! i)"
    and pending_take: "pending (take_one j h) = (pending h)[j := tl (pending h ! j)]"
begin

text \<open>
  What subscriber \<open>i\<close> has got and has pending, of what was published since it joined: a subsequence,
  and all of it unless its channel was found full.
\<close>

definition serves :: "'h \<Rightarrow> nat \<Rightarrow> 'd list \<Rightarrow> 'd list \<Rightarrow> bool \<Rightarrow> bool" where
  "serves h i got sent lost \<longleftrightarrow> length (pending h ! i) \<le> cap \<and>
     subseq (got @ pending h ! i) sent \<and> (lost \<or> got @ pending h ! i = sent)"

lemma serves_join:
  "i < length (pending h) \<Longrightarrow> serves (snd (join h)) i g s l = serves h i g s l"
  "serves (snd (join h)) (fst (join h)) [] [] False"
  by (simp_all add: serves_def pending_join join_index nth_append)

lemma serves_publish:
  assumes "i < length (pending h)" and "serves h i g s l"
  shows "serves (publish d h) i g (s @ [d]) (l \<or> cap \<le> length (pending h ! i))"
proof (cases "length (pending h ! i) < cap")
  case True
  with assms show ?thesis
    by (auto simp: serves_def pending_publish simp flip: append_assoc)
next
  case False
  with assms show ?thesis
    by (auto simp: serves_def pending_publish intro: subseq_rev_drop_many)
qed

lemma serves_take:
  assumes "i < length (pending h)" and "serves h i g s l" and "pending h ! i \<noteq> []"
  shows "serves (take_one i h) i (g @ [hd (pending h ! i)]) s l"
  using assms by (cases "pending h ! i") (auto simp: serves_def pending_take)

lemma serves_take_other:
  "i \<noteq> j \<Longrightarrow> serves (take_one j h) i g s l = serves h i g s l"
  by (simp add: serves_def pending_take)

end

interpretation hub: lossy_hub subscribe broadcast take_sub subs subChanCap
  by unfold_locales (simp_all add: subscribe_def broadcast_def take_sub_def)

section \<open>Runs\<close>

text \<open>
  Any interleaving of new connections, finished recordings, and connections that take a recording.
  Beside the recorder, for each subscriber: what it got, what was published since it subscribed, and
  whether its channel was ever found full.
\<close>

datatype hub_op = ConnectOp | RecordedOp "bytes go" | TakeOp nat

record hub_state =
  hubRec :: recorder
  hubGot :: "nat \<Rightarrow> bytes list"
  hubSent :: "nat \<Rightarrow> bytes list"
  hubLost :: "nat \<Rightarrow> bool"

definition hub_init :: "AudioConfig \<Rightarrow> hub_state" where
  "hub_init cfg = \<lparr>hubRec = newRecorder cfg, hubGot = (\<lambda>i. []), hubSent = (\<lambda>i. []), hubLost = (\<lambda>i. False)\<rparr>"

definition published :: "bytes go \<Rightarrow> bytes list" where
  "published result = (case result of Return d \<Rightarrow> if d = [] then [] else [d] | _ \<Rightarrow> [])"

fun hub_step :: "hub_op \<Rightarrow> hub_state \<Rightarrow> hub_state" where
  "hub_step ConnectOp s = s\<lparr>hubRec := snd (subscribe (hubRec s))\<rparr>"
| "hub_step (RecordedOp result) s =
     (let n = length (subs (hubRec s)); p = published result
      in s\<lparr>hubRec := run_turn result (hubRec s),
           hubSent := (\<lambda>i. if i < n then hubSent s i @ p else hubSent s i),
           hubLost := (\<lambda>i. hubLost s i \<or> i < n \<and> p \<noteq> [] \<and> subChanCap \<le> length (subs (hubRec s) ! i))\<rparr>)"
| "hub_step (TakeOp i) s =
     (if i < length (subs (hubRec s)) \<and> subs (hubRec s) ! i \<noteq> [] then
        s\<lparr>hubRec := take_sub i (hubRec s),
          hubGot := (hubGot s)(i := hubGot s i @ [hd (subs (hubRec s) ! i)])\<rparr>
      else s)"

definition hub_run :: "AudioConfig \<Rightarrow> hub_op list \<Rightarrow> hub_state" where
  "hub_run cfg ops = fold hub_step ops (hub_init cfg)"

definition hub_inv :: "hub_state \<Rightarrow> bool" where
  "hub_inv s \<longleftrightarrow>
     (\<forall>i. if i < length (subs (hubRec s)) then hub.serves (hubRec s) i (hubGot s i) (hubSent s i) (hubLost s i)
          else hubGot s i = [] \<and> hubSent s i = [] \<and> \<not> hubLost s i)"

lemma hub_inv_init: "hub_inv (hub_init cfg)"
  by (simp add: hub_inv_def hub_init_def newRecorder_def)

lemma hub_inv_connect:
  assumes "hub_inv s"
  shows "hub_inv (hub_step ConnectOp s)"
proof -
  let ?r = "hubRec s"
  have "if i < length (subs (snd (subscribe ?r)))
      then hub.serves (snd (subscribe ?r)) i (hubGot s i) (hubSent s i) (hubLost s i)
      else hubGot s i = [] \<and> hubSent s i = [] \<and> \<not> hubLost s i" for i
  proof -
    consider "i < length (subs ?r)" | "i = length (subs ?r)" | "length (subs ?r) < i" by linarith
    then show ?thesis
    proof cases
      case 1
      with assms show ?thesis by (simp add: hub_inv_def hub.serves_join(1) hub.pending_join)
    next
      case 2
      with assms have "hubGot s i = []" "hubSent s i = []" "\<not> hubLost s i" by (simp_all add: hub_inv_def)
      with 2 hub.serves_join(2) [of ?r] show ?thesis by (simp add: hub.join_index hub.pending_join)
    next
      case 3
      with assms show ?thesis by (simp add: hub_inv_def hub.pending_join)
    qed
  qed
  then show ?thesis by (simp add: hub_inv_def)
qed

lemma hub_inv_recorded:
  assumes "hub_inv s"
  shows "hub_inv (hub_step (RecordedOp result) s)"
proof (cases "published result = []")
  case True
  then have "run_turn result (hubRec s) = hubRec s"
    by (auto simp: published_def run_turn_def split: go.splits if_splits)
  with True assms show ?thesis by (simp add: hub_inv_def)
next
  case False
  then obtain d where "published result = [d]" "run_turn result (hubRec s) = broadcast d (hubRec s)"
    by (auto simp: published_def run_turn_def split: go.splits if_splits)
  with assms show ?thesis by (simp add: hub_inv_def hub.length_publish hub.serves_publish Let_def)
qed

lemma hub_inv_take:
  assumes "hub_inv s"
  shows "hub_inv (hub_step (TakeOp j) s)"
proof (cases "j < length (subs (hubRec s)) \<and> subs (hubRec s) ! j \<noteq> []")
  case True
  have "length (subs (take_sub j (hubRec s))) = length (subs (hubRec s))"
    by (simp add: hub.pending_take)
  with True assms show ?thesis
    by (auto simp: hub_inv_def hub.serves_take hub.serves_take_other)
qed (use assms in auto)

lemma hub_inv_run: "hub_inv (hub_run cfg ops)"
proof -
  have "hub_inv s \<Longrightarrow> hub_inv (fold hub_step ops s)" for s
  proof (induction ops arbitrary: s)
    case (Cons x ops)
    then show ?case
      by (cases x) (simp_all add: hub_inv_connect hub_inv_recorded hub_inv_take del: hub_step.simps)
  qed simp
  then show ?thesis by (simp add: hub_run_def hub_inv_init)
qed

section \<open>Properties\<close>

text \<open>
  C15. Recordings reach the connections: in any interleaving of connections, recordings and receives,
  what a subscriber got followed by what waits in its channel (never more than 8) is a subsequence of
  the recordings broadcast since it subscribed, in order; and it is all of them unless a broadcast
  found its channel full. Failed and discarded recordings are never broadcast.
\<close>

theorem recordings_delivered:
  assumes "i < length (subs (hubRec (hub_run cfg ops)))"
  shows "length (subs (hubRec (hub_run cfg ops)) ! i) \<le> 8 \<and>
    subseq (hubGot (hub_run cfg ops) i @ subs (hubRec (hub_run cfg ops)) ! i) (hubSent (hub_run cfg ops) i) \<and>
    (hubLost (hub_run cfg ops) i \<or>
     hubGot (hub_run cfg ops) i @ subs (hubRec (hub_run cfg ops)) ! i = hubSent (hub_run cfg ops) i)"
proof -
  have "hub.serves (hubRec (hub_run cfg ops)) i (hubGot (hub_run cfg ops) i)
      (hubSent (hub_run cfg ops) i) (hubLost (hub_run cfg ops) i)"
    using hub_inv_run [of cfg ops] assms by (simp add: hub_inv_def)
  then show ?thesis unfolding hub.serves_def by (simp add: subChanCap_def)
qed

theorem recordings_delivered_witness:
  "let s = hub_run demo_audio_cfg [ConnectOp, RecordedOp (Return [1]), RecordedOp (Error ''e''),
      ConnectOp, RecordedOp (Return [2]), TakeOp 0] in
   length (subs (hubRec s) ! 0) \<le> 8 \<and> subseq (hubGot s 0 @ subs (hubRec s) ! 0) (hubSent s 0) \<and>
   (hubLost s 0 \<or> hubGot s 0 @ subs (hubRec s) ! 0 = hubSent s 0)"
  unfolding Let_def
  by (rule recordings_delivered)
    (simp add: hub_run_def hub_init_def newRecorder_def subscribe_def run_turn_def broadcast_def
      take_sub_def published_def subChanCap_def Let_def)

end
