(* ===== verification/EmuMain.thy ===== *)
theory EmuMain
  imports Recorder EmuServer
begin

text \<open>
  The emulator as a whole, \<open>main.go\<close> and \<open>config.go\<close> of \<open>app/radio-bridge-emulator\<close>, and the life of a
  connection, which subscribes to the recorder, forwards recordings and queues received audio.
\<close>

record EmuConfig =
  emuListenAddr :: gostring
  emuAudio :: AudioConfig

definition LoadEmuConfig :: "(gostring \<Rightarrow> EmuConfig go) \<Rightarrow> gostring \<Rightarrow> EmuConfig go" where
  "LoadEmuConfig decode path = decode path"

record emulator =
  emRecorder :: recorder
  emPlayer :: player
  emAddr :: gostring

text \<open>
  \<open>main\<close> up to serving: the outcomes of the TOML decoder, of initialising the sound device and of
  listening; each error is fatal.
\<close>

definition emu_build ::
  "(gostring \<Rightarrow> EmuConfig go) \<Rightarrow> gostring option \<Rightarrow> (gostring \<Rightarrow> gostring option) \<Rightarrow> gostring list \<Rightarrow> emulator go" where
  "emu_build decode audioErr listenErr args =
     (let configPath = (if length args > 1 then args ! 1 else ''config.toml'')
      in go_bind (go_wrap ''LoadConfig'' (LoadEmuConfig decode configPath)) (\<lambda>cfg.
         case audioErr of
           Some e \<Rightarrow> Error (''portaudio init: '' @ e)
         | None \<Rightarrow>
             (case listenErr (emuListenAddr cfg) of
                Some e \<Rightarrow> Error (''listen: '' @ e)
              | None \<Rightarrow> Return \<lparr>emRecorder = newRecorder (emuAudio cfg), emPlayer = newPlayer,
                          emAddr = emuListenAddr cfg\<rparr>)))"

text \<open>
  \<open>main\<close>: the parts are built, then \<open>Serve\<close> runs until it fails, which is fatal, or until a signal
  stops it (\<open>serveErr\<close> is then \<open>None\<close>).
\<close>

definition emu_main ::
  "(gostring \<Rightarrow> EmuConfig go) \<Rightarrow> gostring option \<Rightarrow> (gostring \<Rightarrow> gostring option) \<Rightarrow> gostring option
     \<Rightarrow> gostring list \<Rightarrow> unit go" where
  "emu_main decode audioErr listenErr serveErr args =
     go_bind (emu_build decode audioErr listenErr args) (\<lambda>em.
       case serveErr of
         Some e \<Rightarrow> Error (''grpc serve: '' @ e)
       | None \<Rightarrow> Return ())"

text \<open>What a call of \<open>Connect\<close> does first; the rest is \<open>forward_loop\<close> and \<open>recv_loop\<close>.\<close>

definition connect_begin :: "emulator \<Rightarrow> nat \<times> emulator" where
  "connect_begin em = (case subscribe (emRecorder em) of (i, r) \<Rightarrow> (i, em\<lparr>emRecorder := r\<rparr>))"

definition connect_receive :: "(recv \<times> bool) list \<Rightarrow> emulator \<Rightarrow> gostring option option \<times> emulator" where
  "connect_receive evs em = (case connect_recv evs (emPlayer em) of (r, p) \<Rightarrow> (r, em\<lparr>emPlayer := p\<rparr>))"

text \<open>
  A connection never gives its channel back: after any number of connections one after the other, all
  of them are still subscribed, and each new one gets a channel of its own.
\<close>

fun connections :: "(recv \<times> bool) list list \<Rightarrow> emulator \<Rightarrow> nat list \<times> emulator" where
  "connections [] em = ([], em)"
| "connections (evs # es) em =
     (case connect_begin em of (i, em) \<Rightarrow>
      case connect_receive evs em of (r, em) \<Rightarrow>
      case connections es em of (is, em) \<Rightarrow> (i # is, em))"

lemma connections_subscribe:
  "length (subs (emRecorder (snd (connections es em)))) = length (subs (emRecorder em)) + length es"
proof (induction es arbitrary: em)
  case (Cons evs es)
  let ?em = "snd (connect_receive evs (snd (connect_begin em)))"
  have l: "length (subs (emRecorder ?em)) = Suc (length (subs (emRecorder em)))"
    by (simp add: connect_receive_def connect_begin_def subscribe_def case_prod_unfold)
  have "connections (evs # es) em =
      (fst (connect_begin em) # fst (connections es ?em), snd (connections es ?em))"
    by (simp add: case_prod_unfold)
  with Cons.IH [of ?em] l show ?case by (simp del: connections.simps)
qed simp

section \<open>Properties\<close>

text \<open>
  Subscriptions outlive their connections: after \<open>n\<close> connections, ended or not, the recorder has
  \<open>n\<close> more channels and every later recording is copied to each of them until it is full.
\<close>

theorem subscriptions_leak:
  "length (subs (broadcast d (emRecorder (snd (connections es em))))) =
     length (subs (emRecorder em)) + length es"
  using connections_subscribe [of es em] by (simp add: broadcast_def)

end
