(* ===== verification/RbQueue.thy ===== *)
theory RbQueue
  imports Playback
begin

text \<open>
  The queue of the radio bridge itself, \<open>app/radio-bridge/src/queue.rs\<close>, the program the emulator
  stands for. It bounds what it takes in: a chunk is refused when its stream is closed, when its
  length cannot be read from its granule positions or is too long, or when too many streams wait.
  Apart from these refusals it is the emulator's queue; the section on the emulator makes this a
  theorem over whole runs.
\<close>

section \<open>Data\<close>

datatype RbStatus = RbOneshot | RbStart | RbContinue | RbEnd

record AudioEntry =
  ogg_opus_data :: bytes
  duration :: nat
  rb_status :: RbStatus

record AudioQueue =
  rb_order :: "gostring list"
  rb_streams :: "gostring \<rightharpoonup> AudioEntry list"
  max_streams :: nat
  max_duration :: nat
  rb_closed_order :: "gostring list"
  rb_closed_set :: "gostring set"

datatype QueueError = TooLong nat | QueueFull nat | ParseError gostring | StreamClosed gostring

definition MAX_CLOSED_STREAMS :: nat where
  "MAX_CLOSED_STREAMS = 16"

text \<open>Durations are counted in nanoseconds.\<close>

definition new_queue :: "nat \<Rightarrow> nat \<Rightarrow> AudioQueue" where
  "new_queue n secs = \<lparr>rb_order = [], rb_streams = Map.empty, max_streams = n,
     max_duration = secs * 1000000000, rb_closed_order = [], rb_closed_set = {}\<rparr>"

section \<open>The length of a chunk\<close>

text \<open>
  \<open>read\<close> is the Ogg library on the chunk: the granule positions of the pages of the packets it reads,
  and the error that ends the reading, if one does. \<open>nanos g\<close> is the duration of \<open>g\<close> samples at 48 kHz,
  rounded as the standard library rounds the \<open>f64\<close> quotient.
\<close>

fun last_granule :: "64 word list \<Rightarrow> 64 word option \<Rightarrow> 64 word option" where
  "last_granule [] g = g"
| "last_granule (p # ps) g = last_granule ps (if p \<noteq> 0 then Some p else g)"

definition parse_ogg_opus_duration ::
  "(bytes \<Rightarrow> 64 word list \<times> gostring option) \<Rightarrow> (64 word \<Rightarrow> nat) \<Rightarrow> bytes \<Rightarrow> gostring + nat" where
  "parse_ogg_opus_duration read nanos d =
     (case read d of
        (ps, Some e) \<Rightarrow> Inl e
      | (ps, None) \<Rightarrow>
          (case last_granule ps None of
             None \<Rightarrow> Inl ''no granule position found''
           | Some g \<Rightarrow> Inr (nanos g)))"

section \<open>Operations\<close>

text \<open>\<open>parse\<close> is \<open>parse_ogg_opus_duration\<close>.\<close>

definition rb_push ::
  "(bytes \<Rightarrow> gostring + nat) \<Rightarrow> bytes \<Rightarrow> RbStatus \<Rightarrow> gostring \<Rightarrow> AudioQueue
     \<Rightarrow> (QueueError + nat) \<times> AudioQueue" where
  "rb_push parse d st sid q =
     (if sid \<in> rb_closed_set q then (Inl (StreamClosed sid), q)
      else case parse d of
        Inl e \<Rightarrow> (Inl (ParseError e), q)
      | Inr dur \<Rightarrow>
          if max_duration q < dur then (Inl (TooLong dur), q)
          else if rb_streams q sid = None \<and> max_streams q \<le> length (rb_order q) then
            (Inl (QueueFull (max_streams q)), q)
          else
            let entry = \<lparr>ogg_opus_data = d, duration = dur, rb_status = st\<rparr>
            in case rb_streams q sid of
                 None \<Rightarrow> (Inr 1, q\<lparr>rb_order := rb_order q @ [sid],
                   rb_streams := (rb_streams q)(sid \<mapsto> [entry])\<rparr>)
               | Some es \<Rightarrow> (Inr (length (es @ [entry])),
                   q\<lparr>rb_streams := (rb_streams q)(sid \<mapsto> es @ [entry])\<rparr>))"

definition current_stream :: "AudioQueue \<Rightarrow> gostring option" where
  "current_stream q = (case rb_order q of [] \<Rightarrow> None | sid # _ \<Rightarrow> Some sid)"

definition current_has_chunk :: "AudioQueue \<Rightarrow> bool" where
  "current_has_chunk q =
     (case rb_order q of
        sid # _ \<Rightarrow> (case rb_streams q sid of Some es \<Rightarrow> es \<noteq> [] | None \<Rightarrow> False)
      | [] \<Rightarrow> False)"

definition pop_current :: "AudioQueue \<Rightarrow> AudioEntry option \<times> AudioQueue" where
  "pop_current q =
     (case rb_order q of
        [] \<Rightarrow> (None, q)
      | sid # _ \<Rightarrow>
          (case rb_streams q sid of
             None \<Rightarrow> (None, q)
           | Some [] \<Rightarrow> (None, q)
           | Some (e # es) \<Rightarrow> (Some e, q\<lparr>rb_streams := (rb_streams q)(sid \<mapsto> es)\<rparr>)))"

text \<open>The eviction loop of \<open>mark_closed\<close>.\<close>

fun evict :: "gostring list \<Rightarrow> gostring set \<Rightarrow> gostring list \<times> gostring set" where
  "evict [] s = ([], s)"
| "evict (old # rest) s =
     (if length (old # rest) > MAX_CLOSED_STREAMS then evict rest (s - {old}) else (old # rest, s))"

definition mark_closed :: "gostring \<Rightarrow> AudioQueue \<Rightarrow> AudioQueue" where
  "mark_closed sid q =
     (if sid = '''' \<or> sid \<in> rb_closed_set q then q
      else case evict (rb_closed_order q @ [sid]) (insert sid (rb_closed_set q)) of
             (os, s) \<Rightarrow> q\<lparr>rb_closed_order := os, rb_closed_set := s\<rparr>)"

definition finish_current :: "AudioQueue \<Rightarrow> AudioQueue" where
  "finish_current q =
     (case rb_order q of
        [] \<Rightarrow> q
      | sid # rest \<Rightarrow> mark_closed sid (q\<lparr>rb_order := rest, rb_streams := (rb_streams q)(sid := None)\<rparr>))"

definition has_stream :: "AudioQueue \<Rightarrow> bool" where
  "has_stream q \<longleftrightarrow> rb_order q \<noteq> []"

section \<open>The emulator's view\<close>

fun proto_status :: "RbStatus \<Rightarrow> StreamStatus" where
  "proto_status RbOneshot = ONESHOT"
| "proto_status RbStart = START"
| "proto_status RbContinue = CONTINUE"
| "proto_status RbEnd = END"

definition rb_terminal :: "RbStatus \<Rightarrow> bool" where
  "rb_terminal st \<longleftrightarrow> st = RbEnd \<or> st = RbOneshot"

definition emu_entry :: "AudioEntry \<Rightarrow> playerEntry" where
  "emu_entry e = \<lparr>data = ogg_opus_data e, status = proto_status (rb_status e)\<rparr>"

definition player_of :: "AudioQueue \<Rightarrow> player" where
  "player_of q = \<lparr>order = rb_order q, streams = (\<lambda>sid. map_option (map emu_entry) (rb_streams q sid)),
     closedOrder = rb_closed_order q, closedSet = rb_closed_set q\<rparr>"

lemma player_of_fields [simp]:
  "order (player_of q) = rb_order q" "closedOrder (player_of q) = rb_closed_order q"
  "closedSet (player_of q) = rb_closed_set q"
  "streams (player_of q) sid = map_option (map emu_entry) (rb_streams q sid)"
  by (simp_all add: player_of_def)

lemma valid_proto_status [simp]: "valid_status (proto_status st)"
  by (cases st) auto

lemma terminal_proto_status [simp]: "is_terminal (proto_status st) = rb_terminal st"
  by (cases st) (auto simp: rb_terminal_def)

lemma evict_is_evict_closed: "evict os s = evict_closed os s"
  by (induction os s rule: evict.induct) (auto simp: MAX_CLOSED_STREAMS_def maxClosedStreams_def)

lemma new_queue_player [simp]: "player_of (new_queue n secs) = newPlayer"
  by (simp add: player_of_def new_queue_def newPlayer_def)

text \<open>A chunk that is taken in is taken in as the emulator does; a refused one changes nothing.\<close>

lemma push_taken:
  assumes "rb_push parse d st sid q = (Inr n, q')"
  shows "player_of q' = push d (proto_status st) sid (player_of q)"
  using assms
  by (auto simp: rb_push_def push_def player_of_def emu_entry_def Let_def fun_eq_iff
      split: if_splits sum.splits option.splits)

lemma push_refused: "rb_push parse d st sid q = (Inl e, q') \<Longrightarrow> q' = q"
  by (auto simp: rb_push_def Let_def split: if_splits sum.splits option.splits)

lemma push_closed: "fst (rb_push parse d st sid q) = Inl (StreamClosed s) \<longleftrightarrow> sid \<in> rb_closed_set q \<and> s = sid"
  by (auto simp: rb_push_def Let_def split: sum.splits option.splits)

lemma current_stream_player: "currentStream (player_of q) = (case current_stream q of None \<Rightarrow> '''' | Some s \<Rightarrow> s)"
  by (simp add: currentStream_def current_stream_def split: list.splits)

lemma pop_player:
  assumes "player_inv (player_of q)"
  shows "popCurrent (player_of q) = (map_option emu_entry (fst (pop_current q)), player_of (snd (pop_current q)))"
proof (cases "rb_order q")
  case Nil
  then show ?thesis by (simp add: popCurrent_def pop_current_def currentStream_def)
next
  case (Cons sid rest)
  then have "sid \<noteq> ''''" using assms by (auto simp: player_inv_def)
  with Cons show ?thesis
    by (auto simp: popCurrent_def pop_current_def currentStream_def stream_chunks_def Let_def
        player_of_def fun_eq_iff split: option.splits list.splits)
qed

lemma mark_closed_player: "player_of (mark_closed sid q) = markClosed sid (player_of q)"
  by (auto simp: mark_closed_def markClosed_def evict_is_evict_closed player_of_def split: prod.splits)

lemma finish_player: "player_of (finish_current q) = finishCurrent (player_of q)"
proof (cases "rb_order q")
  case (Cons sid rest)
  have "player_of (q\<lparr>rb_order := rest, rb_streams := (rb_streams q)(sid := None)\<rparr>)
      = (player_of q)\<lparr>order := rest, streams := (streams (player_of q))(sid := None)\<rparr>"
    by (auto simp: player_of_def fun_eq_iff)
  with Cons show ?thesis by (simp add: finish_current_def finishCurrent_def mark_closed_player)
qed (simp add: finish_current_def finishCurrent_def)

lemma has_stream_player: "hasStream (player_of q) = has_stream q"
  by (simp add: hasStream_def has_stream_def)

lemma current_has_chunk_player:
  assumes "player_inv (player_of q)"
  shows "currentHasChunk (player_of q) = current_has_chunk q"
proof (cases "rb_order q")
  case (Cons sid rest)
  then have "sid \<noteq> ''''" using assms by (auto simp: player_inv_def)
  with Cons show ?thesis
    by (simp add: currentHasChunk_def current_has_chunk_def currentStream_def stream_chunks_def Let_def
        split: option.splits)
qed (simp add: currentHasChunk_def current_has_chunk_def currentStream_def)

section \<open>Runs\<close>

text \<open>Every operation runs under the queue's mutex, so the tasks that share it make one sequence of them.\<close>

datatype queue_op = QPush bytes RbStatus gostring | QPop | QFinish

fun rb_run ::
  "(bytes \<Rightarrow> gostring + nat) \<Rightarrow> queue_op list \<Rightarrow> AudioQueue \<Rightarrow> AudioEntry option list \<times> AudioQueue" where
  "rb_run parse [] q = ([], q)"
| "rb_run parse (QPush d st sid # ops) q = rb_run parse ops (snd (rb_push parse d st sid q))"
| "rb_run parse (QPop # ops) q =
     (case pop_current q of (e, q') \<Rightarrow> (case rb_run parse ops q' of (es, r) \<Rightarrow> (e # es, r)))"
| "rb_run parse (QFinish # ops) q = rb_run parse ops (finish_current q)"

text \<open>The same operations on the emulator's player.\<close>

fun emu_run :: "queue_op list \<Rightarrow> player \<Rightarrow> playerEntry option list \<times> player" where
  "emu_run [] p = ([], p)"
| "emu_run (QPush d st sid # ops) p = emu_run ops (push d (proto_status st) sid p)"
| "emu_run (QPop # ops) p =
     (case popCurrent p of (e, p') \<Rightarrow> (case emu_run ops p' of (es, r) \<Rightarrow> (e # es, r)))"
| "emu_run (QFinish # ops) p = emu_run ops (finishCurrent p)"

text \<open>The pushes the bridge refuses for a limit; those for closed streams the emulator refuses too.\<close>

fun limit_error :: "QueueError + nat \<Rightarrow> bool" where
  "limit_error (Inr n) = False"
| "limit_error (Inl (StreamClosed s)) = False"
| "limit_error (Inl e) = True"

fun within_limits :: "(bytes \<Rightarrow> gostring + nat) \<Rightarrow> queue_op list \<Rightarrow> AudioQueue \<Rightarrow> queue_op list" where
  "within_limits parse [] q = []"
| "within_limits parse (QPush d st sid # ops) q =
     (case rb_push parse d st sid q of (r, q') \<Rightarrow>
        (if limit_error r then [] else [QPush d st sid]) @ within_limits parse ops q')"
| "within_limits parse (QPop # ops) q = QPop # within_limits parse ops (snd (pop_current q))"
| "within_limits parse (QFinish # ops) q = QFinish # within_limits parse ops (finish_current q)"

fun has_id :: "queue_op \<Rightarrow> bool" where
  "has_id (QPush d st sid) = (sid \<noteq> '''')"
| "has_id QPop = True"
| "has_id QFinish = True"

lemma push_simulated:
  "\<not> limit_error (fst (rb_push parse d st sid q)) \<Longrightarrow>
   player_of (snd (rb_push parse d st sid q)) = push d (proto_status st) sid (player_of q)"
proof (cases "rb_push parse d st sid q")
  case (Pair r q')
  assume ok: "\<not> limit_error (fst (rb_push parse d st sid q))"
  show ?thesis
  proof (cases r)
    case (Inr n)
    with Pair push_taken show ?thesis by simp
  next
    case (Inl e)
    with ok Pair obtain s where "e = StreamClosed s" by (cases e) auto
    then have "sid \<in> rb_closed_set q" using push_closed [of parse d st sid q s] Pair Inl by simp
    then have "push d (proto_status st) sid (player_of q) = player_of q" by (intro push_dropped) simp
    moreover have "q' = q" using Pair Inl push_refused by blast
    ultimately show ?thesis using Pair by simp
  qed
qed

lemma push_over_limit:
  "limit_error (fst (rb_push parse d st sid q)) \<Longrightarrow> snd (rb_push parse d st sid q) = q"
  using push_refused [of parse d st sid q]
  by (cases "rb_push parse d st sid q"; cases "fst (rb_push parse d st sid q)") auto

lemma run_simulated:
  "player_inv (player_of q) \<Longrightarrow> \<forall>op \<in> set ops. has_id op \<Longrightarrow>
   emu_run (within_limits parse ops q) (player_of q) =
     (map (map_option emu_entry) (fst (rb_run parse ops q)), player_of (snd (rb_run parse ops q)))"
proof (induction ops arbitrary: q)
  case (Cons op ops)
  show ?case
  proof (cases op)
    case (QPush d st sid)
    let ?q = "snd (rb_push parse d st sid q)"
    show ?thesis
    proof (cases "limit_error (fst (rb_push parse d st sid q))")
      case True
      with Cons QPush push_over_limit [OF True] show ?thesis by (simp add: case_prod_unfold)
    next
      case False
      then have "player_of ?q = push d (proto_status st) sid (player_of q)" by (rule push_simulated)
      moreover from this have "player_inv (player_of ?q)" using Cons.prems QPush by (simp add: push_inv)
      ultimately show ?thesis using Cons.IH [of ?q] Cons.prems QPush False by (simp add: case_prod_unfold)
    qed
  next
    case QPop
    have "player_inv (player_of (snd (pop_current q)))"
      using popCurrent_inv [OF Cons.prems(1)] pop_player [OF Cons.prems(1)] by simp
    then show ?thesis
      using Cons.IH [of "snd (pop_current q)"] Cons.prems QPop pop_player [OF Cons.prems(1)]
      by (simp add: case_prod_unfold)
  next
    case QFinish
    have "player_inv (player_of (finish_current q))"
      using finishCurrent_inv [OF Cons.prems(1)] by (simp add: finish_player)
    then show ?thesis
      using Cons.IH [of "finish_current q"] Cons.prems QFinish by (simp add: finish_player)
  qed
qed simp

section \<open>Bounds\<close>

definition rb_inv :: "AudioQueue \<Rightarrow> bool" where
  "rb_inv q \<longleftrightarrow> player_inv (player_of q) \<and> length (rb_order q) \<le> max_streams q
     \<and> (\<forall>sid es e. rb_streams q sid = Some es \<and> e \<in> set es \<longrightarrow> duration e \<le> max_duration q)"

lemma rb_inv_push:
  assumes "rb_inv q" and "sid \<noteq> ''''"
  shows "rb_inv (snd (rb_push parse d st sid q))"
proof (cases "fst (rb_push parse d st sid q)")
  case (Inl e)
  then have "snd (rb_push parse d st sid q) = q"
    using push_refused [of parse d st sid q e "snd (rb_push parse d st sid q)"] by (metis prod.collapse)
  with assms show ?thesis by simp
next
  case (Inr n)
  then have "player_of (snd (rb_push parse d st sid q)) = push d (proto_status st) sid (player_of q)"
    by (intro push_simulated) simp
  then have "player_inv (player_of (snd (rb_push parse d st sid q)))"
    using assms by (simp add: push_inv rb_inv_def)
  with assms Inr show ?thesis
    by (auto simp: rb_inv_def rb_push_def Let_def split: if_splits sum.splits option.splits)
qed

lemma pop_fields:
  "rb_order (snd (pop_current q)) = rb_order q" "max_streams (snd (pop_current q)) = max_streams q"
  "max_duration (snd (pop_current q)) = max_duration q"
  "rb_streams (snd (pop_current q)) sid = Some es \<Longrightarrow> \<exists>es'. rb_streams q sid = Some es' \<and> set es \<subseteq> set es'"
  by (auto simp: pop_current_def split: list.splits option.splits if_splits)

lemma mark_closed_fields [simp]:
  "rb_order (mark_closed sid q) = rb_order q" "rb_streams (mark_closed sid q) = rb_streams q"
  "max_streams (mark_closed sid q) = max_streams q" "max_duration (mark_closed sid q) = max_duration q"
  by (simp_all add: mark_closed_def split: prod.splits)

lemma rb_inv_pop: "rb_inv q \<Longrightarrow> rb_inv (snd (pop_current q))"
  using popCurrent_inv [of "player_of q"] pop_player [of q] pop_fields(4) [of q]
  unfolding rb_inv_def pop_fields by fastforce

lemma rb_inv_finish: "rb_inv q \<Longrightarrow> rb_inv (finish_current q)"
  using finishCurrent_inv [of "player_of q"]
  by (auto simp: rb_inv_def finish_player [symmetric])
    (auto simp: finish_current_def split: list.splits if_splits)

text \<open>
  The bridge's queue offers its controller what the emulator's offers the playback goroutine, with the
  entries in the emulator's form.
\<close>

definition rb_deq :: "AudioQueue \<Rightarrow> playerEntry option \<times> AudioQueue" where
  "rb_deq q = (map_option emu_entry (fst (pop_current q)), snd (pop_current q))"

definition rb_repr :: "AudioQueue \<Rightarrow> queue" where
  "rb_repr q = queue_of (player_of q)"

lemma rb_inv_player: "rb_inv q \<Longrightarrow> player_inv (player_of q)"
  by (simp add: rb_inv_def)

lemma rb_closed_set_finish: "rb_closed_set (finish_current q) = closedSet (finishCurrent (player_of q))"
  by (simp add: finish_player [symmetric])

interpretation rbq: play_queue rb_deq finish_current rb_repr rb_closed_set rb_inv
proof unfold_locales
  fix q q' :: AudioQueue and e sid es rest
  assume inv: "rb_inv q"
  note p = rb_inv_player [OF inv]
  show "rb_inv (snd (rb_deq q))" using inv by (simp add: rb_deq_def rb_inv_pop)
  show "rb_inv (finish_current q)" using inv by (rule rb_inv_finish)
  show "q_pop (rb_repr q) = (e, rb_repr q')" if "rb_deq q = (e, q')"
    using pq.deq_repr [OF p, of e "player_of q'"] pop_player [OF p] that by (auto simp: rb_deq_def rb_repr_def)
  show "rb_repr (finish_current q) = tl (rb_repr q)"
    using pq.finish_repr [OF p] by (simp add: rb_repr_def finish_player)
  show "sid \<in> rb_closed_set (finish_current q)" if "rb_repr q = (sid, es) # rest"
    using pq.finish_closed [OF p, of sid es rest] that by (simp add: rb_repr_def rb_closed_set_finish)
next
  fix q
  show "rb_closed_set (snd (rb_deq q)) = rb_closed_set q"
    by (simp add: rb_deq_def pop_current_def split: list.splits option.splits)
qed

lemma rb_inv_run: "rb_inv q \<Longrightarrow> \<forall>op \<in> set ops. has_id op \<Longrightarrow> rb_inv (snd (rb_run parse ops q))"
proof (induction ops arbitrary: q)
  case (Cons op ops)
  then show ?case
    by (cases op) (auto simp: rb_inv_push rb_inv_pop rb_inv_finish case_prod_unfold)
qed simp

lemma rb_inv_new: "rb_inv (new_queue n secs)"
  by (simp add: rb_inv_def newPlayer_inv) (simp add: new_queue_def)

section \<open>Properties\<close>

lemma max_streams_run:
  "max_streams (snd (rb_run parse ops q)) = max_streams q \<and> max_duration (snd (rb_run parse ops q)) = max_duration q"
proof (induction parse ops q rule: rb_run.induct)
  case (2 parse d st sid ops q)
  then show ?case by (auto simp: rb_push_def Let_def split: sum.splits option.splits)
next
  case (3 parse ops q)
  show ?case
    using 3 [of "fst (pop_current q)" "snd (pop_current q)"] pop_fields(2,3) [of q]
    by (simp add: case_prod_unfold)
next
  case (4 parse ops q)
  then show ?case by (auto simp: finish_current_def split: list.splits)
qed simp

text \<open>
  C5. But for its limits the bridge queues and plays what the emulator does: take any sequence of pushes
  (under non-empty ids, as the handler makes them), pops and finishes on the bridge's queue; leave
  out the pushes it refuses because the chunk cannot be read or is too long or too many streams
  wait; then the emulator's player gives the same chunks at every pop and ends in the same state.
\<close>

theorem bridge_queue_as_emulator:
  assumes "\<forall>op \<in> set ops. has_id op"
  shows "emu_run (within_limits parse ops (new_queue n secs)) newPlayer =
    (map (map_option emu_entry) (fst (rb_run parse ops (new_queue n secs))),
     player_of (snd (rb_run parse ops (new_queue n secs))))"
  using run_simulated [of "new_queue n secs" ops parse] assms newPlayer_inv by simp

text \<open>A run in which the second stream is over the limit of one stream.\<close>

definition demo_ops :: "queue_op list" where
  "demo_ops = [QPush [1] RbStart ''s'', QPush [2] RbOneshot ''o'', QPush [3] RbEnd ''s'', QPop, QPop, QPop]"

theorem bridge_queue_as_emulator_witness:
  "within_limits (\<lambda>d. Inr 0) demo_ops (new_queue 1 30)
     = [QPush [1] RbStart ''s'', QPush [3] RbEnd ''s'', QPop, QPop, QPop] \<and>
   fst (emu_run [QPush [1] RbStart ''s'', QPush [3] RbEnd ''s'', QPop, QPop, QPop] newPlayer)
     = [Some \<lparr>data = [1], status = START\<rparr>, Some \<lparr>data = [3], status = END\<rparr>, None]"
proof -
  have w: "within_limits (\<lambda>d. Inr 0) demo_ops (new_queue 1 30)
      = [QPush [1] RbStart ''s'', QPush [3] RbEnd ''s'', QPop, QPop, QPop]"
    by (simp add: demo_ops_def rb_push_def new_queue_def pop_current_def Let_def)
  have "\<forall>op \<in> set demo_ops. has_id op" by (simp add: demo_ops_def)
  from bridge_queue_as_emulator [OF this, of "\<lambda>d. Inr 0" 1 30] w show ?thesis
    by (simp add: demo_ops_def rb_push_def new_queue_def pop_current_def Let_def emu_entry_def)
qed

text \<open>
  C23. What the bridge holds stays within its configuration: after any run at most \<open>n\<close> streams wait, no
  queued chunk is longer than the limit, and at most 16 ids are remembered as closed, none of them
  waiting.
\<close>

theorem bridge_queue_bounded:
  assumes "\<forall>op \<in> set ops. has_id op" and "snd (rb_run parse ops (new_queue n secs)) = q"
  shows "length (rb_order q) \<le> n \<and> distinct (rb_order q)
    \<and> (\<forall>sid es e. rb_streams q sid = Some es \<and> e \<in> set es \<longrightarrow> duration e \<le> secs * 1000000000)
    \<and> card (rb_closed_set q) \<le> MAX_CLOSED_STREAMS \<and> set (rb_order q) \<inter> rb_closed_set q = {}"
proof -
  have "rb_inv q" using rb_inv_run [OF rb_inv_new assms(1)] assms(2) by blast
  moreover have "max_streams q = n" "max_duration q = secs * 1000000000"
    using max_streams_run [of parse ops "new_queue n secs"] assms(2) by (simp_all add: new_queue_def)
  moreover have "card (rb_closed_set q) \<le> length (rb_closed_order q)"
    using \<open>rb_inv q\<close> card_length [of "rb_closed_order q"] by (simp add: rb_inv_def player_inv_def)
  ultimately show ?thesis
    by (auto simp: rb_inv_def player_inv_def MAX_CLOSED_STREAMS_def maxClosedStreams_def)
qed

theorem bridge_queue_bounded_witness:
  "length (rb_order (snd (rb_run (\<lambda>d. Inr 0) demo_ops (new_queue 1 30)))) \<le> 1"
proof -
  have "\<forall>op \<in> set demo_ops. has_id op" by (simp add: demo_ops_def)
  from bridge_queue_bounded [OF this refl, of "\<lambda>d. Inr 0" 1 30] show ?thesis by simp
qed

end
