(* ===== verification/RbHandler.thy ===== *)
theory RbHandler
  imports RbQueue EmuServer "HOL-Library.Sublist"
begin

text \<open>
  The gRPC endpoint of the radio bridge, \<open>app/radio-bridge/src/grpc/handler.rs\<close>: the tasks of one
  connection, and any number of connections in turn that share the queue with the controller.
\<close>

section \<open>Receiving\<close>

definition map_status :: "int \<Rightarrow> RbStatus option" where
  "map_status raw =
     (case status_of_int raw of
        ONESHOT \<Rightarrow> Some RbOneshot
      | START \<Rightarrow> Some RbStart
      | CONTINUE \<Rightarrow> Some RbContinue
      | END \<Rightarrow> Some RbEnd
      | _ \<Rightarrow> None)"

text \<open>\<open>fetch_add\<close> gives the counter before the addition, which wraps around.\<close>

definition rb_oneshot_id :: "gostring \<Rightarrow> 64 word \<Rightarrow> gostring" where
  "rb_oneshot_id peer n = ''__oneshot_'' @ peer @ ''_'' @ dec (unat n)"

text \<open>The status and stream id a chunk is queued under, if any, and the counter after it.\<close>

definition rb_route ::
  "gostring \<Rightarrow> 64 word \<Rightarrow> AudioChunk \<Rightarrow> 64 word \<times> (RbStatus \<times> gostring) option" where
  "rb_route peer n c =
     (case map_status (int_of_status (ChunkStatus c)) of
        None \<Rightarrow> (n, None)
      | Some RbOneshot \<Rightarrow> (n + 1, Some (RbOneshot, rb_oneshot_id peer n))
      | Some st \<Rightarrow> (n, if ChunkStreamId c = '''' then None else Some (st, ChunkStreamId c)))"

definition rb_receive ::
  "(bytes \<Rightarrow> gostring + nat) \<Rightarrow> gostring \<Rightarrow> AudioChunk \<Rightarrow> 64 word \<times> AudioQueue \<Rightarrow> 64 word \<times> AudioQueue" where
  "rb_receive parse peer c s =
     (case rb_route peer (fst s) c of
        (n, None) \<Rightarrow> (n, snd s)
      | (n, Some (st, sid)) \<Rightarrow> (n, snd (rb_push parse (OggOpusData c) st sid (snd s))))"

text \<open>
  What the select of the receiving task finds: a message, the end of the client's stream, an error,
  or that the other task has cancelled the connection. It says whether the task has ended, and then
  the connection is cancelled.
\<close>

datatype inbound = InChunk AudioChunk | InEnd | InError | InCancelled

fun rb_recv_loop ::
  "(bytes \<Rightarrow> gostring + nat) \<Rightarrow> gostring \<Rightarrow> inbound list \<Rightarrow> 64 word \<times> AudioQueue
     \<Rightarrow> bool \<times> 64 word \<times> AudioQueue" where
  "rb_recv_loop parse peer [] s = (False, s)"
| "rb_recv_loop parse peer (InChunk c # evs) s = rb_recv_loop parse peer evs (rb_receive parse peer c s)"
| "rb_recv_loop parse peer (ev # evs) s = (True, s)"

section \<open>Forwarding recordings\<close>

text \<open>
  The select of the forwarding task: a recording, with whether sending it on succeeds, recordings
  missed by a slow receiver, the end of the recorder, or the cancellation.
\<close>

datatype outbound = OutData bytes bool | OutLagged nat | OutClosed | OutCancelled

fun rb_forward_loop :: "outbound list \<Rightarrow> bool \<times> AudioChunk list" where
  "rb_forward_loop [] = (False, [])"
| "rb_forward_loop (OutData d ok # evs) =
     (if ok then
        (case rb_forward_loop evs of (ended, cs) \<Rightarrow>
           (ended, \<lparr>OggOpusData = d, ChunkStatus = ONESHOT, ChunkStreamId = ''''\<rparr> # cs))
      else (True, []))"
| "rb_forward_loop (OutLagged n # evs) = rb_forward_loop evs"
| "rb_forward_loop (OutClosed # evs) = (True, [])"
| "rb_forward_loop (OutCancelled # evs) = (True, [])"

section \<open>ONESHOT ids\<close>

text \<open>Ids of different connections, and of one connection until its counter wraps, are different.\<close>

lemma dec_digits: "CHR ''_'' \<notin> set (dec n)"
proof (induction n rule: dec.induct)
  case (1 n)
  have digit: "CHR ''_'' \<noteq> char_of (48 + m)" if "m < 10" for m :: nat
  proof
    assume "CHR ''_'' = char_of (48 + m)"
    then have "of_char CHR ''_'' = (of_char (char_of (48 + m) :: char) :: nat)" by simp
    with that show False by simp
  qed
  show ?case
  proof (cases "n < 10")
    case True
    with digit [of n] show ?thesis by (subst dec.simps) simp
  next
    case False
    with 1 digit [of "n mod 10"] show ?thesis by (subst dec.simps) simp
  qed
qed

lemma last_separator:
  "xs @ c # ys = xs' @ c # ys' \<Longrightarrow> c \<notin> set ys \<Longrightarrow> c \<notin> set ys' \<Longrightarrow> xs = xs' \<and> ys = ys'"
proof (induction xs arbitrary: xs')
  case Nil
  then show ?case by (cases xs') auto
next
  case (Cons x xs)
  then show ?case by (cases xs') auto
qed

lemma rb_oneshot_id_inj:
  "rb_oneshot_id p m = rb_oneshot_id p' n \<longleftrightarrow> p = p' \<and> m = n"
  using last_separator [of p "CHR ''_''" "dec (unat m)" p' "dec (unat n)"] dec_digits
  by (auto simp: rb_oneshot_id_def word_unat_eq_iff)

lemma rb_oneshot_id_nonempty [simp]: "rb_oneshot_id p n \<noteq> []"
  by (simp add: rb_oneshot_id_def)

section \<open>Connections\<close>

text \<open>The name a connection's ids are made with; the transport may not know the client's address.\<close>

definition peer_name :: "gostring option \<Rightarrow> gostring" where
  "peer_name addr = (case addr of Some a \<Rightarrow> a | None \<Rightarrow> ''unknown'')"

text \<open>
  The queue shared by all connections and the controller, and as a history: the connections there
  have been, each with its name and the number of ONESHOT chunks it has received (its counter is this
  number at 64 bits), and the stream ids clients have sent.
\<close>

record bsys =
  bq :: AudioQueue
  conns :: "(gostring \<times> nat) list"
  clientIds :: "gostring set"

definition new_bsys :: "nat \<Rightarrow> nat \<Rightarrow> bsys" where
  "new_bsys n secs = \<lparr>bq = new_queue n secs, conns = [], clientIds = {}\<rparr>"

definition reserved :: "gostring \<Rightarrow> bool" where
  "reserved sid \<longleftrightarrow> prefix ''__oneshot_'' sid"

definition is_oneshot :: "AudioChunk \<Rightarrow> bool" where
  "is_oneshot c \<longleftrightarrow> map_status (int_of_status (ChunkStatus c)) = Some RbOneshot"

text \<open>
  Any client may connect, with an address seen before or with none, and send chunks with any status
  and id. The controller pops and finishes at any time.
\<close>

inductive bridge_reach :: "nat \<Rightarrow> nat \<Rightarrow> (bytes \<Rightarrow> gostring + nat) \<Rightarrow> bsys \<Rightarrow> bool" for n secs parse where
  bridge_start: "bridge_reach n secs parse (new_bsys n secs)"
| bridge_connect: "bridge_reach n secs parse s \<Longrightarrow>
     bridge_reach n secs parse (s\<lparr>conns := conns s @ [(peer_name addr, 0)]\<rparr>)"
| bridge_chunk: "bridge_reach n secs parse s \<Longrightarrow> i < length (conns s) \<Longrightarrow> conns s ! i = (peer, k) \<Longrightarrow>
     bridge_reach n secs parse (s\<lparr>bq := snd (rb_receive parse peer c (of_nat k, bq s)),
       conns := (conns s)[i := (peer, if is_oneshot c then Suc k else k)],
       clientIds := insert (ChunkStreamId c) (clientIds s)\<rparr>)"
| bridge_pop: "bridge_reach n secs parse s \<Longrightarrow> bridge_reach n secs parse (s\<lparr>bq := snd (pop_current (bq s))\<rparr>)"
| bridge_finish: "bridge_reach n secs parse s \<Longrightarrow> bridge_reach n secs parse (s\<lparr>bq := finish_current (bq s)\<rparr>)"

text \<open>A reserved id that is queued or closed was given to an earlier ONESHOT chunk, or sent by a client.\<close>

definition known_ids :: "AudioQueue \<Rightarrow> gostring set" where
  "known_ids q = set (rb_order q) \<union> rb_closed_set q"

definition given :: "bsys \<Rightarrow> gostring set" where
  "given s = {rb_oneshot_id peer (of_nat j) | peer k j. (peer, k) \<in> set (conns s) \<and> j < k}"

definition bridge_inv :: "bsys \<Rightarrow> bool" where
  "bridge_inv s \<longleftrightarrow> rb_inv (bq s) \<and>
     (\<forall>sid \<in> known_ids (bq s). reserved sid \<longrightarrow> sid \<in> given s \<union> clientIds s)"

lemma known_push: "known_ids (snd (rb_push parse d st sid q)) \<subseteq> insert sid (known_ids q)"
  by (auto simp: rb_push_def known_ids_def Let_def split: sum.splits option.splits if_splits)

lemma known_pop [simp]: "known_ids (snd (pop_current q)) = known_ids q"
  by (auto simp: pop_current_def known_ids_def split: list.splits option.splits)

lemma known_finish: "known_ids (finish_current q) \<subseteq> known_ids q"
proof (cases "rb_order q")
  case (Cons sid rest)
  have "rb_closed_set (finish_current q) \<subseteq> insert sid (rb_closed_set q)"
    using finishCurrent_closedSet [of "player_of q"] Cons by (simp add: currentStream_def rb_closed_set_finish)
  then show ?thesis using Cons by (auto simp: known_ids_def finish_current_def)
qed (simp add: finish_current_def)

lemma rb_route_cases:
  assumes "rb_route peer m c = (m', Some (st, sid))"
  shows "(is_oneshot c \<and> st = RbOneshot \<and> sid = rb_oneshot_id peer m \<and> m' = m + 1) \<or>
    (\<not> is_oneshot c \<and> sid = ChunkStreamId c \<and> sid \<noteq> '''' \<and> m' = m)"
proof (cases "map_status (int_of_status (ChunkStatus c))")
  case (Some r)
  with assms show ?thesis by (cases r) (auto simp: rb_route_def is_oneshot_def split: if_splits)
qed (use assms in \<open>simp add: rb_route_def\<close>)

lemma rb_receive_queue:
  "snd (rb_receive parse peer c (m, q)) = (case snd (rb_route peer m c) of
     None \<Rightarrow> q | Some (st, sid) \<Rightarrow> snd (rb_push parse (OggOpusData c) st sid q))"
  by (simp add: rb_receive_def split: prod.splits option.splits)

lemma given_chunk:
  assumes "i < length (conns s)" and "conns s ! i = (peer, k)" and "k \<le> k'"
  shows "given s \<subseteq> given (s\<lparr>bq := q, conns := (conns s)[i := (peer, k')], clientIds := u\<rparr>)"
proof
  fix sid assume "sid \<in> given s"
  then obtain p m j where sid: "sid = rb_oneshot_id p (of_nat j)" "(p, m) \<in> set (conns s)" "j < m"
    unfolding given_def by blast
  from sid(2) obtain l where l: "l < length (conns s)" "conns s ! l = (p, m)"
    by (auto simp: in_set_conv_nth)
  have "\<exists>m'. (p, m') \<in> set ((conns s)[i := (peer, k')]) \<and> j < m'"
  proof (cases "l = i")
    case True
    with l assms sid(3) show ?thesis
      by (intro exI [of _ k']) (auto intro: set_update_memI)
  next
    case False
    with l have "(conns s)[i := (peer, k')] ! l = (p, m)" by simp
    with l sid(3) show ?thesis by (metis length_list_update nth_mem)
  qed
  with sid(1) show "sid \<in> given (s\<lparr>bq := q, conns := (conns s)[i := (peer, k')], clientIds := u\<rparr>)"
    unfolding given_def by auto
qed

lemma bridge_inv_chunk:
  assumes "bridge_inv s" and i: "i < length (conns s)" "conns s ! i = (peer, k)"
  shows "bridge_inv (s\<lparr>bq := snd (rb_receive parse peer c (of_nat k, bq s)),
       conns := (conns s)[i := (peer, if is_oneshot c then Suc k else k)],
       clientIds := insert (ChunkStreamId c) (clientIds s)\<rparr>)" (is "bridge_inv ?t")
proof -
  have mono: "given s \<subseteq> given ?t" by (intro given_chunk [OF i]) simp
  show ?thesis
  proof (cases "snd (rb_route peer (of_nat k) c)")
    case None
    then have "bq ?t = bq s" by (simp add: rb_receive_queue)
    with assms(1) mono show ?thesis by (auto simp: bridge_inv_def)
  next
    case (Some r)
    then obtain st sid where r: "rb_route peer (of_nat k) c = (fst (rb_route peer (of_nat k) c), Some (st, sid))"
      by (metis prod.collapse)
    then have q: "bq ?t = snd (rb_push parse (OggOpusData c) st sid (bq s))"
      by (simp add: rb_receive_queue) (metis old.prod.case option.simps(5) snd_conv)
    have sid: "sid \<noteq> ''''" using rb_route_cases [OF r] rb_oneshot_id_nonempty [of peer "of_nat k"] by metis
    have new: "sid \<in> given ?t \<union> clientIds ?t"
    proof (cases "is_oneshot c")
      case True
      then have "sid = rb_oneshot_id peer (of_nat k)" using rb_route_cases [OF r] by blast
      moreover have "(peer, Suc k) \<in> set (conns ?t)"
        using i True by (simp add: set_update_memI)
      ultimately show ?thesis unfolding given_def by blast
    next
      case False
      then show ?thesis using rb_route_cases [OF r] by auto
    qed
    have "known_ids (bq ?t) \<subseteq> insert sid (known_ids (bq s))" unfolding q by (rule known_push)
    moreover have "rb_inv (bq ?t)" unfolding q using assms(1) sid by (simp add: bridge_inv_def rb_inv_push)
    moreover have "clientIds s \<subseteq> clientIds ?t" by auto
    ultimately show ?thesis using assms(1) mono new unfolding bridge_inv_def by blast
  qed
qed

lemma bridge_reach_inv: "bridge_reach n secs parse s \<Longrightarrow> bridge_inv s"
proof (induction rule: bridge_reach.induct)
  case bridge_start
  show ?case by (simp add: bridge_inv_def rb_inv_new known_ids_def new_bsys_def) (simp add: new_queue_def)
next
  case (bridge_connect s addr)
  have "given s \<subseteq> given (s\<lparr>conns := conns s @ [(peer_name addr, 0)]\<rparr>)" by (auto simp: given_def)
  with bridge_connect.IH show ?case by (auto simp: bridge_inv_def)
next
  case (bridge_chunk s i peer k c)
  then show ?case by (intro bridge_inv_chunk)
next
  case (bridge_pop s)
  then show ?case by (simp add: bridge_inv_def rb_inv_pop given_def)
next
  case (bridge_finish s)
  then show ?case using known_finish [of "bq s"] by (auto simp: bridge_inv_def rb_inv_finish given_def)
qed

text \<open>The id a connection makes next has not been used under its name, nor by a client.\<close>

definition id_unused :: "bsys \<Rightarrow> nat \<Rightarrow> bool" where
  "id_unused s i \<longleftrightarrow> (case conns s ! i of (peer, k) \<Rightarrow>
     list_all (\<lambda>(peer', k'). peer' = peer \<longrightarrow> k' \<le> k) (conns s) \<and>
     rb_oneshot_id peer (of_nat k) \<notin> clientIds s)"

lemma fresh_oneshot:
  assumes "bridge_inv s" and "conns s ! i = (peer, k)" and "id_unused s i" and "k < 2 ^ 64"
  shows "rb_oneshot_id peer (of_nat k) \<notin> known_ids (bq s)"
proof
  let ?id = "rb_oneshot_id peer (of_nat k :: 64 word)"
  assume "?id \<in> known_ids (bq s)"
  moreover have "reserved ?id" by (simp add: reserved_def rb_oneshot_id_def)
  ultimately have "?id \<in> given s" using assms(1,2,3) by (auto simp: bridge_inv_def id_unused_def)
  then obtain m j where "(peer, m) \<in> set (conns s)" "j < m" "(of_nat j :: 64 word) = of_nat k"
    by (auto simp: given_def rb_oneshot_id_inj)
  moreover from this have "j < k"
    using assms(2,3) by (fastforce simp: id_unused_def list_all_iff)
  moreover from this have "j < 2 ^ 64" using assms(4) by linarith
  ultimately show False
    using assms(4) by (simp add: word_unat_eq_iff unat_of_nat take_bit_nat_eq_self)
qed

section \<open>Property\<close>

text \<open>
  C22. Unlike the emulator's, the bridge's ONESHOT ids carry the connection's name and its own counter.
  So a ONESHOT chunk is never taken for a late chunk of a closed stream nor appended to a waiting one,
  whatever has been sent on any connections and played, provided that its connection's name is not
  shared with one that has received more ONESHOT chunks and no client has sent the id itself
  (\<open>id_unused\<close>), before the counter wraps around: it is refused for a limit, and then nothing changes,
  or it becomes the last stream of the queue, by itself. The proviso is needed, since addresses recur
  and unknown ones share a name (\<open>oneshot_ids_collide\<close>).
\<close>

theorem bridge_oneshot_queued:
  assumes "bridge_reach n secs parse s" and "conns s ! i = (peer, k)" and "id_unused s i"
    and "k < 2 ^ 64" and "is_oneshot c" and "rb_receive parse peer c (of_nat k, bq s) = (m, q')"
  shows "m = of_nat (Suc k) \<and>
    (queue_of (player_of q') = queue_of (player_of (bq s)) @
       [(rb_oneshot_id peer (of_nat k), [\<lparr>data = OggOpusData c, status = ONESHOT\<rparr>])]
     \<or> q' = bq s \<and> limit_error (fst (rb_push parse (OggOpusData c) RbOneshot (rb_oneshot_id peer (of_nat k)) (bq s))))"
proof -
  let ?id = "rb_oneshot_id peer (of_nat k)"
  let ?r = "rb_push parse (OggOpusData c) RbOneshot ?id (bq s)"
  have inv: "bridge_inv s" using assms(1) by (rule bridge_reach_inv)
  then have p: "player_inv (player_of (bq s))" by (simp add: bridge_inv_def rb_inv_def)
  have new: "?id \<notin> known_ids (bq s)" using fresh_oneshot [OF inv assms(2,3,4)] .
  have rt: "rb_route peer (of_nat k) c = (of_nat k + 1, Some (RbOneshot, ?id))"
    using assms(5) by (simp add: rb_route_def is_oneshot_def)
  then have m: "m = of_nat (Suc k)" and q': "q' = snd ?r"
    using assms(6) by (auto simp: rb_receive_def)
  show ?thesis
  proof (cases "limit_error (fst ?r)")
    case True
    with push_over_limit [OF True] m q' show ?thesis by simp
  next
    case False
    then have "player_of q' = push (OggOpusData c) ONESHOT ?id (player_of (bq s))"
      using push_simulated [OF False] q' by simp
    moreover have "?id \<notin> closedSet (player_of (bq s))" using new by (simp add: known_ids_def)
    ultimately have "queue_of (player_of q')
        = q_push ?id \<lparr>data = OggOpusData c, status = ONESHOT\<rparr> (queue_of (player_of (bq s)))"
      using pq.enq_open [OF p, of ?id ONESHOT "OggOpusData c"] by simp
    also have "\<dots> = queue_of (player_of (bq s)) @ [(?id, [\<lparr>data = OggOpusData c, status = ONESHOT\<rparr>])]"
      using new by (intro q_push_new) (simp add: queue_of_ids known_ids_def)
    finally show ?thesis using m by blast
  qed
qed

text \<open>
  A second connection, whose first chunk follows one of a connection that was played and closed; the
  addresses of both are given.
\<close>

definition demo_closed :: "gostring option \<Rightarrow> gostring option \<Rightarrow> bsys" where
  "demo_closed a b = \<lparr>bq = finish_current (snd (pop_current (snd (rb_receive (\<lambda>d. Inr 0) (peer_name a)
     (oneshot_chunk [1]) (0, new_queue 2 30))))), conns = [(peer_name a, 1), (peer_name b, 0)],
     clientIds = {''''}\<rparr>"

lemma one_oneshot [simp]: "is_oneshot (oneshot_chunk d)"
  by (simp add: is_oneshot_def oneshot_chunk_def map_status_def status_of_int_def)

lemma demo_closed_reach: "bridge_reach 2 30 (\<lambda>d. Inr 0) (demo_closed a b)"
proof -
  let ?P = "bridge_reach 2 30 (\<lambda>d. Inr 0)"
  have "?P \<lparr>bq = new_queue 2 30, conns = [(peer_name a, 0)], clientIds = {}\<rparr>"
    using bridge_connect [OF bridge_start, of 2 30 "\<lambda>d. Inr 0" a] by (simp add: new_bsys_def)
  from bridge_chunk [OF this, of 0 "peer_name a" 0 "oneshot_chunk [1]"]
  have "?P \<lparr>bq = snd (rb_receive (\<lambda>d. Inr 0) (peer_name a) (oneshot_chunk [1]) (0, new_queue 2 30)),
      conns = [(peer_name a, 1)], clientIds = {''''}\<rparr>"
    by (simp add: oneshot_chunk_def [THEN arg_cong [of _ _ ChunkStreamId]])
  from bridge_finish [OF bridge_pop [OF this]]
  have "?P \<lparr>bq = bq (demo_closed a b), conns = [(peer_name a, 1)], clientIds = {''''}\<rparr>"
    by (simp add: demo_closed_def)
  from bridge_connect [OF this, of b] show ?thesis by (simp add: demo_closed_def)
qed

lemma demo_closed_queue:
  "queue_of (player_of (bq (demo_closed a b))) = []" "rb_order (bq (demo_closed a b)) = []"
  "max_streams (bq (demo_closed a b)) = 2" "max_duration (bq (demo_closed a b)) = 30000000000"
  "rb_closed_set (bq (demo_closed a b)) = {rb_oneshot_id (peer_name a) 0}"
  by (simp_all add: demo_closed_def rb_receive_def rb_route_def oneshot_chunk_def map_status_def
      status_of_int_def rb_push_def new_queue_def pop_current_def finish_current_def mark_closed_def
      queue_of_def Let_def MAX_CLOSED_STREAMS_def)

theorem bridge_oneshot_queued_witness:
  "queue_of (player_of (snd (rb_receive (\<lambda>d. Inr 0) ''b'' (oneshot_chunk [2])
      (0, bq (demo_closed (Some ''a'') (Some ''b''))))))
     = [(''__oneshot_b_0'', [\<lparr>data = [2], status = ONESHOT\<rparr>])]"
proof -
  let ?s = "demo_closed (Some ''a'') (Some ''b'')"
  note e = demo_closed_queue [of "Some ''a''" "Some ''b''"]
  have id: "rb_oneshot_id ''b'' 0 = ''__oneshot_b_0''"
    by (simp add: rb_oneshot_id_def dec.simps [of 0] char_of_def bit_iff_odd)
  have t: "conns ?s ! 1 = (''b'', 0)" by (simp add: demo_closed_def peer_name_def)
  have u: "id_unused ?s 1" by (simp add: id_unused_def demo_closed_def peer_name_def)
  have "\<not> limit_error (fst (rb_push (\<lambda>d. Inr 0) [2] RbOneshot sid (bq ?s)))" for sid
    using e by (auto simp: rb_push_def Let_def split: option.splits)
  moreover obtain m q' where r: "rb_receive (\<lambda>d. Inr 0) ''b'' (oneshot_chunk [2]) (of_nat 0, bq ?s) = (m, q')"
    by (cases "rb_receive (\<lambda>d. Inr 0) ''b'' (oneshot_chunk [2]) (of_nat 0, bq ?s)")
  moreover have "OggOpusData (oneshot_chunk [2]) = [2]" by (simp add: oneshot_chunk_def)
  ultimately show ?thesis
    using bridge_oneshot_queued [OF demo_closed_reach t u _ one_oneshot r] id e by simp
qed

text \<open>
  The ids of two connections without an address, or of a client that connects twice from the same
  one, collide: after a ONESHOT chunk of the first has been played, the first one of the second is
  taken for a late chunk of a closed stream and lost.
\<close>

theorem oneshot_ids_collide:
  assumes "peer_name a = peer_name b"
  shows "bridge_reach 2 30 (\<lambda>d. Inr 0) (demo_closed a b) \<and>
    conns (demo_closed a b) ! 1 = (peer_name b, 0) \<and>
    rb_push (\<lambda>d. Inr 0) [2] RbOneshot (rb_oneshot_id (peer_name b) 0) (bq (demo_closed a b)) =
      (Inl (StreamClosed (rb_oneshot_id (peer_name b) 0)), bq (demo_closed a b)) \<and>
    snd (rb_receive (\<lambda>d. Inr 0) (peer_name b) (oneshot_chunk [2]) (0, bq (demo_closed a b))) =
      bq (demo_closed a b)"
proof -
  let ?q = "bq (demo_closed a b)"
  have p: "rb_push (\<lambda>d. Inr 0) [2] RbOneshot (rb_oneshot_id (peer_name b) 0) ?q =
      (Inl (StreamClosed (rb_oneshot_id (peer_name b) 0)), ?q)"
    using demo_closed_queue(5) [of a b] assms by (simp add: rb_push_def)
  moreover have "rb_route (peer_name b) 0 (oneshot_chunk [2]) =
      (1, Some (RbOneshot, rb_oneshot_id (peer_name b) 0))"
    by (simp add: rb_route_def oneshot_chunk_def map_status_def status_of_int_def)
  ultimately show ?thesis
    using demo_closed_reach [of a b]
    by (simp add: rb_receive_queue) (simp add: demo_closed_def oneshot_chunk_def)
qed

theorem oneshot_ids_collide_witness:
  "snd (rb_receive (\<lambda>d. Inr 0) ''unknown'' (oneshot_chunk [2]) (0, bq (demo_closed None None))) =
     bq (demo_closed None None)"
  using oneshot_ids_collide [of None None] by (simp add: peer_name_def)

end
