(* ===== verification/RbController.thy ===== *)
theory RbController
  imports RbQueue
begin

text \<open>
  The radio bridge's controller, \<open>app/radio-bridge/src/controller.rs\<close>, which keys the transceiver and
  plays what is queued, and the recorder thread of \<open>audio/recorder.rs\<close>, which records what the
  transceiver hears. They share three atomic flags; the clients' tasks push into the queue meanwhile.

  Each access to a flag, to the pin or to the queue is a step of its own. The controller is
  deterministic, so it is a function; a sleep is no step, but the counters of the waiting loops are
  kept. Of the recorder's times only the outcome of a comparison is a choice.
\<close>

section \<open>State\<close>

datatype cpc =
    IdleQueue nat                \<comment> \<open>\<open>handle_idle\<close>, the milliseconds waited: is anything queued?\<close>
  | IdleRec nat                  \<comment> \<open>something is; is the microphone recording?\<close>
  | IdleForce                    \<comment> \<open>about to force the recording to stop\<close>
  | PttOn                        \<comment> \<open>\<open>handle_ptt_on\<close>, before setting the flag\<close>
  | PttPin                       \<comment> \<open>before setting the pin\<close>
  | PlayStart                    \<comment> \<open>\<open>handle_playing\<close>\<close>
  | PlayPop gostring "16 word list"  \<comment> \<open>the loop, with the samples collected\<close>
  | PlayWait gostring "16 word list" nat
  | PlayOut gostring "16 word list"  \<comment> \<open>\<open>play_pcm\<close>\<close>
  | PlayFinish
  | PttOff                       \<comment> \<open>\<open>handle_ptt_off\<close>, before clearing the pin\<close>
  | PttFlag                      \<comment> \<open>before clearing the flag\<close>
  | CoolRec                      \<comment> \<open>\<open>handle_cooldown\<close>: is the microphone recording?\<close>
  | CoolQueue
  | Listen nat                   \<comment> \<open>\<open>handle_listening\<close>\<close>
  | ListenForce
  | ListenQueue

text \<open>A frame read from the device: its samples at 24 kHz and their level.\<close>

type_synonym frame = "16 word list \<times> nat"

datatype rpc =
    RTop                         \<comment> \<open>about to read a frame\<close>
  | RRead frame                  \<comment> \<open>about to load the stop flag\<close>
  | RClear                       \<comment> \<open>about to clear it\<close>
  | RLevel frame                 \<comment> \<open>about to compare the level and load the transmit flag\<close>
  | RStart frame                 \<comment> \<open>about to set \<open>is_recording\<close>\<close>
  | RTake frame                  \<comment> \<open>about to append the samples\<close>
  | REnd                         \<comment> \<open>about to clear \<open>is_recording\<close>\<close>

record rbsys =
  ctl :: cpc
  rq :: AudioQueue
  pin :: bool
  transmitting :: bool
  is_recording :: bool
  stop_recording :: bool
  rec_pc :: rpc
  recording :: bool
  record_buf :: "16 word list"
  broadcasts :: "16 word list list"
  written :: "16 word list list"

text \<open>\<open>broadcasts\<close> and \<open>written\<close> are history: the recordings sent to clients, and the samples played.\<close>

definition init_rbsys :: "AudioQueue \<Rightarrow> rbsys" where
  "init_rbsys q = \<lparr>ctl = IdleQueue 0, rq = q, pin = False, transmitting = False, is_recording = False,
     stop_recording = False, rec_pc = RTop, recording = False, record_buf = [], broadcasts = [],
     written = []\<rparr>"

section \<open>The controller\<close>

definition RECORDING_WAIT_TIMEOUT_MS :: nat where
  "RECORDING_WAIT_TIMEOUT_MS = 3000"

definition STREAM_TIMEOUT_MS :: nat where
  "STREAM_TIMEOUT_MS = 2000"

definition POLL_INTERVAL_MS :: nat where
  "POLL_INTERVAL_MS = 100"

text \<open>\<open>dec\<close> is \<open>decode_ogg_opus\<close>; a chunk that cannot be decoded adds nothing.\<close>

definition decoded :: "(bytes \<Rightarrow> gostring + 16 word list) \<Rightarrow> AudioEntry \<Rightarrow> 16 word list" where
  "decoded dec e = (case dec (ogg_opus_data e) of Inl err \<Rightarrow> [] | Inr pcm \<Rightarrow> pcm)"

definition ctl_step :: "(bytes \<Rightarrow> gostring + 16 word list) \<Rightarrow> rbsys \<Rightarrow> rbsys" where
  "ctl_step dec s =
     (case ctl s of
        IdleQueue w \<Rightarrow> s\<lparr>ctl := if has_stream (rq s) then IdleRec w else IdleQueue 0\<rparr>
      | IdleRec w \<Rightarrow>
          s\<lparr>ctl := if \<not> is_recording s then PttOn
                    else if RECORDING_WAIT_TIMEOUT_MS \<le> w then IdleForce else IdleQueue (w + 100)\<rparr>
      | IdleForce \<Rightarrow> s\<lparr>stop_recording := True, ctl := PttOn\<rparr>
      | PttOn \<Rightarrow> s\<lparr>transmitting := True, ctl := PttPin\<rparr>
      | PttPin \<Rightarrow> s\<lparr>pin := True, ctl := PlayStart\<rparr>
      | PlayStart \<Rightarrow>
          s\<lparr>ctl := case current_stream (rq s) of None \<Rightarrow> PttOff | Some sid \<Rightarrow> PlayPop sid []\<rparr>
      | PlayPop sid pcm \<Rightarrow>
          (case pop_current (rq s) of
             (None, q) \<Rightarrow> s\<lparr>rq := q, ctl := PlayWait sid pcm 0\<rparr>
           | (Some e, q) \<Rightarrow>
               s\<lparr>rq := q, ctl := if rb_terminal (rb_status e) then PlayOut sid (pcm @ decoded dec e)
                                   else PlayPop sid (pcm @ decoded dec e)\<rparr>)
      | PlayWait sid pcm w \<Rightarrow>
          s\<lparr>ctl := if \<not> w < STREAM_TIMEOUT_MS then PlayOut sid pcm
                    else if current_has_chunk (rq s) then PlayPop sid pcm
                    else PlayWait sid pcm (w + POLL_INTERVAL_MS)\<rparr>
      | PlayOut sid pcm \<Rightarrow>
          s\<lparr>written := written s @ (if pcm = [] then [] else [pcm]), ctl := PlayFinish\<rparr>
      | PlayFinish \<Rightarrow> s\<lparr>rq := finish_current (rq s), ctl := PttOff\<rparr>
      | PttOff \<Rightarrow> s\<lparr>pin := False, ctl := PttFlag\<rparr>
      | PttFlag \<Rightarrow> s\<lparr>transmitting := False, ctl := CoolRec\<rparr>
      | CoolRec \<Rightarrow> s\<lparr>ctl := if is_recording s then Listen 0 else CoolQueue\<rparr>
      | CoolQueue \<Rightarrow> s\<lparr>ctl := if has_stream (rq s) then PttOn else IdleQueue 0\<rparr>
      | Listen w \<Rightarrow>
          s\<lparr>ctl := if \<not> is_recording s then ListenQueue
                    else if RECORDING_WAIT_TIMEOUT_MS \<le> w + 100 then ListenForce else Listen (w + 100)\<rparr>
      | ListenForce \<Rightarrow> s\<lparr>stop_recording := True, ctl := Listen 0\<rparr>
      | ListenQueue \<Rightarrow> s\<lparr>ctl := if has_stream (rq s) then PttOn else IdleQueue 0\<rparr>)"

section \<open>The recorder\<close>

text \<open>
  \<open>thr\<close> is the threshold of the level. A recording ends when it is quiet or too long, and is broadcast
  unless it is shorter than the minimum of \<open>minms\<close> milliseconds, or cannot be encoded (\<open>rec_lost\<close>).
\<close>

definition long_enough :: "nat \<Rightarrow> 16 word list \<Rightarrow> bool" where
  "long_enough minms buf \<longleftrightarrow> minms \<le> length buf * 1000 div 24000"

inductive rec_step :: "nat \<Rightarrow> nat \<Rightarrow> rbsys \<Rightarrow> rbsys \<Rightarrow> bool" for thr minms where
  rec_frame: "rec_pc s = RTop \<Longrightarrow> rec_step thr minms s (s\<lparr>rec_pc := RRead f\<rparr>)"
| rec_stopped: "rec_pc s = RRead f \<Longrightarrow> stop_recording s \<Longrightarrow> rec_step thr minms s (s\<lparr>rec_pc := RClear\<rparr>)"
| rec_clear: "rec_pc s = RClear \<Longrightarrow> rec_step thr minms s
     (s\<lparr>stop_recording := False, rec_pc := if recording s then REnd else RTop\<rparr>)"
| rec_go: "rec_pc s = RRead f \<Longrightarrow> \<not> stop_recording s \<Longrightarrow> rec_step thr minms s (s\<lparr>rec_pc := RLevel f\<rparr>)"
| rec_loud: "rec_pc s = RLevel f \<Longrightarrow> thr \<le> snd f \<Longrightarrow> \<not> transmitting s \<Longrightarrow> \<not> recording s \<Longrightarrow>
     rec_step thr minms s (s\<lparr>recording := True, record_buf := [], rec_pc := RStart f\<rparr>)"
| rec_level: "rec_pc s = RLevel f \<Longrightarrow> \<not> (thr \<le> snd f \<and> \<not> transmitting s \<and> \<not> recording s) \<Longrightarrow>
     rec_step thr minms s (s\<lparr>rec_pc := RTake f\<rparr>)"
| rec_start: "rec_pc s = RStart f \<Longrightarrow> rec_step thr minms s (s\<lparr>is_recording := True, rec_pc := RTake f\<rparr>)"
| rec_idle: "rec_pc s = RTake f \<Longrightarrow> \<not> recording s \<Longrightarrow> rec_step thr minms s (s\<lparr>rec_pc := RTop\<rparr>)"
| rec_more: "rec_pc s = RTake f \<Longrightarrow> recording s \<Longrightarrow>
     rec_step thr minms s (s\<lparr>record_buf := record_buf s @ fst f, rec_pc := RTop\<rparr>)"
| rec_done: "rec_pc s = RTake f \<Longrightarrow> recording s \<Longrightarrow> buf = record_buf s @ fst f \<Longrightarrow>
     rec_step thr minms s (s\<lparr>record_buf := buf,
       broadcasts := broadcasts s @ (if long_enough minms buf then [buf] else []), rec_pc := REnd\<rparr>)"
| rec_lost: "rec_pc s = RTake f \<Longrightarrow> recording s \<Longrightarrow>
     rec_step thr minms s (s\<lparr>record_buf := record_buf s @ fst f, rec_pc := REnd\<rparr>)"
| rec_end: "rec_pc s = REnd \<Longrightarrow>
     rec_step thr minms s (s\<lparr>recording := False, is_recording := False, record_buf := [], rec_pc := RTop\<rparr>)"

inductive_cases rec_stepE: "rec_step thr minms s t"

section \<open>All of it\<close>

inductive rb_step ::
  "(bytes \<Rightarrow> gostring + nat) \<Rightarrow> (bytes \<Rightarrow> gostring + 16 word list) \<Rightarrow> nat \<Rightarrow> nat \<Rightarrow> rbsys \<Rightarrow> rbsys \<Rightarrow> bool"
  for parse dec thr minms where
  by_controller: "rb_step parse dec thr minms s (ctl_step dec s)"
| by_recorder: "rec_step thr minms s t \<Longrightarrow> rb_step parse dec thr minms s t"
| by_client: "sid \<noteq> '''' \<Longrightarrow> rb_step parse dec thr minms s (s\<lparr>rq := snd (rb_push parse d st sid (rq s))\<rparr>)"

inductive rb_reach ::
  "(bytes \<Rightarrow> gostring + nat) \<Rightarrow> (bytes \<Rightarrow> gostring + 16 word list) \<Rightarrow> nat \<Rightarrow> nat \<Rightarrow> nat \<Rightarrow> nat \<Rightarrow> rbsys \<Rightarrow> bool"
  for parse dec thr minms n secs where
  rb_init: "rb_reach parse dec thr minms n secs (init_rbsys (new_queue n secs))"
| rb_next: "rb_reach parse dec thr minms n secs s \<Longrightarrow> rb_step parse dec thr minms s t \<Longrightarrow>
     rb_reach parse dec thr minms n secs t"

section \<open>The transmit flag covers the pin\<close>

text \<open>The states of the controller in which the transceiver is keyed, and the stream it is sending.\<close>

fun keyed :: "cpc \<Rightarrow> bool" where
  "keyed PlayStart = True"
| "keyed (PlayPop sid pcm) = True"
| "keyed (PlayWait sid pcm w) = True"
| "keyed (PlayOut sid pcm) = True"
| "keyed PlayFinish = True"
| "keyed PttOff = True"
| "keyed c = False"

fun sending :: "cpc \<Rightarrow> gostring option" where
  "sending (PlayPop sid pcm) = Some sid"
| "sending (PlayWait sid pcm w) = Some sid"
| "sending (PlayOut sid pcm) = Some sid"
| "sending c = None"

definition rb_sys_inv :: "rbsys \<Rightarrow> bool" where
  "rb_sys_inv s \<longleftrightarrow> rb_inv (rq s) \<and> pin s = keyed (ctl s)
     \<and> transmitting s = (keyed (ctl s) \<or> ctl s = PttPin \<or> ctl s = PttFlag)
     \<and> (\<forall>sid. sending (ctl s) = Some sid \<longrightarrow> current_stream (rq s) = Some sid)
     \<and> is_recording s = (recording s \<and> (\<forall>f. rec_pc s \<noteq> RStart f))
     \<and> (rec_pc s = REnd \<longrightarrow> recording s) \<and> (\<forall>f. rec_pc s = RStart f \<longrightarrow> recording s)"

lemma rb_sys_inv_init: "rb_sys_inv (init_rbsys (new_queue n secs))"
  by (simp add: rb_sys_inv_def init_rbsys_def rb_inv_new)

lemma current_stream_push:
  "current_stream q = Some sid \<Longrightarrow> current_stream (snd (rb_push parse d st sid' q)) = Some sid"
  by (auto simp: current_stream_def rb_push_def Let_def split: list.splits sum.splits option.splits)

lemma current_stream_pop [simp]: "current_stream (snd (pop_current q)) = current_stream q"
  by (simp add: current_stream_def pop_fields)

lemma ctl_step_inv: "rb_sys_inv s \<Longrightarrow> rb_sys_inv (ctl_step dec s)"
proof (cases "ctl s")
  case (PlayPop sid pcm)
  moreover assume "rb_sys_inv s"
  moreover have "rb_inv (snd (pop_current (rq s)))"
    using \<open>rb_sys_inv s\<close> by (simp add: rb_sys_inv_def rb_inv_pop)
  moreover have "current_stream (snd (pop_current (rq s))) = current_stream (rq s)" by simp
  ultimately show ?thesis
    by (cases "pop_current (rq s)") (auto simp: rb_sys_inv_def ctl_step_def split: option.splits)
qed (auto simp: rb_sys_inv_def ctl_step_def rb_inv_finish split: option.splits)

lemma rec_step_inv: "rec_step thr minms s t \<Longrightarrow> rb_sys_inv s \<Longrightarrow> rb_sys_inv t"
  by (induction rule: rec_step.induct) (auto simp: rb_sys_inv_def)

lemma rb_step_inv: "rb_step parse dec thr minms s t \<Longrightarrow> rb_sys_inv s \<Longrightarrow> rb_sys_inv t"
proof (induction rule: rb_step.induct)
  case (by_controller s)
  then show ?case by (rule ctl_step_inv)
next
  case (by_recorder s t)
  then show ?case by (rule rec_step_inv)
next
  case (by_client sid s d st)
  then show ?case by (auto simp: rb_sys_inv_def rb_inv_push current_stream_push)
qed

lemma rb_reach_inv: "rb_reach parse dec thr minms n secs s \<Longrightarrow> rb_sys_inv s"
  by (induction rule: rb_reach.induct) (auto intro: rb_sys_inv_init rb_step_inv)

section \<open>Playing\<close>

text \<open>The controller by itself.\<close>

definition ctl_runs :: "(bytes \<Rightarrow> gostring + 16 word list) \<Rightarrow> rbsys \<Rightarrow> rbsys \<Rightarrow> bool" where
  "ctl_runs dec = (\<lambda>s t. t = ctl_step dec s)\<^sup>*\<^sup>*"

lemma ctl_runs_refl [simp]: "ctl_runs dec s s"
  by (simp add: ctl_runs_def)

lemma ctl_runs_step: "ctl_runs dec (ctl_step dec s) t \<Longrightarrow> ctl_runs dec s t"
  unfolding ctl_runs_def by (rule converse_rtranclp_into_rtranclp) auto

lemma ctl_runs_trans: "ctl_runs dec s t \<Longrightarrow> ctl_runs dec t u \<Longrightarrow> ctl_runs dec s u"
  unfolding ctl_runs_def by (rule rtranclp_trans)

text \<open>The samples the controller writes for the chunks the emulator would play.\<close>

definition samples_of :: "(bytes \<Rightarrow> gostring + 16 word list) \<Rightarrow> playerEntry list \<Rightarrow> 16 word list" where
  "samples_of dec ps = concat (map (\<lambda>e. case dec (data e) of Inl err \<Rightarrow> [] | Inr pcm \<Rightarrow> pcm) ps)"

lemma samples_of_simps [simp]:
  "samples_of dec [] = []"
  "samples_of dec (emu_entry e # ps) = decoded dec e @ samples_of dec ps"
  by (simp_all add: samples_of_def decoded_def emu_entry_def)

lemma wait_times_out:
  assumes "ctl s = PlayWait sid pcm w" and "\<not> current_has_chunk (rq s)"
  shows "ctl_runs dec s (s\<lparr>ctl := PlayOut sid pcm\<rparr>)"
  using assms
proof (induction "STREAM_TIMEOUT_MS - w" arbitrary: s w rule: less_induct)
  case less
  show ?case
  proof (cases "w < STREAM_TIMEOUT_MS")
    case True
    then have "STREAM_TIMEOUT_MS - (w + POLL_INTERVAL_MS) < STREAM_TIMEOUT_MS - w"
      by (simp add: POLL_INTERVAL_MS_def)
    from less.hyps [OF this, of "s\<lparr>ctl := PlayWait sid pcm (w + POLL_INTERVAL_MS)\<rparr>"] less.prems True
    show ?thesis by (intro ctl_runs_step [of dec s]) (simp add: ctl_step_def)
  next
    case False
    then show ?thesis using less.prems by (intro ctl_runs_step [of dec s]) (simp add: ctl_step_def)
  qed
qed

lemma collects:
  "play_quiet p = (ps, p') \<Longrightarrow> player_of (rq s) = p \<Longrightarrow> player_inv p \<Longrightarrow> ctl s = PlayPop sid pcm \<Longrightarrow>
   \<exists>q. ctl_runs dec s (s\<lparr>rq := q, ctl := PlayOut sid (pcm @ samples_of dec ps)\<rparr>)
     \<and> player_of (finish_current q) = p'"
proof (induction p arbitrary: ps p' s pcm rule: play_quiet.induct)
  case (1 p)
  let ?q = "snd (pop_current (rq s))"
  have pop: "popCurrent p = (map_option emu_entry (fst (pop_current (rq s))), player_of ?q)"
    using pop_player [of "rq s"] 1 by simp
  show ?case
  proof (cases "fst (pop_current (rq s))")
    case None
    then have r: "ps = []" "p' = finishCurrent (player_of ?q)"
      using 1(2) pop by (simp_all add: play_quiet.simps [of p])
    have "\<not> current_has_chunk ?q"
      using None by (auto simp: pop_current_def current_has_chunk_def split: list.splits option.splits)
    moreover have "ctl_step dec s = s\<lparr>rq := ?q, ctl := PlayWait sid pcm 0\<rparr>"
      using None 1(5) by (simp add: ctl_step_def case_prod_unfold)
    ultimately have "ctl_runs dec s (s\<lparr>rq := ?q, ctl := PlayOut sid pcm\<rparr>)"
      using wait_times_out [of "s\<lparr>rq := ?q, ctl := PlayWait sid pcm 0\<rparr>" sid pcm 0 dec]
      by (intro ctl_runs_step [of dec s]) simp
    with r show ?thesis by (intro exI [of _ ?q]) (simp add: finish_player)
  next
    case (Some e)
    have st: "ctl_step dec s = s\<lparr>rq := ?q, ctl := if rb_terminal (rb_status e) then
        PlayOut sid (pcm @ decoded dec e) else PlayPop sid (pcm @ decoded dec e)\<rparr>"
      using Some 1(5) by (simp add: ctl_step_def case_prod_unfold)
    have es: "status (emu_entry e) = proto_status (rb_status e)" by (simp add: emu_entry_def)
    show ?thesis
    proof (cases "rb_terminal (rb_status e)")
      case True
      then have r: "ps = [emu_entry e]" "p' = finishCurrent (player_of ?q)"
        using 1(2) pop Some es by (simp_all add: play_quiet.simps [of p] del: is_terminal.simps)
      have "ctl_runs dec s (s\<lparr>rq := ?q, ctl := PlayOut sid (pcm @ decoded dec e)\<rparr>)"
        using True st by (intro ctl_runs_step [of dec s]) simp
      with r show ?thesis by (intro exI [of _ ?q]) (simp add: finish_player)
    next
      case False
      then obtain qs where qs: "play_quiet (player_of ?q) = (qs, p')" "ps = emu_entry e # qs"
        using 1(2) pop Some es
        by (auto simp: play_quiet.simps [of p] simp del: is_terminal.simps split: prod.splits)
      have inv: "player_inv (player_of ?q)" using popCurrent_inv [OF 1(4)] pop by simp
      let ?t = "s\<lparr>rq := ?q, ctl := PlayPop sid (pcm @ decoded dec e)\<rparr>"
      obtain q where "ctl_runs dec ?t (?t\<lparr>rq := q, ctl := PlayOut sid ((pcm @ decoded dec e) @ samples_of dec qs)\<rparr>)"
        "player_of (finish_current q) = p'"
        using 1(1) [of "Some (emu_entry e)" "player_of ?q" "emu_entry e" qs p' ?t "pcm @ decoded dec e"]
          pop Some es False qs(1) inv by (auto simp del: is_terminal.simps)
      then have "ctl_runs dec s (s\<lparr>rq := q, ctl := PlayOut sid (pcm @ samples_of dec ps)\<rparr>)"
        using False st qs(2) by (intro ctl_runs_step [of dec s]) simp
      with \<open>player_of (finish_current q) = p'\<close> show ?thesis by blast
    qed
  qed
qed

lemma plays_head:
  assumes "ctl s = PlayStart" and "rb_inv (rq s)" and "has_stream (rq s)"
    and "play_quiet (player_of (rq s)) = (ps, p')"
  shows "\<exists>q. ctl_runs dec s (s\<lparr>rq := q, ctl := PttOff,
      written := written s @ (if samples_of dec ps = [] then [] else [samples_of dec ps])\<rparr>)
    \<and> player_of q = p'"
proof -
  obtain sid where "current_stream (rq s) = Some sid"
    using assms(3) by (cases "rb_order (rq s)") (auto simp: has_stream_def current_stream_def)
  then have s1: "ctl_step dec s = s\<lparr>ctl := PlayPop sid []\<rparr>" using assms(1) by (simp add: ctl_step_def)
  have "player_inv (player_of (rq s))" using assms(2) by (simp add: rb_inv_def)
  then obtain q where q: "player_of (finish_current q) = p'"
    "ctl_runs dec (s\<lparr>ctl := PlayPop sid []\<rparr>) (s\<lparr>rq := q, ctl := PlayOut sid (samples_of dec ps)\<rparr>)"
    using collects [OF assms(4), of "s\<lparr>ctl := PlayPop sid []\<rparr>" sid "[]" dec] by auto
  let ?t = "s\<lparr>rq := q, ctl := PlayOut sid (samples_of dec ps)\<rparr>"
  let ?w = "written s @ (if samples_of dec ps = [] then [] else [samples_of dec ps])"
  let ?u = "s\<lparr>rq := q, ctl := PlayFinish, written := ?w\<rparr>"
  let ?v = "s\<lparr>rq := finish_current q, ctl := PttOff, written := ?w\<rparr>"
  have "ctl_step dec ?t = ?u" "ctl_step dec ?u = ?v" by (simp_all add: ctl_step_def)
  then have "ctl_runs dec ?t ?v"
    using ctl_runs_step [of dec ?t] ctl_runs_step [of dec ?u ?v] by simp
  with q(2) have "ctl_runs dec (s\<lparr>ctl := PlayPop sid []\<rparr>) ?v" by (rule ctl_runs_trans)
  with s1 have "ctl_runs dec s ?v" using ctl_runs_step [of dec s ?v] by simp
  with q(1) show ?thesis by (intro exI [of _ "finish_current q"]) simp
qed

section \<open>The pin is released\<close>

text \<open>From every keyed state the controller's own steps lead to the end of the transmission.\<close>

lemma releases:
  assumes "rb_inv (rq s)" and "keyed (ctl s)"
  shows "\<exists>t. ctl_runs dec s t \<and> ctl t = PttOff"
proof -
  have out: "\<exists>t. ctl_runs dec s t \<and> ctl t = PttOff" if "ctl s = PlayOut sid pcm" for s sid pcm
  proof -
    let ?u = "ctl_step dec s"
    have "ctl (ctl_step dec ?u) = PttOff" using that by (simp add: ctl_step_def)
    moreover have "ctl_runs dec s (ctl_step dec ?u)"
      using ctl_runs_step [of dec s] ctl_runs_step [of dec ?u "ctl_step dec ?u"] by simp
    ultimately show ?thesis by blast
  qed
  have pop: "\<exists>t. ctl_runs dec s t \<and> ctl t = PttOff"
    if inv: "rb_inv (rq s)" and at: "ctl s = PlayPop sid pcm" for s sid pcm
  proof -
    obtain ps p' where "play_quiet (player_of (rq s)) = (ps, p')" by (cases "play_quiet (player_of (rq s))")
    moreover have "player_inv (player_of (rq s))" using inv by (simp add: rb_inv_def)
    ultimately obtain q where "ctl_runs dec s (s\<lparr>rq := q, ctl := PlayOut sid (pcm @ samples_of dec ps)\<rparr>)"
      using collects [OF _ refl _ at] by blast
    moreover obtain t where "ctl_runs dec (s\<lparr>rq := q, ctl := PlayOut sid (pcm @ samples_of dec ps)\<rparr>) t"
      "ctl t = PttOff" using out [of "s\<lparr>rq := q, ctl := PlayOut sid (pcm @ samples_of dec ps)\<rparr>"] by auto
    ultimately show ?thesis using ctl_runs_trans by blast
  qed
  have next_step: "\<exists>t. ctl_runs dec s t \<and> ctl t = PttOff"
    if "\<exists>t. ctl_runs dec (ctl_step dec s) t \<and> ctl t = PttOff" for s
    using that ctl_runs_step by blast
  show ?thesis
  proof (cases "ctl s")
    case PlayStart
    show ?thesis
    proof (cases "current_stream (rq s)")
      case None
      with PlayStart have "ctl (ctl_step dec s) = PttOff" by (simp add: ctl_step_def)
      then show ?thesis by - (rule next_step, auto intro: exI [of _ "ctl_step dec s"])
    next
      case (Some sid)
      with PlayStart have "ctl (ctl_step dec s) = PlayPop sid []" "rq (ctl_step dec s) = rq s"
        by (simp_all add: ctl_step_def)
      with assms(1) pop [of "ctl_step dec s"] show ?thesis by - (rule next_step, simp)
    qed
  next
    case (PlayPop sid pcm)
    with assms(1) pop show ?thesis by blast
  next
    case (PlayWait sid pcm w)
    show ?thesis
    proof (cases "current_has_chunk (rq s)")
      case True
      then have "ctl (ctl_step dec s) = PlayOut sid pcm \<or> ctl (ctl_step dec s) = PlayPop sid pcm"
        "rq (ctl_step dec s) = rq s" using PlayWait by (simp_all add: ctl_step_def)
      with assms(1) out [of "ctl_step dec s"] pop [of "ctl_step dec s"] show ?thesis
        by - (rule next_step, auto)
    next
      case False
      obtain t where "ctl_runs dec (s\<lparr>ctl := PlayOut sid pcm\<rparr>) t" "ctl t = PttOff"
        using out [of "s\<lparr>ctl := PlayOut sid pcm\<rparr>"] by auto
      with ctl_runs_trans [OF wait_times_out [OF PlayWait False, of dec]] show ?thesis by blast
    qed
  next
    case (PlayOut sid pcm)
    then show ?thesis by (rule out)
  next
    case PlayFinish
    then have "ctl (ctl_step dec s) = PttOff" by (simp add: ctl_step_def)
    then show ?thesis by - (rule next_step, auto intro: exI [of _ "ctl_step dec s"])
  next
    case PttOff
    then show ?thesis by (intro exI [of _ s]) simp
  qed (use assms(2) in simp_all)
qed

section \<open>The controller comes to rest\<close>

text \<open>The places the controller reaches only with a stream in the queue, which nobody else removes.\<close>

fun needs_stream :: "cpc \<Rightarrow> bool" where
  "needs_stream (IdleRec w) = True"
| "needs_stream IdleForce = True"
| "needs_stream PttOn = True"
| "needs_stream PttPin = True"
| "needs_stream PlayStart = True"
| "needs_stream PlayFinish = True"
| "needs_stream c = False"

definition keyed_for :: "rbsys \<Rightarrow> bool" where
  "keyed_for s \<longleftrightarrow> (needs_stream (ctl s) \<longrightarrow> has_stream (rq s))"

lemma keyed_for_step: "rb_sys_inv s \<Longrightarrow> keyed_for s \<Longrightarrow> keyed_for (ctl_step dec s)"
  by (cases "ctl s")
    (auto simp: keyed_for_def ctl_step_def rb_sys_inv_def has_stream_def current_stream_def
      split: option.splits list.splits prod.splits)

text \<open>
  What is left to do while nobody records and nothing arrives: for each queued stream and chunk a
  whole round of the controller, and the rest of the round it is in.
\<close>


fun crank :: "AudioQueue \<Rightarrow> cpc \<Rightarrow> nat" where
  "crank q PttOff = 3012"
| "crank q PttFlag = 3011"
| "crank q CoolRec = 3010"
| "crank q CoolQueue = 3009"
| "crank q ListenForce = 3010"
| "crank q (Listen w) = 3009"
| "crank q ListenQueue = 3008"
| "crank q (IdleQueue w) = 3007"
| "crank q (IdleRec w) = 3006"
| "crank q IdleForce = 3005"
| "crank q PttOn = 3004"
| "crank q PttPin = 3003"
| "crank q PlayStart = 3002"
| "crank q (PlayPop sid pcm) = 3000"
| "crank q (PlayWait sid pcm w) = (if current_has_chunk q then 3001 else 10 + (STREAM_TIMEOUT_MS - w))"
| "crank q (PlayOut sid pcm) = 9"
| "crank q PlayFinish = 8"

definition ctl_todo :: "rbsys \<Rightarrow> nat" where
  "ctl_todo s = 4000 * rbq.load (rq s) + crank (rq s) (ctl s)"

definition at_rest :: "rbsys \<Rightarrow> bool" where
  "at_rest s \<longleftrightarrow> (\<exists>w. ctl s = IdleQueue w) \<and> \<not> has_stream (rq s)"

lemma load_finish: "rb_inv q \<Longrightarrow> has_stream q \<Longrightarrow> rbq.load (finish_current q) < rbq.load q"
  by (rule rbq.finish_load) (simp_all add: rb_repr_def queue_of_def has_stream_def)

lemma load_pop: "rb_inv q \<Longrightarrow> pop_current q = (Some e, q') \<Longrightarrow> rbq.load q' < rbq.load q"
  by (rule rbq.deq_load [where e = "emu_entry e"]) (simp_all add: rb_deq_def)

lemma pop_none: "pop_current q = (None, q') \<Longrightarrow> q' = q \<and> \<not> current_has_chunk q"
  by (auto simp: pop_current_def current_has_chunk_def split: list.splits option.splits)

lemma ctl_progress:
  assumes "rb_sys_inv s" and "keyed_for s" and "\<not> is_recording s" and "\<not> at_rest s"
  shows "ctl_todo (ctl_step dec s) < ctl_todo s"
proof -
  have inv: "rb_inv (rq s)" using assms(1) by (simp add: rb_sys_inv_def)
  show ?thesis
  proof (cases "ctl s")
    case (PlayPop sid pcm)
    show ?thesis
    proof (cases "pop_current (rq s)")
      case (Pair r q)
      show ?thesis
      proof (cases r)
        case None
        with PlayPop Pair pop_none [of "rq s" q] show ?thesis
          by (simp add: ctl_step_def ctl_todo_def STREAM_TIMEOUT_MS_def)
      next
        case (Some e)
        with PlayPop Pair load_pop [OF inv] show ?thesis
          by (fastforce simp: ctl_step_def ctl_todo_def)
      qed
    qed
  next
    case PlayFinish
    then have "has_stream (rq s)" using assms(2) by (simp add: keyed_for_def)
    with PlayFinish load_finish [OF inv] show ?thesis by (simp add: ctl_step_def ctl_todo_def)
  next
    case PlayStart
    then have "has_stream (rq s)" using assms(2) by (simp add: keyed_for_def)
    with PlayStart show ?thesis
      by (auto simp: ctl_step_def ctl_todo_def has_stream_def current_stream_def split: list.splits)
  next
    case (IdleQueue w)
    then have "has_stream (rq s)" using assms(4) by (simp add: at_rest_def)
    with IdleQueue show ?thesis by (simp add: ctl_step_def ctl_todo_def)
  next
    case (PlayWait sid pcm w)
    then show ?thesis
      by (auto simp: ctl_step_def ctl_todo_def STREAM_TIMEOUT_MS_def POLL_INTERVAL_MS_def)
  qed (use assms(3) in \<open>simp_all add: ctl_step_def ctl_todo_def\<close>)
qed

lemma ctl_not_recording: "\<not> is_recording s \<Longrightarrow> \<not> is_recording (ctl_step dec s)"
  by (auto simp: ctl_step_def split: cpc.splits prod.splits option.splits)

lemma ctl_comes_to_rest:
  "rb_sys_inv s \<Longrightarrow> keyed_for s \<Longrightarrow> \<not> is_recording s \<Longrightarrow>
   \<exists>t. ctl_runs dec s t \<and> at_rest t \<and> rb_sys_inv t \<and> \<not> is_recording t"
proof (induction "ctl_todo s" arbitrary: s rule: less_induct)
  case less
  show ?case
  proof (cases "at_rest s")
    case True
    with less.prems show ?thesis by (intro exI [of _ s]) simp
  next
    case False
    from less.hyps [OF ctl_progress [OF less.prems False] ctl_step_inv [OF less.prems(1)]
        keyed_for_step [OF less.prems(1,2)] ctl_not_recording [OF less.prems(3)]]
    show ?thesis using ctl_runs_step by blast
  qed
qed

text \<open>The recorder can always end what it records, whatever it reads.\<close>

definition rec_runs :: "nat \<Rightarrow> nat \<Rightarrow> rbsys \<Rightarrow> rbsys \<Rightarrow> bool" where
  "rec_runs thr minms = (rec_step thr minms)\<^sup>*\<^sup>*"

definition rec_quiet :: "nat \<Rightarrow> nat \<Rightarrow> rbsys \<Rightarrow> bool" where
  "rec_quiet thr minms s \<longleftrightarrow>
     (\<exists>t. rec_runs thr minms s t \<and> \<not> is_recording t \<and> rq t = rq s \<and> ctl t = ctl s)"

lemma rec_quiet_step:
  assumes "rec_step thr minms s t" and "rec_quiet thr minms t"
  shows "rec_quiet thr minms s"
proof -
  have "rq t = rq s \<and> ctl t = ctl s" using assms(1) by (cases rule: rec_step.cases) auto
  with assms show ?thesis
    unfolding rec_quiet_def rec_runs_def by (metis converse_rtranclp_into_rtranclp)
qed

lemma recorder_ends:
  assumes "recording s" and "\<forall>f. rec_pc s \<noteq> RStart f"
  shows "rec_quiet thr minms s"
proof -
  note via = rec_quiet_step
  have ended: "rec_quiet thr minms s" if "rec_pc s = REnd" for s
    using rec_end [OF that, of thr minms] by (rule via) (auto simp: rec_quiet_def rec_runs_def)
  have taken: "rec_quiet thr minms s" if "rec_pc s = RTake f" "recording s" for s f
    using rec_lost [OF that, of thr minms] by (rule via) (simp add: ended)
  have level: "rec_quiet thr minms s" if "rec_pc s = RLevel f" "recording s" for s f
    by (rule via [OF rec_level [OF that(1)]]) (use that taken [of _ f] in simp_all)
  have clear: "rec_quiet thr minms s" if "rec_pc s = RClear" "recording s" for s
    using rec_clear [OF that(1), of thr minms] by (rule via) (simp add: that ended)
  have read: "rec_quiet thr minms s" if "rec_pc s = RRead f" "recording s" for s f
  proof (cases "stop_recording s")
    case True
    from rec_stopped [OF that(1) True, of thr minms] show ?thesis by (rule via) (simp add: that clear)
  next
    case False
    from rec_go [OF that(1) False, of thr minms] show ?thesis by (rule via) (simp add: that level [of _ f])
  qed
  show ?thesis
  proof (cases "rec_pc s")
    case RTop
    from rec_frame [OF RTop, of thr minms undefined] show ?thesis
      by (rule via) (simp add: assms read [of _ undefined])
  qed (use assms ended taken level clear read in auto)
qed

section \<open>Properties\<close>

text \<open>Steps during which the transmit flag stays set.\<close>

definition while_transmitting ::
  "(bytes \<Rightarrow> gostring + nat) \<Rightarrow> (bytes \<Rightarrow> gostring + 16 word list) \<Rightarrow> nat \<Rightarrow> nat \<Rightarrow> rbsys \<Rightarrow> rbsys \<Rightarrow> bool" where
  "while_transmitting parse dec thr minms = (\<lambda>s t. rb_step parse dec thr minms s t \<and> transmitting t)\<^sup>*\<^sup>*"

lemma while_recorder:
  "rec_step thr minms s t \<Longrightarrow> while_transmitting parse dec thr minms t u \<Longrightarrow> transmitting t \<Longrightarrow>
   while_transmitting parse dec thr minms s u"
  unfolding while_transmitting_def by (auto intro: converse_rtranclp_into_rtranclp by_recorder)

lemma not_recording_step:
  assumes "rb_step parse dec thr minms s t" and "rb_sys_inv s" and "transmitting s" and "\<not> recording s"
  shows "\<not> recording t \<and> broadcasts t = broadcasts s"
  using assms(1)
proof (cases rule: rb_step.cases)
  case by_controller
  then show ?thesis using assms(4) by (auto simp: ctl_step_def split: cpc.splits prod.splits option.splits)
next
  case by_recorder
  then show ?thesis using assms(2-4) by (cases rule: rec_step.cases) auto
next
  case by_client
  then show ?thesis using assms(4) by simp
qed

lemma not_recording_run:
  assumes "while_transmitting parse dec thr minms s t" and "rb_sys_inv s" and "transmitting s" and "\<not> recording s"
  shows "\<not> recording t \<and> \<not> is_recording t \<and> broadcasts t = broadcasts s"
proof -
  have "rb_sys_inv t \<and> transmitting t \<and> \<not> recording t \<and> broadcasts t = broadcasts s"
    using assms(1) unfolding while_transmitting_def
  proof (induction rule: rtranclp_induct)
    case base
    with assms show ?case by simp
  next
    case (step t u)
    then show ?case using not_recording_step [of parse dec thr minms t u] rb_step_inv by auto
  qed
  then show ?thesis by (simp add: rb_sys_inv_def)
qed

text \<open>
  C6. The transceiver does not record itself: in every reachable state in which the pin is set, so is the
  transmit flag, and the stream being sent is the head of the queue; and if no recording is going on
  when a transmission begins, none starts and none is broadcast until the transmit flag is cleared,
  whatever the level of the input, the clients and the interleaving.
\<close>

theorem own_transmission_not_recorded:
  assumes "rb_reach parse dec thr minms n secs s"
  shows "(pin s \<longrightarrow> transmitting s) \<and>
    (\<forall>sid. sending (ctl s) = Some sid \<longrightarrow> pin s \<and> current_stream (rq s) = Some sid) \<and>
    (transmitting s \<and> \<not> recording s \<longrightarrow>
      (\<forall>t. while_transmitting parse dec thr minms s t \<longrightarrow>
         \<not> recording t \<and> \<not> is_recording t \<and> broadcasts t = broadcasts s))"
proof -
  have inv: "rb_sys_inv s" using assms by (rule rb_reach_inv)
  have "pin s" if "sending (ctl s) = Some sid" for sid
    using inv that by (cases "ctl s") (auto simp: rb_sys_inv_def)
  with inv show ?thesis
    using not_recording_run [OF _ inv] by (auto simp: rb_sys_inv_def)
qed

text \<open>A loud frame is read and a transmission begins before its level is looked at.\<close>

definition demo_keyed :: rbsys where
  "demo_keyed = (init_rbsys (new_queue 1 30))\<lparr>rec_pc := RLevel ([5], 900),
     rq := snd (rb_push (\<lambda>d. Inr 0) [1] RbOneshot ''o'' (new_queue 1 30)),
     transmitting := True, pin := True, ctl := PlayStart\<rparr>"

lemma by_ctl: "rb_reach parse dec thr minms n secs s \<Longrightarrow> rb_reach parse dec thr minms n secs (ctl_step dec s)"
  by (erule rb_next) (rule by_controller)

lemma by_rec: "rec_step thr minms s t \<Longrightarrow> rb_reach parse dec thr minms n secs s \<Longrightarrow> rb_reach parse dec thr minms n secs t"
  by (erule rb_next) (rule by_recorder)

text \<open>A client's chunk arrives and a frame is read; the controller decides to transmit.\<close>

definition decided :: "(bytes \<Rightarrow> gostring + nat) \<Rightarrow> frame \<Rightarrow> bytes \<Rightarrow> RbStatus \<Rightarrow> nat \<Rightarrow> nat \<Rightarrow> rbsys" where
  "decided parse f d st n secs = (init_rbsys (new_queue n secs))\<lparr>rec_pc := RLevel f,
     rq := snd (rb_push parse d st ''o'' (new_queue n secs)), ctl := PttOn\<rparr>"

lemma decided_reach:
  assumes "parse d = Inr dur" and "dur \<le> secs * 1000000000" and "0 < n"
  shows "rb_reach parse dec thr minms n secs (decided parse f d st n secs)"
proof -
  let ?R = "rb_reach parse dec thr minms n secs"
  let ?q = "snd (rb_push parse d st ''o'' (new_queue n secs))"
  let ?s = "init_rbsys (new_queue n secs)"
  have hs: "has_stream ?q" using assms by (simp add: rb_push_def new_queue_def has_stream_def)
  have "?R (?s\<lparr>rec_pc := RRead f\<rparr>)"
    by (rule by_rec [OF _ rb_init]) (rule rec_frame, simp add: init_rbsys_def)
  then have "?R (?s\<lparr>rec_pc := RLevel f\<rparr>)"
    using by_rec [OF rec_go [of "?s\<lparr>rec_pc := RRead f\<rparr>" f]] by (simp add: init_rbsys_def)
  from rb_next [OF this by_client [of "''o''" parse dec thr minms _ d st]]
  have "?R (?s\<lparr>rec_pc := RLevel f, rq := ?q\<rparr>)" by (simp add: init_rbsys_def)
  from by_ctl [OF by_ctl [OF this]] hs show ?thesis
    by (simp add: ctl_step_def init_rbsys_def decided_def)
qed

lemma demo_keyed_reach: "rb_reach (\<lambda>d. Inr 0) dec 500 800 1 30 demo_keyed"
proof -
  have "rb_reach (\<lambda>d. Inr 0) dec 500 800 1 30 (decided (\<lambda>d. Inr 0) ([5], 900) [1] RbOneshot 1 30)"
    by (rule decided_reach [where dur = 0]) simp_all
  from by_ctl [OF by_ctl [OF this]] show ?thesis
    by (simp add: ctl_step_def decided_def demo_keyed_def init_rbsys_def)
qed

theorem own_transmission_not_recorded_witness:
  "rb_reach (\<lambda>d. Inr 0) (\<lambda>d. Inr []) 500 800 1 30 demo_keyed \<and> pin demo_keyed \<and> transmitting demo_keyed \<and>
   broadcasts ` {t. while_transmitting (\<lambda>d. Inr 0) (\<lambda>d. Inr []) 500 800 demo_keyed t} = {[]}"
proof -
  have r: "rb_reach (\<lambda>d. Inr 0) (\<lambda>d. Inr []) 500 800 1 30 demo_keyed" by (rule demo_keyed_reach)
  moreover have "transmitting demo_keyed \<and> pin demo_keyed \<and> \<not> recording demo_keyed \<and> broadcasts demo_keyed = []"
    by (simp add: demo_keyed_def init_rbsys_def)
  moreover have "while_transmitting (\<lambda>d. Inr 0) (\<lambda>d. Inr []) 500 800 demo_keyed demo_keyed"
    by (simp add: while_transmitting_def)
  ultimately show ?thesis using own_transmission_not_recorded [OF r] by (auto intro: rev_image_eqI)
qed

text \<open>
  C21. But a recording that is about to begin when the controller decides to transmit goes on: the
  recorder looks at the transmit flag before it says that it is recording, and the controller looks
  at that before it sets the flag. Then the pin is set while a recording runs, nobody has asked it
  to stop, and frames read while the pin is set become part of it and are broadcast to the clients.
\<close>

theorem transmission_recorded:
  fixes f g :: frame
  assumes "parse d = Inr dur" and "dur \<le> secs * 1000000000" and "0 < n" and "thr \<le> snd f"
    and "long_enough minms (fst f @ fst g)"
  shows "\<exists>s t. rb_reach parse dec thr minms n secs s \<and> pin s \<and> rec_pc s = RTop \<and> is_recording s
     \<and> \<not> stop_recording s \<and> while_transmitting parse dec thr minms s t \<and> pin t
     \<and> broadcasts t = [fst f @ fst g]"
proof -
  let ?R = "rb_reach parse dec thr minms n secs"
  define s0 where "s0 = decided parse f d RbStart n secs"
  define s01 where "s01 = s0\<lparr>recording := True, is_recording := True, record_buf := [],
    transmitting := True, pin := True, ctl := PlayStart\<rparr>"
  define s where "s = s01\<lparr>record_buf := fst f, rec_pc := RTop\<rparr>"
  define t where "t = s\<lparr>record_buf := fst f @ fst g, broadcasts := [fst f @ fst g], rec_pc := REnd\<rparr>"
  note defs = s0_def s01_def s_def t_def decided_def init_rbsys_def
  have "?R s0" unfolding s0_def using assms(1-3) by (rule decided_reach)
  from by_rec [OF rec_loud [of s0 f] this] assms(4)
  have "?R (s0\<lparr>recording := True, record_buf := [], rec_pc := RStart f\<rparr>)" by (simp add: defs)
  from by_rec [OF rec_start [of _ f] by_ctl [OF by_ctl [OF this]]]
  have "?R (s01\<lparr>rec_pc := RTake f\<rparr>)" by (simp add: defs ctl_step_def)
  from by_rec [OF rec_more [of _ f] this] have rs: "?R s" by (simp add: defs)
  have on: "transmitting s" by (simp add: defs)
  have s4: "rec_step thr minms (s\<lparr>rec_pc := RTake g\<rparr>) t"
    using rec_done [of "s\<lparr>rec_pc := RTake g\<rparr>" g "fst f @ fst g" thr minms] assms(5) by (simp add: defs)
  have s3: "rec_step thr minms (s\<lparr>rec_pc := RLevel g\<rparr>) (s\<lparr>rec_pc := RTake g\<rparr>)"
    using rec_level [of "s\<lparr>rec_pc := RLevel g\<rparr>" g thr minms] by (simp add: defs)
  have s2: "rec_step thr minms (s\<lparr>rec_pc := RRead g\<rparr>) (s\<lparr>rec_pc := RLevel g\<rparr>)"
    using rec_go [of "s\<lparr>rec_pc := RRead g\<rparr>" g thr minms] by (simp add: defs)
  have s1: "rec_step thr minms s (s\<lparr>rec_pc := RRead g\<rparr>)" by (rule rec_frame) (simp add: s_def)
  have "while_transmitting parse dec thr minms t t" by (simp add: while_transmitting_def)
  then have "while_transmitting parse dec thr minms (s\<lparr>rec_pc := RTake g\<rparr>) t"
    by (rule while_recorder [OF s4]) (simp add: t_def on)
  then have "while_transmitting parse dec thr minms (s\<lparr>rec_pc := RLevel g\<rparr>) t"
    by (rule while_recorder [OF s3]) (simp add: on)
  then have "while_transmitting parse dec thr minms (s\<lparr>rec_pc := RRead g\<rparr>) t"
    by (rule while_recorder [OF s2]) (simp add: on)
  then have "while_transmitting parse dec thr minms s t"
    by (rule while_recorder [OF s1]) (simp add: on)
  with rs show ?thesis by (intro exI [of _ s] exI [of _ t]) (simp add: defs)
qed

theorem transmission_recorded_witness:
  "\<exists>s t. rb_reach (\<lambda>d. Inr 0) (\<lambda>d. Inr []) 500 0 1 30 s \<and> pin s \<and> is_recording s \<and> \<not> stop_recording s
     \<and> while_transmitting (\<lambda>d. Inr 0) (\<lambda>d. Inr []) 500 0 s t \<and> broadcasts t = [[5, 6]]"
proof -
  have "(500::nat) \<le> snd ([5], 900)" and "long_enough 0 (fst ([5], 900::nat) @ fst ([6], 10::nat))"
    by (simp_all add: long_enough_def)
  from transmission_recorded [where parse = "\<lambda>d. Inr 0" and d = "[1]" and dur = 0 and secs = 30 and n = 1
      and dec = "\<lambda>d. Inr []", OF _ _ _ this] show ?thesis by auto
qed

text \<open>
  A transmission ends: from every reachable state in which the pin is set, the controller's own steps,
  with no more chunks arriving, lead to a state in which it is cleared.
\<close>

theorem pin_released:
  assumes "rb_reach parse dec thr minms n secs s" and "pin s"
  shows "\<exists>t. ctl_runs dec s t \<and> \<not> pin t \<and> ctl t = PttFlag"
proof -
  have inv: "rb_sys_inv s" using assms(1) by (rule rb_reach_inv)
  then obtain t where t: "ctl_runs dec s t" "ctl t = PttOff"
    using releases [of s dec] assms(2) by (auto simp: rb_sys_inv_def)
  moreover have "ctl_runs dec t (ctl_step dec t)" using ctl_runs_step [of dec t "ctl_step dec t"] by simp
  ultimately show ?thesis
    using ctl_runs_trans by (intro exI [of _ "ctl_step dec t"]) (auto simp: ctl_step_def)
qed

theorem pin_released_witness:
  "pin demo_keyed \<and> (\<exists>t. ctl_runs (\<lambda>d. Inr [7]) demo_keyed t \<and> \<not> pin t)"
proof -
  have "pin demo_keyed" by (simp add: demo_keyed_def)
  with pin_released [OF demo_keyed_reach] show ?thesis by blast
qed

text \<open>The bridge by itself, with no more chunks arriving: its controller and its recorder.\<close>

definition own_runs :: "(bytes \<Rightarrow> gostring + 16 word list) \<Rightarrow> nat \<Rightarrow> nat \<Rightarrow> rbsys \<Rightarrow> rbsys \<Rightarrow> bool" where
  "own_runs dec thr minms = (\<lambda>s t. t = ctl_step dec s \<or> rec_step thr minms s t)\<^sup>*\<^sup>*"

lemma own_runs_ctl: "ctl_runs dec s t \<Longrightarrow> own_runs dec thr minms s t"
  unfolding ctl_runs_def own_runs_def by (erule rtranclp_mono [THEN predicate2D, rotated]) blast

lemma own_runs_rec: "rec_runs thr minms s t \<Longrightarrow> own_runs dec thr minms s t"
  unfolding rec_runs_def own_runs_def by (erule rtranclp_mono [THEN predicate2D, rotated]) blast

lemma rec_runs_inv: "rec_runs thr minms s t \<Longrightarrow> rb_sys_inv s \<Longrightarrow> rb_sys_inv t"
  unfolding rec_runs_def by (induction rule: rtranclp_induct) (simp_all add: rec_step_inv)

lemma rb_reach_keyed: "rb_reach parse dec thr minms n secs s \<Longrightarrow> keyed_for s"
proof (induction rule: rb_reach.induct)
  case rb_init
  show ?case by (simp add: keyed_for_def init_rbsys_def)
next
  case (rb_next s t)
  from rb_next(2) show ?case
  proof (cases rule: rb_step.cases)
    case by_controller
    with rb_next show ?thesis using rb_reach_inv keyed_for_step by blast
  next
    case by_recorder
    then have "rq t = rq s \<and> ctl t = ctl s" by (cases rule: rec_step.cases) auto
    with rb_next show ?thesis by (simp add: keyed_for_def)
  next
    case (by_client sid d st)
    then show ?thesis
      using rb_next.IH by (auto simp: keyed_for_def has_stream_def rb_push_def Let_def split: sum.splits option.splits)
  qed
qed

text \<open>
  C24. The bridge never gets stuck: from every reachable state, whatever is queued, recorded or half
  transmitted, the controller by itself gets to a state with the pin cleared, and controller and
  recorder together can, with no more chunks arriving, empty the queue and come to rest, the
  transceiver unkeyed and nothing being recorded.
\<close>

theorem bridge_comes_to_rest:
  assumes "rb_reach parse dec thr minms n secs s"
  shows "(\<exists>t. ctl_runs dec s t \<and> \<not> pin t) \<and>
    (\<exists>t. own_runs dec thr minms s t \<and> \<not> has_stream (rq t) \<and> \<not> pin t \<and> \<not> transmitting t \<and> \<not> is_recording t)"
proof
  show "\<exists>t. ctl_runs dec s t \<and> \<not> pin t"
    using pin_released [OF assms] ctl_runs_refl [of dec s] by blast
  have inv: "rb_sys_inv s" and keyed: "keyed_for s" using assms by (rule rb_reach_inv, rule rb_reach_keyed)
  have "rec_quiet thr minms s"
  proof (cases "is_recording s")
    case True
    with inv show ?thesis by (intro recorder_ends) (auto simp: rb_sys_inv_def)
  next
    case False
    then show ?thesis by (auto simp: rec_quiet_def rec_runs_def)
  qed
  then obtain u where u: "rec_runs thr minms s u" "\<not> is_recording u" "rq u = rq s" "ctl u = ctl s"
    by (auto simp: rec_quiet_def)
  have "keyed_for u" using keyed u(3,4) by (simp add: keyed_for_def)
  from ctl_comes_to_rest [OF rec_runs_inv [OF u(1) inv] this u(2), of dec]
  obtain t where t: "ctl_runs dec u t" "at_rest t" "rb_sys_inv t" "\<not> is_recording t" by blast
  have "own_runs dec thr minms s t"
    using own_runs_rec [OF u(1)] own_runs_ctl [OF t(1)] unfolding own_runs_def by (rule rtranclp_trans)
  moreover have "\<not> has_stream (rq t) \<and> \<not> pin t \<and> \<not> transmitting t"
    using t(2,3) by (auto simp: at_rest_def rb_sys_inv_def)
  ultimately show "\<exists>t. own_runs dec thr minms s t \<and> \<not> has_stream (rq t) \<and> \<not> pin t \<and> \<not> transmitting t \<and> \<not> is_recording t"
    using t(4) by blast
qed

theorem bridge_comes_to_rest_witness:
  "\<exists>t. own_runs (\<lambda>d. Inr [7]) 500 800 demo_keyed t \<and> \<not> has_stream (rq t) \<and> \<not> pin t"
  using bridge_comes_to_rest [OF demo_keyed_reach [where dec = "\<lambda>d. Inr [7]"]] by blast

text \<open>
  C7. The bridge sends what the emulator plays: from every reachable state in which it starts on the head
  of its queue and no more chunks arrive, the controller runs to the end of the transmission, with
  the pin set, and has written in one piece the samples of exactly the chunks the emulator's
  playback loop would play of the same queue, in order, except those that cannot be decoded; then
  its queue is what the emulator's would be.
\<close>

theorem bridge_sends_what_emulator_plays:
  assumes "rb_reach parse dec thr minms n secs s" and "ctl s = PlayStart" and "has_stream (rq s)"
    and "play_quiet (player_of (rq s)) = (ps, p')"
  shows "\<exists>t. ctl_runs dec s t \<and> ctl t = PttOff \<and> pin t \<and> player_of (rq t) = p' \<and>
    written t = written s @ (if samples_of dec ps = [] then [] else [samples_of dec ps])"
proof -
  have inv: "rb_sys_inv s" using assms(1) by (rule rb_reach_inv)
  then have "rb_inv (rq s)" "pin s" using assms(2) by (simp_all add: rb_sys_inv_def)
  with plays_head [OF assms(2) _ assms(3,4), of dec] show ?thesis by fastforce
qed

theorem bridge_sends_what_emulator_plays_witness:
  "\<exists>t. ctl_runs (\<lambda>d. Inr [7, 8]) demo_keyed t \<and> ctl t = PttOff \<and> pin t \<and> written t = [[7, 8]]
     \<and> order (player_of (rq t)) = []"
proof -
  have q: "player_of (rq demo_keyed) = push [1] ONESHOT ''o'' newPlayer"
    by (auto simp: demo_keyed_def rb_push_def new_queue_def player_of_def push_def newPlayer_def emu_entry_def)
  have "player_inv (push [1] ONESHOT ''o'' newPlayer)" by (simp add: push_inv newPlayer_inv)
  moreover have "queue_of (push [1] ONESHOT ''o'' newPlayer) = [(''o'', [\<lparr>data = [1], status = ONESHOT\<rparr>])]"
    by (simp add: newPlayer_def push_def queue_of_def stream_chunks_def Let_def)
  ultimately obtain p' where p: "play_quiet (player_of (rq demo_keyed)) = ([\<lparr>data = [1], status = ONESHOT\<rparr>], p')"
    "queue_of p' = []"
    using quiet_playback [of "push [1] ONESHOT ''o'' newPlayer" "''o''"] q by fastforce
  have "ctl demo_keyed = PlayStart" "has_stream (rq demo_keyed)" "written demo_keyed = []"
    by (simp_all add: demo_keyed_def rb_push_def new_queue_def has_stream_def init_rbsys_def)
  with bridge_sends_what_emulator_plays [OF demo_keyed_reach _ _ p(1), of "\<lambda>d. Inr [7, 8]"] p(2)
  show ?thesis by (auto simp: samples_of_def queue_of_def)
qed

end
