(* ===== verification/RbMain.thy ===== *)
theory RbMain
  imports RbHandler RbController
begin

text \<open>
  Starting the radio bridge: \<open>app/radio-bridge/src/config.rs\<close> and \<open>main.rs\<close>. The TOML library, the file
  system and the parser of addresses are parameters; what runs afterwards is \<open>rb_step\<close>.
\<close>

section \<open>Configuration\<close>

text \<open>
  The sections of the file. Three fields of the audio section may be missing in it; \<open>'a\<close> is the audio
  section before or after the defaults are filled in. The numbers are in the range of their types, which
  the TOML library checks.
\<close>

record ServerConfig =
  listen_addr :: gostring

record GpioConfig =
  ptt_pin :: nat

record RbAudioFile =
  fOutputDevice :: gostring
  fInputDevice :: gostring
  fThresholdRms :: nat
  fSilenceMs :: nat
  fMaxRecordingSecs :: nat
  fMinRecordingMs :: "nat option"
  fDumpOggEnabled :: "bool option"
  fDumpOggDir :: "gostring option"

record RbAudioConfig =
  output_device :: gostring
  input_device :: gostring
  input_threshold_rms :: nat
  input_silence_ms :: nat
  input_max_recording_secs :: nat
  input_min_recording_ms :: nat
  dump_ogg_enabled :: bool
  dump_ogg_dir :: gostring

record TimingConfig =
  ptt_on_delay_ms :: nat
  ptt_off_delay_ms :: nat
  cooldown_ms :: nat

record QueueConfig =
  max_audio_duration_secs :: nat
  max_queue_size :: nat

record 'a RbConfig =
  cServer :: ServerConfig
  cGpio :: GpioConfig
  cAudio :: 'a
  cTiming :: TimingConfig
  cQueue :: QueueConfig

definition default_input_min_recording_ms :: nat where
  "default_input_min_recording_ms = 800"

definition default_dump_ogg_dir :: gostring where
  "default_dump_ogg_dir = ''/app/dump_audio''"

definition or_default :: "'a \<Rightarrow> 'a option \<Rightarrow> 'a" where
  "or_default d x = (case x of None \<Rightarrow> d | Some y \<Rightarrow> y)"

definition with_defaults :: "RbAudioFile \<Rightarrow> RbAudioConfig" where
  "with_defaults f = \<lparr>output_device = fOutputDevice f, input_device = fInputDevice f,
     input_threshold_rms = fThresholdRms f, input_silence_ms = fSilenceMs f,
     input_max_recording_secs = fMaxRecordingSecs f,
     input_min_recording_ms = or_default default_input_min_recording_ms (fMinRecordingMs f),
     dump_ogg_enabled = or_default False (fDumpOggEnabled f),
     dump_ogg_dir = or_default default_dump_ogg_dir (fDumpOggDir f)\<rparr>"

text \<open>\<open>toml\<close> reads the sections as the file has them.\<close>

definition load_config ::
  "(gostring \<Rightarrow> gostring + gostring) \<Rightarrow> (gostring \<Rightarrow> gostring + RbAudioFile RbConfig) \<Rightarrow> gostring
     \<Rightarrow> gostring + RbAudioConfig RbConfig" where
  "load_config read_file toml path =
     (case read_file path of
        Inl e \<Rightarrow> Inl e
      | Inr content \<Rightarrow>
          (case toml content of
             Inl e \<Rightarrow> Inl e
           | Inr f \<Rightarrow> Inr \<lparr>cServer = cServer f, cGpio = cGpio f, cAudio = with_defaults (cAudio f),
               cTiming = cTiming f, cQueue = cQueue f\<rparr>))"

section \<open>Starting\<close>

text \<open>
  What is built: the shared state, the arguments of the recorder's thread, the address served, and the
  configuration the controller keeps. The recorder runs before the address is parsed.
\<close>

record rb_started =
  sSystem :: rbsys
  sInputDevice :: gostring
  sThreshold :: nat
  sSilenceMs :: nat
  sMinMs :: nat
  sMaxMs :: nat
  sDumpDir :: "gostring option"
  sAddr :: gostring
  sConfig :: "RbAudioConfig RbConfig"

definition rb_build ::
  "(gostring \<Rightarrow> gostring + gostring) \<Rightarrow> (gostring \<Rightarrow> gostring + RbAudioFile RbConfig)
     \<Rightarrow> (gostring \<Rightarrow> gostring option) \<Rightarrow> gostring list \<Rightarrow> gostring + rb_started" where
  "rb_build read_file toml addr_error args =
     (let config_path = (if 1 < length args then args ! 1 else ''config.toml'')
      in case load_config read_file toml config_path of
           Inl e \<Rightarrow> Inl e
         | Inr cfg \<Rightarrow>
             let queue = new_queue (max_queue_size (cQueue cfg)) (max_audio_duration_secs (cQueue cfg));
                 dump = (if dump_ogg_enabled (cAudio cfg) then Some (dump_ogg_dir (cAudio cfg)) else None)
             in case addr_error (listen_addr (cServer cfg)) of
                  Some e \<Rightarrow> Inl e
                | None \<Rightarrow> Inr \<lparr>sSystem = init_rbsys queue, sInputDevice = input_device (cAudio cfg),
                    sThreshold = input_threshold_rms (cAudio cfg), sSilenceMs = input_silence_ms (cAudio cfg),
                    sMinMs = input_min_recording_ms (cAudio cfg),
                    sMaxMs = input_max_recording_secs (cAudio cfg) * 1000, sDumpDir = dump,
                    sAddr = listen_addr (cServer cfg), sConfig = cfg\<rparr>)"

text \<open>
  \<open>main\<close> fails before it serves, ends without an error because the controller's task could not get the
  pin (\<open>gpio\<close>) or the server's could not serve, or goes on.
\<close>

datatype rb_outcome = RbFailed gostring | RbExited | RbRunning rb_started

definition rb_main ::
  "(gostring \<Rightarrow> gostring + gostring) \<Rightarrow> (gostring \<Rightarrow> gostring + RbAudioFile RbConfig)
     \<Rightarrow> (gostring \<Rightarrow> gostring option) \<Rightarrow> (nat \<Rightarrow> bool) \<Rightarrow> (gostring \<Rightarrow> bool) \<Rightarrow> gostring list \<Rightarrow> rb_outcome" where
  "rb_main read_file toml addr_error gpio serves args =
     (case rb_build read_file toml addr_error args of
        Inl e \<Rightarrow> RbFailed e
      | Inr b \<Rightarrow>
          if \<not> gpio (ptt_pin (cGpio (sConfig b))) \<or> \<not> serves (sAddr b) then RbExited else RbRunning b)"

text \<open>
  Once started, whatever happens, the queue keeps within the sizes of the configuration, which is the
  one that was loaded, with its defaults.
\<close>

lemma rb_reach_max:
  "rb_reach parse decode thr minms n secs s \<Longrightarrow> max_streams (rq s) = n \<and> max_duration (rq s) = secs * 1000000000"
proof (induction rule: rb_reach.induct)
  case rb_init
  show ?case by (simp add: init_rbsys_def new_queue_def)
next
  case (rb_next s t)
  from rb_next(2) show ?case
  proof (cases rule: rb_step.cases)
    case by_controller
    then show ?thesis
      using rb_next.IH pop_fields(2,3) [of "rq s"]
      by (auto simp: ctl_step_def finish_current_def split: cpc.splits prod.splits option.splits list.splits)
  next
    case by_recorder
    then show ?thesis using rb_next.IH by (cases rule: rec_step.cases) auto
  next
    case by_client
    then show ?thesis
      using rb_next.IH by (auto simp: rb_push_def Let_def split: sum.splits option.splits)
  qed
qed

lemma started_within_config:
  assumes "load_config read_file toml ''config.toml'' = Inr cfg" and "addr_error (listen_addr (cServer cfg)) = None"
    and "gpio (ptt_pin (cGpio cfg))" and "serves (listen_addr (cServer cfg))"
    and "n = max_queue_size (cQueue cfg)" and "secs = max_audio_duration_secs (cQueue cfg)"
  shows "\<exists>b. rb_main read_file toml addr_error gpio serves [] = RbRunning b \<and>
    rb_reach parse decode (sThreshold b) (sMinMs b) n secs (sSystem b) \<and>
    (\<forall>s. rb_reach parse decode (sThreshold b) (sMinMs b) n secs s \<longrightarrow> length (rb_order (rq s)) \<le> n)"
proof -
  have "length (rb_order (rq s)) \<le> n" if "rb_reach parse decode thr m n secs s" for thr m s
    using rb_reach_inv [OF that] rb_reach_max [OF that] by (simp add: rb_sys_inv_def rb_inv_def)
  then show ?thesis using assms by (simp add: rb_main_def rb_build_def Let_def rb_init)
qed

end
