(* ===== verification/RbAudio.thy ===== *)
theory RbAudio
  imports EmuAudio RbController
begin

text \<open>
  Sample handling of the radio bridge next to the emulator's: decoding and writing in
  \<open>app/radio-bridge/src/audio/player.rs\<close>; mixing, level, normalisation and encoding in
  \<open>audio/recorder.rs\<close>, with the length its own queue reads from an encoded recording.
\<close>

section \<open>Decoding\<close>

text \<open>
  \<open>end\<close> is the error of the Ogg reader after the packets, if reading fails. Any error makes the whole
  chunk an error.
\<close>

fun rb_decode_packets ::
  "('d \<Rightarrow> bytes \<Rightarrow> (gostring + 16 word list) \<times> 'd) \<Rightarrow> nat \<Rightarrow> packet list \<Rightarrow> gostring option \<Rightarrow> 'd
     \<Rightarrow> gostring + 16 word list" where
  "rb_decode_packets dec header_packets [] end d = (case end of None \<Rightarrow> Inr [] | Some e \<Rightarrow> Inl e)"
| "rb_decode_packets dec header_packets (pkt # pkts) end d =
     (if header_packets < 2 then rb_decode_packets dec (header_packets + 1) pkts end d
      else case dec d (pkData pkt) of
             (Inl e, d') \<Rightarrow> Inl e
           | (Inr s, d') \<Rightarrow>
               (case rb_decode_packets dec header_packets pkts end d' of
                  Inl e \<Rightarrow> Inl e
                | Inr output \<Rightarrow> Inr (s @ output)))"

definition ALSA_SAMPLE_RATE :: nat where "ALSA_SAMPLE_RATE = 48000"
definition OPUS_SAMPLE_RATE :: nat where "OPUS_SAMPLE_RATE = 24000"
definition MAX_DECODE_SIZE :: nat where "MAX_DECODE_SIZE = 2880"

text \<open>
  \<open>newDec\<close> creates a decoder for a sample rate and a number of channels (\<open>Channels::Mono\<close> is 1); \<open>dec\<close>
  decodes a packet into a buffer of so many samples. The emulator uses the same library through Go.
\<close>

definition rb_decode_ogg_opus ::
  "(nat \<Rightarrow> nat \<Rightarrow> gostring + 'd) \<Rightarrow> ('d \<Rightarrow> bytes \<Rightarrow> nat \<Rightarrow> (gostring + 16 word list) \<times> 'd)
     \<Rightarrow> (bytes \<Rightarrow> packet list \<times> gostring option) \<Rightarrow> bytes \<Rightarrow> gostring + 16 word list" where
  "rb_decode_ogg_opus newDec dec read d =
     (case newDec OPUS_SAMPLE_RATE 1 of
        Inl e \<Rightarrow> Inl e
      | Inr d0 \<Rightarrow>
          (case read d of (pkts, end) \<Rightarrow>
             rb_decode_packets (\<lambda>d b. dec d b MAX_DECODE_SIZE) 0 pkts end d0))"

text \<open>What the bridge decodes, the emulator decodes to the same samples.\<close>

lemma rb_decode_packets_emulator:
  assumes "\<And>d b s d'. dec d b = (Inr s, d') \<Longrightarrow> dec' d b = (Inr s, d')"
  shows "rb_decode_packets dec h pkts end d = Inr s \<Longrightarrow> decode_packets dec' h pkts d = s"
proof (induction pkts arbitrary: h d s)
  case Nil
  then show ?case by (simp split: option.splits)
next
  case (Cons p pkts)
  show ?case
  proof (cases "h < 2")
    case True
    with Cons show ?thesis by simp
  next
    case False
    with Cons.prems obtain s1 d' s2 where d: "dec d (pkData p) = (Inr s1, d')"
      "rb_decode_packets dec h pkts end d' = Inr s2" "s = s1 @ s2"
      by (auto split: prod.splits sum.splits)
    with False Cons.IH [OF d(2)] assms [OF d(1)] show ?thesis by simp
  qed
qed

text \<open>
  What the decoder's library documents of the buffer it decodes into: a packet that fits one buffer
  is decoded to the same samples in a larger one.
\<close>

definition fits_larger_buffer ::
  "('d \<Rightarrow> bytes \<Rightarrow> nat \<Rightarrow> (gostring + 16 word list) \<times> 'd) \<Rightarrow> bool" where
  "fits_larger_buffer dec \<longleftrightarrow>
     (\<forall>d b n m s d'. dec d b n = (Inr s, d') \<longrightarrow> n \<le> m \<longrightarrow> dec d b m = (Inr s, d'))"

section \<open>Writing\<close>

text \<open>
  The loop of \<open>write_pcm_to_alsa\<close>: a write takes some samples, or fails and is recovered from, or fails
  for good. The result is the samples written, and what the function returns once it does.
\<close>

datatype write_result = Wrote nat | Recovered | Failed gostring

fun alsa_loop :: "write_result list \<Rightarrow> 'a list \<Rightarrow> 'a list \<times> unit go option" where
  "alsa_loop ws [] = ([], Some (Return ()))"
| "alsa_loop [] (x # rest) = ([], None)"
| "alsa_loop (Wrote n # ws) (x # rest) =
     (case alsa_loop ws (drop n (x # rest)) of (out, r) \<Rightarrow> (take n (x # rest) @ out, r))"
| "alsa_loop (Recovered # ws) (x # rest) = alsa_loop ws (x # rest)"
| "alsa_loop (Failed e # ws) (x # rest) = ([], Some (Error e))"

text \<open>
  The calls on the device around the loop, in their order; the device \<open>dev\<close> answers each with an
  error or not, and \<open>?\<close> returns the first error. (\<open>HwParams::any\<close> starts from all parameters;
  \<open>SetRate\<close> asks for the nearest rate the device has.)
\<close>

datatype alsa_call =
  OpenPlayback gostring | AnyParams | SetChannels nat | SetRate nat | SetFormatS16
  | SetRWInterleaved | ApplyParams | IoI16 | Drain

fun alsa_calls ::
  "(alsa_call \<Rightarrow> gostring option) \<Rightarrow> alsa_call list \<Rightarrow> alsa_call list \<times> gostring option" where
  "alsa_calls dev [] = ([], None)"
| "alsa_calls dev (c # cs) =
     (case dev c of
        Some e \<Rightarrow> ([c], Some e)
      | None \<Rightarrow> (case alsa_calls dev cs of (done', r) \<Rightarrow> (c # done', r)))"

definition alsa_setup :: "gostring \<Rightarrow> alsa_call list" where
  "alsa_setup device = [OpenPlayback device, AnyParams, SetChannels 1, SetRate ALSA_SAMPLE_RATE,
     SetFormatS16, SetRWInterleaved, ApplyParams, IoI16]"

text \<open>
  The calls made before the first write, the samples written, the calls made after the last, and
  the result; None while the loop goes on. Dropping the device stops the playback at once, so what
  has been written is heard to its end only after \<open>Drain\<close>.
\<close>

record alsa_run =
  setup_calls :: "alsa_call list"
  written_pcm :: "16 word list"
  final_calls :: "alsa_call list"
  alsa_result :: "unit go option"

definition write_pcm_to_alsa ::
  "(alsa_call \<Rightarrow> gostring option) \<Rightarrow> gostring \<Rightarrow> write_result list \<Rightarrow> 16 word list \<Rightarrow> alsa_run" where
  "write_pcm_to_alsa dev device ws samples =
     (let upsampled = upsample samples
      in case alsa_calls dev (alsa_setup device) of
           (calls, Some e) \<Rightarrow> \<lparr>setup_calls = calls, written_pcm = [], final_calls = [],
              alsa_result = Some (Error e)\<rparr>
         | (calls, None) \<Rightarrow>
             (case alsa_loop ws upsampled of
                (out, Some (Return u)) \<Rightarrow>
                  (case alsa_calls dev [Drain] of
                     (last_calls, r) \<Rightarrow> \<lparr>setup_calls = calls, written_pcm = out, final_calls = last_calls,
                        alsa_result = Some (case r of None \<Rightarrow> Return () | Some e \<Rightarrow> Error e)\<rparr>)
              | (out, r) \<Rightarrow> \<lparr>setup_calls = calls, written_pcm = out, final_calls = [], alsa_result = r\<rparr>))"

text \<open>
  What is written is a first part of the samples, and all of them when the loop returns normally;
  the emulator leaves out what does not fill a frame.
\<close>

lemma alsa_loop_prefix: "\<exists>rest. fst (alsa_loop ws xs) @ rest = xs"
proof (induction ws xs rule: alsa_loop.induct)
  case (3 n ws x rest)
  then obtain r where "fst (alsa_loop ws (drop n (x # rest))) @ r = drop n (x # rest)" by blast
  then show ?case by (auto simp: case_prod_unfold) (metis append_take_drop_id)
qed auto

lemma alsa_loop_all: "snd (alsa_loop ws xs) = Some (Return ()) \<Longrightarrow> fst (alsa_loop ws xs) = xs"
proof (induction ws xs rule: alsa_loop.induct)
  case (3 n ws x rest)
  then show ?case by (auto simp: case_prod_unfold simp del: drop_Cons' take_Cons')
qed auto

lemma alsa_calls_all: "alsa_calls dev cs = (cs', None) \<Longrightarrow> cs' = cs"
  by (induction cs arbitrary: cs') (auto split: option.splits prod.splits)

lemma write_returns:
  assumes "alsa_result (write_pcm_to_alsa dev device ws pcm) = Some (Return ())"
  shows "write_pcm_to_alsa dev device ws pcm = \<lparr>setup_calls = alsa_setup device,
    written_pcm = upsample pcm, final_calls = [Drain], alsa_result = Some (Return ())\<rparr>"
proof -
  obtain cs r where s: "alsa_calls dev (alsa_setup device) = (cs, r)" by fastforce
  have r: "r = None" using assms s by (cases r) (simp_all add: write_pcm_to_alsa_def Let_def)
  then have cs: "cs = alsa_setup device" using s alsa_calls_all by blast
  obtain out res where l: "alsa_loop ws (upsample pcm) = (out, res)" by fastforce
  obtain fin q where f: "alsa_calls dev [Drain] = (fin, q)" by fastforce
  have res: "res = Some (Return ())"
    using assms s r l by (auto simp: write_pcm_to_alsa_def Let_def split: option.splits go.splits)
  then have "out = upsample pcm" using alsa_loop_all [of ws "upsample pcm"] l by simp
  moreover have "q = None" using assms s r l res f
    by (cases q) (simp_all add: write_pcm_to_alsa_def Let_def)
  moreover from this f have "fin = [Drain]" using alsa_calls_all by blast
  ultimately show ?thesis using s r cs l res f by (simp add: write_pcm_to_alsa_def Let_def)
qed

section \<open>Recording\<close>

text \<open>Left and right of every stereo sample become one; then two samples become one.\<close>

fun downmix :: "16 word list \<Rightarrow> 16 word list" where
  "downmix (l # r # rest) = average l r # downmix rest"
| "downmix rest = []"

fun rb_downsample :: "16 word list \<Rightarrow> 16 word list" where
  "rb_downsample (a # b # rest) = average a b # rb_downsample rest"
| "rb_downsample [a] = [a]"
| "rb_downsample [] = []"

text \<open>On a full frame this is the emulator's downsampling.\<close>

lemma rb_downsample_even:
  "even (length xs) \<Longrightarrow>
   rb_downsample xs = map (\<lambda>i. average (xs ! (i * 2)) (xs ! (i * 2 + 1))) [0..<length xs div 2]"
proof (induction xs rule: rb_downsample.induct)
  case (1 a b rest)
  then show ?case by (simp add: upt_conv_Cons map_Suc_upt [symmetric] comp_def del: upt_Suc)
qed simp_all

lemma rb_downsample_frame:
  assumes "length xs = alsaFrameSize"
  shows "rb_downsample xs = downsample xs"
  using assms rb_downsample_even [of xs]
  by (simp add: downsample_def alsaFrameSize_def opusFrameSize_def Let_def del: upt_Suc)

lemma length_rb_downsample: "length (rb_downsample xs) = (length xs + 1) div 2"
  by (induction xs rule: rb_downsample.induct) auto

section \<open>The level and the amplitude\<close>

text \<open>The level of a frame, in \<open>f64\<close>: the operations of the emulator's.\<close>

definition rb_compute_rms :: "(real \<Rightarrow> real) \<Rightarrow> 16 word list \<Rightarrow> 16 word" where
  "rb_compute_rms rnd samples =
     (if samples = [] then 0
      else
        let sum_sq = foldl (\<lambda>acc s. rnd (acc + rnd (of_int (sint s) * of_int (sint s)))) 0 samples
        in of_nat (nat \<lfloor>min (rnd (sqrt (rnd (sum_sq / real (length samples))))) 65535\<rfloor>))"

lemma rb_compute_rms_emulator: "rb_compute_rms rnd samples = computeRMS_float rnd samples"
  by (simp add: rb_compute_rms_def computeRMS_float_def Let_def min_def)

text \<open>
  \<open>as i16\<close> on a float truncates towards zero and saturates. A recording whose peak is above 24576 is
  scaled down to it, in \<open>f32\<close>, where \<open>rnd\<close> is its rounding.
\<close>

definition as_i16 :: "real \<Rightarrow> 16 word" where
  "as_i16 x = word_of_int (max (- 32768) (min 32767 (if 0 \<le> x then \<lfloor>x\<rfloor> else \<lceil>x\<rceil>)))"

definition NORMALIZE_PEAK :: real where
  "NORMALIZE_PEAK = 24576"

definition max_abs :: "16 word list \<Rightarrow> real" where
  "max_abs samples = foldl max 0 (map (\<lambda>s. real_of_int \<bar>sint s\<bar>) samples)"

definition normalized :: "(real \<Rightarrow> real) \<Rightarrow> 16 word list \<Rightarrow> 16 word list" where
  "normalized rnd samples =
     (if max_abs samples > NORMALIZE_PEAK then
        let scale = rnd (NORMALIZE_PEAK / max_abs samples)
        in map (\<lambda>s. as_i16 (rnd (of_int (sint s) * scale))) samples
      else samples)"

lemma length_normalized [simp]: "length (normalized rnd samples) = length samples"
  by (simp add: normalized_def Let_def)

section \<open>Encoding\<close>

datatype end_info = NormalPacket | EndPage | EndStream

text \<open>A packet as it is given to the Ogg writer, with its granule position.\<close>

type_synonym rb_packet = "bytes \<times> end_info \<times> 64 word"

fun frames_of :: "nat \<Rightarrow> 16 word list \<Rightarrow> 16 word list list" where
  "frames_of 0 samples = []"
| "frames_of (Suc k) samples =
     (if samples = [] then []
      else let frame = take opusFrameSize samples
           in (frame @ replicate (opusFrameSize - length frame) 0) # frames_of k (drop opusFrameSize samples))"

fun rb_encode_loop ::
  "('e \<Rightarrow> 16 word list \<Rightarrow> (gostring + bytes) \<times> 'e) \<Rightarrow> nat \<Rightarrow> 16 word list list \<Rightarrow> nat \<Rightarrow> 64 word \<Rightarrow> 'e
     \<Rightarrow> gostring + rb_packet list" where
  "rb_encode_loop enc n [] i totalSamples e = Inr []"
| "rb_encode_loop enc n (frame # frames) i totalSamples e =
     (case enc e frame of
        (Inl err, e') \<Rightarrow> Inl err
      | (Inr d, e') \<Rightarrow>
          let totalSamples = totalSamples + 960;
              pkt = (d, (if i = n - 1 then EndStream else NormalPacket), 312 + totalSamples)
          in case rb_encode_loop enc n frames (i + 1) totalSamples e' of
               Inl err \<Rightarrow> Inl err
             | Inr pkts \<Rightarrow> Inr (pkt # pkts))"

definition rb_head :: bytes where
  "rb_head = ascii ''OpusHead'' @ [1, 1] @ le_bytes 2 312 @ le_bytes 4 opusSampleRate @ le_bytes 2 0 @ [0]"

definition rb_tags :: bytes where
  "rb_tags = ascii ''OpusTags'' @ le_bytes 4 (length ''whisper-link'') @ ascii ''whisper-link'' @ le_bytes 4 0"

text \<open>
  \<open>write\<close> is the Ogg writer on the packets of a stream, \<open>newEnc\<close> the encoder with its bit rate set.
  There are at most as many frames as samples.
\<close>

definition encode_to_ogg_opus ::
  "(real \<Rightarrow> real) \<Rightarrow> gostring + 'e \<Rightarrow> ('e \<Rightarrow> 16 word list \<Rightarrow> (gostring + bytes) \<times> 'e)
     \<Rightarrow> (rb_packet list \<Rightarrow> gostring + bytes) \<Rightarrow> 16 word list \<Rightarrow> gostring + bytes" where
  "encode_to_ogg_opus rnd newEnc enc write samples =
     (case newEnc of
        Inl e \<Rightarrow> Inl e
      | Inr e \<Rightarrow>
          let chunks = frames_of (length samples) (normalized rnd samples)
          in case rb_encode_loop enc (length chunks) chunks 0 0 e of
               Inl err \<Rightarrow> Inl err
             | Inr pkts \<Rightarrow> write ((rb_head, EndPage, 0) # (rb_tags, EndPage, 0) # pkts))"

text \<open>The packets of a recording: full frames, granule positions in steps of 960, the end mark on the last.\<close>

lemma length_frames_of:
  "length samples \<le> k \<Longrightarrow> length (frames_of k samples) = (length samples + 479) div 480"
proof (induction k samples rule: frames_of.induct)
  case (2 k samples)
  show ?case
  proof (cases "samples = []")
    case False
    then have "length (drop opusFrameSize samples) \<le> k" using "2.prems" by (simp add: opusFrameSize_def)
    then have "length (frames_of (Suc k) samples) = Suc ((length samples - 480 + 479) div 480)"
      using 2 False by (simp add: opusFrameSize_def Let_def)
    moreover have "Suc ((m - 480 + 479) div 480) = (m + 479) div 480" if "0 < m" for m :: nat
      using that by (cases "480 \<le> m") (simp_all add: le_div_geq div_if)
    ultimately show ?thesis using False by simp
  qed simp
qed simp

lemma frames_full: "f \<in> set (frames_of k samples) \<Longrightarrow> length f = opusFrameSize"
  by (induction k samples rule: frames_of.induct) (auto simp: Let_def split: if_splits)

lemma rb_encode_packets:
  "rb_encode_loop enc n frames i totalSamples e = Inr pkts \<Longrightarrow>
   map snd pkts = map (\<lambda>j. (if i + j = n - 1 then EndStream else NormalPacket, 312 + (totalSamples + 960 * of_nat (Suc j))))
     [0..<length frames]"
proof (induction enc n frames i totalSamples e arbitrary: pkts rule: rb_encode_loop.induct)
  case (2 enc n frame frames i totalSamples e)
  obtain d e' where d: "enc e frame = (Inr d, e')"
    using "2.prems" by (auto split: prod.splits sum.splits)
  with "2.prems" obtain ps where ps: "rb_encode_loop enc n frames (i + 1) (totalSamples + 960) e' = Inr ps"
    "pkts = (d, (if i = n - 1 then EndStream else NormalPacket), 312 + (totalSamples + 960)) # ps"
    by (auto simp: Let_def split: sum.splits)
  have "map snd ps = map (\<lambda>j. (if Suc (i + j) = n - 1 then EndStream else NormalPacket,
      312 + (totalSamples + 960 * of_nat (Suc (Suc j))))) [0..<length frames]"
    using "2.IH" [OF d [symmetric] refl refl refl ps(1)] by (simp add: algebra_simps)
  then show ?case
    unfolding ps(2) by (simp add: upt_conv_Cons map_Suc_upt [symmetric] comp_def del: upt_Suc)
qed simp

text \<open>
  The queue's length of such a chunk: the last granule position that is not 0, so the recording's
  frames and the pre-skip, as long as the granule positions do not wrap around.
\<close>

lemma last_granule_append: "last_granule (ps @ [p]) g = (if p \<noteq> 0 then Some p else last_granule ps g)"
  by (induction ps g rule: last_granule.induct) simp_all

lemma encoded_duration:
  assumes "rb_encode_loop enc n frames 0 0 e = Inr pkts" and "frames \<noteq> []"
    and "312 + 960 * length frames < 2 ^ 64"
    and "read d = (0 # 0 # map (snd \<circ> snd) pkts, None)"
  shows "parse_ogg_opus_duration read nanos d = Inr (nanos (of_nat (312 + 960 * length frames)))"
proof -
  obtain m where m: "length frames = Suc m" using assms(2) by (cases frames) auto
  have "map (snd \<circ> snd) pkts = map snd (map snd pkts)" by simp
  also have "\<dots> = map (\<lambda>j. 312 + 960 * of_nat (Suc j)) [0..<Suc m]"
    unfolding rb_encode_packets [OF assms(1)] m by simp
  finally have "0 # 0 # map (snd \<circ> snd) pkts
      = (0 # 0 # map (\<lambda>j. 312 + 960 * of_nat (Suc j)) [0..<m]) @ [of_nat (312 + 960 * Suc m)]" by simp
  moreover have "(of_nat (312 + 960 * Suc m) :: 64 word) \<noteq> 0"
  proof
    assume "(of_nat (312 + 960 * Suc m) :: 64 word) = 0"
    then have "2 ^ 64 dvd 312 + 960 * Suc m" by (simp only: word_of_nat_eq_0_iff) simp
    with assms(3) m show False by (auto dest: dvd_imp_le)
  qed
  ultimately show ?thesis
    using assms(4) by (simp add: parse_ogg_opus_duration_def last_granule_append m)
qed

section \<open>Property\<close>

text \<open>
  C25. A chunk the bridge decodes has the samples the emulator decodes of it with the same library
  (assumed of it is only that a larger buffer does not change what is decoded): both create the
  decoder for the same rate and channels, and the bridge's buffer is not larger. And when writing
  the samples returns normally, whatever portions the device takes and however often it recovers,
  the device was opened for playback and set to mono 16-bit samples at 48 kHz, has got each sample
  twice, in order, none left out, and was drained, so that they are heard to the end.
\<close>

theorem bridge_plays_every_sample:
  assumes "fits_larger_buffer dec" and "rb_decode_ogg_opus newDec dec read d = Inr pcm"
    and "alsa_result (write_pcm_to_alsa dev device ws pcm) = Some (Return ())"
  shows "decodeOggOpus newDec dec (\<lambda>d. fst (read d)) d = Return pcm \<and>
    write_pcm_to_alsa dev device ws pcm =
      \<lparr>setup_calls = [OpenPlayback device, AnyParams, SetChannels 1, SetRate 48000, SetFormatS16,
         SetRWInterleaved, ApplyParams, IoI16],
       written_pcm = upsample pcm, final_calls = [Drain], alsa_result = Some (Return ())\<rparr>"
proof
  obtain pkts e where r: "read d = (pkts, e)" by (cases "read d")
  obtain d0 where n: "newDec 24000 1 = Inr d0"
    using assms(2) by (cases "newDec 24000 1") (auto simp: rb_decode_ogg_opus_def OPUS_SAMPLE_RATE_def)
  then have "rb_decode_packets (\<lambda>d b. dec d b MAX_DECODE_SIZE) 0 pkts e d0 = Inr pcm"
    using assms(2) r by (simp add: rb_decode_ogg_opus_def OPUS_SAMPLE_RATE_def)
  moreover have "dec d b (opusFrameSize * 10) = (Inr s, d')" if "dec d b MAX_DECODE_SIZE = (Inr s, d')" for d b s d'
    using assms(1) [unfolded fits_larger_buffer_def, rule_format, OF that]
    by (simp add: MAX_DECODE_SIZE_def opusFrameSize_def)
  ultimately have "decode_packets (\<lambda>d b. dec d b (opusFrameSize * 10)) 0 pkts d0 = pcm"
    by (intro rb_decode_packets_emulator [where dec = "\<lambda>d b. dec d b MAX_DECODE_SIZE"])
  then show "decodeOggOpus newDec dec (\<lambda>d. fst (read d)) d = Return pcm"
    using r n by (simp add: decodeOggOpus_def opusSampleRate_def emuChannels_def)
  show "write_pcm_to_alsa dev device ws pcm =
      \<lparr>setup_calls = [OpenPlayback device, AnyParams, SetChannels 1, SetRate 48000, SetFormatS16,
         SetRWInterleaved, ApplyParams, IoI16],
       written_pcm = upsample pcm, final_calls = [Drain], alsa_result = Some (Return ())\<rparr>"
    using write_returns [OF assms(3)] by (simp add: alsa_setup_def ALSA_SAMPLE_RATE_def)
qed

theorem bridge_plays_every_sample_witness:
  "decodeOggOpus (\<lambda>r ch. Inr ()) (\<lambda>d b n. (Inr (map ucast b), d))
      (\<lambda>d. [\<lparr>pkData = [], pkGranule = 0, pkBOS = True, pkEOS = False\<rparr>,
        \<lparr>pkData = [], pkGranule = 0, pkBOS = False, pkEOS = False\<rparr>,
        \<lparr>pkData = d, pkGranule = 792, pkBOS = False, pkEOS = True\<rparr>]) [5, 6] = Return [5, 6] \<and>
   write_pcm_to_alsa (\<lambda>c. None) ''hw:0'' [Wrote 1, Recovered, Wrote 3] [5, 6] =
     \<lparr>setup_calls = [OpenPlayback ''hw:0'', AnyParams, SetChannels 1, SetRate 48000, SetFormatS16,
        SetRWInterleaved, ApplyParams, IoI16],
      written_pcm = upsample [5, 6], final_calls = [Drain], alsa_result = Some (Return ())\<rparr>"
proof -
  let ?read = "\<lambda>d. ([\<lparr>pkData = [], pkGranule = 0, pkBOS = True, pkEOS = False\<rparr>,
        \<lparr>pkData = [], pkGranule = 0, pkBOS = False, pkEOS = False\<rparr>,
        \<lparr>pkData = d, pkGranule = 792, pkBOS = False, pkEOS = True\<rparr>], None :: gostring option)"
  have "fits_larger_buffer (\<lambda>d b n. (Inr (map ucast b), d :: unit))"
    by (simp add: fits_larger_buffer_def)
  moreover have "rb_decode_ogg_opus (\<lambda>r ch. Inr ()) (\<lambda>d b n. (Inr (map ucast b), d)) ?read [5, 6]
      = Inr [5, 6]"
    by (simp add: rb_decode_ogg_opus_def)
  moreover have "alsa_result (write_pcm_to_alsa (\<lambda>c. None) ''hw:0'' [Wrote 1, Recovered, Wrote 3] [5, 6])
      = Some (Return ())"
    by (simp add: write_pcm_to_alsa_def upsample_def alsa_setup_def)
  ultimately show ?thesis
    using bridge_plays_every_sample [where newDec = "\<lambda>r ch. Inr ()" and read = ?read and d = "[5, 6]"
      and pcm = "[5, 6]" and dev = "\<lambda>c. None" and device = "''hw:0''"
      and dec = "\<lambda>d b n. (Inr (map ucast b), d :: unit)" and ws = "[Wrote 1, Recovered, Wrote 3]"]
    by simp
qed

end
