(* ===== verification/RbDump.thy ===== *)
theory RbDump
  imports GoFmt RbAudio
begin

text \<open>
  What the recorder of the radio bridge does with a finished recording, \<open>flush_recording\<close> of
  \<open>app/radio-bridge/src/audio/recorder.rs\<close>: it encodes it, writes it to a numbered file when the
  configuration asks for that, and broadcasts it to the connections.
\<close>

section \<open>Dumping and broadcasting\<close>

text \<open>The process-wide counter, the files written, and what was broadcast.\<close>

record flushed =
  dump_counter :: "64 word"
  dump_files :: "gostring \<rightharpoonup> bytes"
  flushed_out :: "bytes list"

text \<open>\<open>rec_{n:05}.ogg\<close>; \<open>join\<close> puts a separator between directory and name unless there is one.\<close>

definition dump_name :: "64 word \<Rightarrow> gostring" where
  "dump_name n = (let ds = dec (unat n) in ''rec_'' @ replicate (5 - length ds) CHR ''0'' @ ds @ ''.ogg'')"

definition path_join :: "gostring \<Rightarrow> gostring \<Rightarrow> gostring" where
  "path_join d f = (if d = [] \<or> last d = CHR ''/'' then d @ f else d @ ''/'' @ f)"

text \<open>
  \<open>encode\<close> is \<open>encode_to_ogg_opus\<close>, \<open>mkdir\<close> and \<open>writes\<close> say whether making the directory and writing the
  file succeed. A failure is logged, and the recording is broadcast all the same.
\<close>

definition flush_recording ::
  "('p \<Rightarrow> gostring + bytes) \<Rightarrow> (gostring \<Rightarrow> bool) \<Rightarrow> (gostring \<Rightarrow> bool) \<Rightarrow> gostring option \<Rightarrow> 'p
     \<Rightarrow> flushed \<Rightarrow> flushed" where
  "flush_recording encode mkdir writes dump_dir samples s =
     (case encode samples of
        Inl e \<Rightarrow> s
      | Inr ogg_data \<Rightarrow>
          let s' = (case dump_dir of
                      None \<Rightarrow> s
                    | Some dir \<Rightarrow>
                        let path = path_join dir (dump_name (dump_counter s))
                        in s\<lparr>dump_counter := dump_counter s + 1,
                             dump_files := if mkdir dir \<and> writes path then (dump_files s)(path \<mapsto> ogg_data)
                                           else dump_files s\<rparr>)
          in s'\<lparr>flushed_out := flushed_out s' @ [ogg_data]\<rparr>)"

section \<open>Every recording has its own file\<close>

lemma undec_zeros: "undec (replicate k CHR ''0'' @ s) = undec s"
  by (induction k) (simp_all add: undec_def)

lemma dump_name_inj [simp]: "dump_name m = dump_name n \<longleftrightarrow> m = n"
proof
  assume "dump_name m = dump_name n"
  then have "replicate (5 - length (dec (unat m))) CHR ''0'' @ dec (unat m)
      = replicate (5 - length (dec (unat n))) CHR ''0'' @ dec (unat n)"
    unfolding dump_name_def Let_def append_assoc [symmetric] by (simp del: append_assoc)
  then have "undec (dec (unat m)) = undec (dec (unat n))" by (metis undec_zeros)
  then show "m = n" by (simp add: undec_dec word_unat_eq_iff)
qed simp

lemma path_join_inj [simp]: "path_join d f = path_join d g \<longleftrightarrow> f = g"
  by (simp add: path_join_def)

text \<open>Recordings flushed one after the other; those that cannot be encoded leave no trace.\<close>

definition flush_all ::
  "('p \<Rightarrow> gostring + bytes) \<Rightarrow> (gostring \<Rightarrow> bool) \<Rightarrow> (gostring \<Rightarrow> bool) \<Rightarrow> gostring option \<Rightarrow> 'p list
     \<Rightarrow> flushed \<Rightarrow> flushed" where
  "flush_all encode mkdir writes dump_dir = fold (flush_recording encode mkdir writes dump_dir)"

definition encoded_recs :: "('p \<Rightarrow> gostring + bytes) \<Rightarrow> 'p list \<Rightarrow> bytes list" where
  "encoded_recs encode recs = concat (map (\<lambda>r. case encode r of Inl e \<Rightarrow> [] | Inr d \<Rightarrow> [d]) recs)"

lemma flush_all_snoc:
  "flush_all encode mkdir writes dir (recs @ [r]) s
     = flush_recording encode mkdir writes dir r (flush_all encode mkdir writes dir recs s)"
  by (simp add: flush_all_def)

lemma encoded_recs_snoc:
  "encoded_recs encode (recs @ [r]) = encoded_recs encode recs @ (case encode r of Inl e \<Rightarrow> [] | Inr d \<Rightarrow> [d])"
  by (simp add: encoded_recs_def)

definition fresh_start :: flushed where
  "fresh_start = \<lparr>dump_counter = 0, dump_files = Map.empty, flushed_out = []\<rparr>"

text \<open>The dump has no influence on what is broadcast.\<close>

lemma flush_all_out:
  "flushed_out (flush_all encode mkdir writes dir recs fresh_start) = encoded_recs encode recs"
proof (induction recs rule: rev_induct)
  case Nil
  show ?case by (simp add: flush_all_def encoded_recs_def fresh_start_def)
next
  case (snoc r recs)
  then show ?case
    unfolding flush_all_snoc encoded_recs_snoc
    by (auto simp: flush_recording_def Let_def split: sum.split option.split)
qed

lemma flush_all_counter:
  "dump_counter (flush_all encode mkdir writes (Some dir) recs fresh_start) = of_nat (length (encoded_recs encode recs))"
proof (induction recs rule: rev_induct)
  case Nil
  show ?case by (simp add: flush_all_def encoded_recs_def fresh_start_def)
next
  case (snoc r recs)
  then show ?case
    unfolding flush_all_snoc encoded_recs_snoc
    by (simp add: flush_recording_def Let_def split: sum.split)
qed

text \<open>
  When the file system works and until the counter wraps around, the \<open>k\<close>th encoded recording is in the
  file with number \<open>k\<close>.
\<close>

lemma flush_all_files:
  assumes "length (encoded_recs encode recs) \<le> 2 ^ 64" and "k < length (encoded_recs encode recs)"
  shows "dump_files (flush_all encode (\<lambda>d. True) (\<lambda>p. True) (Some dir) recs fresh_start)
      (path_join dir (dump_name (of_nat k))) = Some (encoded_recs encode recs ! k)"
  using assms
proof (induction recs rule: rev_induct)
  case (snoc r recs)
  show ?case
  proof (cases "encode r")
    case (Inl e)
    with snoc show ?thesis
      unfolding flush_all_snoc encoded_recs_snoc by (simp add: flush_recording_def)
  next
    case (Inr d)
    let ?n = "length (encoded_recs encode recs)"
    have n: "?n < 2 ^ 64" using snoc.prems(1) Inr by (simp add: encoded_recs_snoc)
    have same: "(of_nat k :: 64 word) = of_nat ?n \<longleftrightarrow> k = ?n"
      using snoc.prems n Inr by (auto simp: encoded_recs_snoc word_unat_eq_iff unat_of_nat take_bit_nat_eq_self)
    show ?thesis
      using snoc Inr n same
      unfolding flush_all_snoc encoded_recs_snoc
      by (auto simp: flush_recording_def Let_def flush_all_counter nth_append less_Suc_eq)
  qed
qed (simp add: encoded_recs_def)

end
