(* ===== verification/RbServed.thy ===== *)
theory RbServed
  imports SendPlay RbHandler RbController
begin

text \<open>
  The answers of the game server on the radio: packets that arrive at the radio bridge's handler
  (\<open>app/radio-bridge/src/grpc/handler.rs\<close>) while its controller (\<open>controller.rs\<close>) keys the transceiver
  and plays what is queued, and the recorder runs beside it. The bridge is shown to follow the
  emulator's player step by step, with the packets arriving in between, so that what was proved of
  the emulator in \<open>SendPlay\<close> carries over.
\<close>

section \<open>Runs\<close>

text \<open>
  The next step of the controller gives up the current stream: its wait for the next chunk is over, and
  not all packets of the stream, \<open>full\<close>, have arrived, or one is queued that the loop no longer looks for.
\<close>

definition rb_gives_up :: "(gostring \<Rightarrow> outgoingAudio list) \<Rightarrow> outgoingAudio list \<Rightarrow> rbsys \<Rightarrow> gostring set" where
  "rb_gives_up full ps s = {sid. \<exists>pcm w. ctl s = PlayWait sid pcm w \<and> STREAM_TIMEOUT_MS \<le> w \<and>
     \<not> (of_stream sid ps = full sid \<and> \<not> current_has_chunk (rq s))}"

text \<open>
  The bridge after the packets \<open>ps\<close> have arrived, on any connection, whatever it did in between. \<open>G\<close>
  records the streams it has given up.
\<close>

inductive rb_served ::
  "(bytes \<Rightarrow> gostring + nat) \<Rightarrow> (bytes \<Rightarrow> gostring + 16 word list) \<Rightarrow> nat \<Rightarrow> nat \<Rightarrow> nat \<Rightarrow> nat \<Rightarrow>
   (gostring \<Rightarrow> outgoingAudio list) \<Rightarrow> outgoingAudio list \<Rightarrow> gostring set \<Rightarrow> rbsys \<Rightarrow> bool"
  for parse decf thr minms n secs full where
  rb_start: "rb_served parse decf thr minms n secs full [] {} (init_rbsys (new_queue n secs))"
| rb_arrive: "rb_served parse decf thr minms n secs full ps G s \<Longrightarrow>
     rb_served parse decf thr minms n secs full (ps @ [p]) G
       (s\<lparr>rq := snd (rb_receive parse peer (audio_chunk p) (m, rq s))\<rparr>)"
| rb_play: "rb_served parse decf thr minms n secs full ps G s \<Longrightarrow>
     rb_served parse decf thr minms n secs full ps (G \<union> rb_gives_up full ps s) (ctl_step decf s)"
| rb_record: "rb_served parse decf thr minms n secs full ps G s \<Longrightarrow> rec_step thr minms s t \<Longrightarrow>
     rb_served parse decf thr minms n secs full ps G t"

text \<open>The bridge's limits admit the streams: the chunks can be read and are short enough, and the streams are few.\<close>

definition admitted ::
  "(bytes \<Rightarrow> gostring + nat) \<Rightarrow> nat \<Rightarrow> nat \<Rightarrow> (gostring \<Rightarrow> outgoingAudio list) \<Rightarrow> bool" where
  "admitted parse n secs full \<longleftrightarrow>
     (\<forall>sid. \<forall>p \<in> set (full sid). \<exists>dur. parse (Data p) = Inr dur \<and> dur \<le> secs * 1000000000) \<and>
     finite {sid. full sid \<noteq> []} \<and> card {sid. full sid \<noteq> []} \<le> n"

section \<open>The emulator beside the bridge\<close>

text \<open>What has been sent over the air when the blocks \<open>D\<close> have: one piece for each, unless it is empty.\<close>

definition on_air :: "(bytes \<Rightarrow> gostring + 16 word list) \<Rightarrow> block list \<Rightarrow> 16 word list list" where
  "on_air decf D = filter (\<lambda>w. w \<noteq> []) (map (\<lambda>(sid, es, rest). samples_of decf es) D)"

definition collected ::
  "(bytes \<Rightarrow> gostring + 16 word list) \<Rightarrow> (gostring \<times> playerEntry \<times> bool) list \<Rightarrow> 16 word list" where
  "collected decf cur = samples_of decf (map (fst \<circ> snd) cur)"

text \<open>The emulator is about to finish the stream.\<close>

definition ending ::
  "(gostring \<Rightarrow> outgoingAudio list) \<Rightarrow> outgoingAudio list \<Rightarrow> gostring set \<Rightarrow> psys \<Rightarrow> gostring \<Rightarrow> bool" where
  "ending full ps G u sid \<longleftrightarrow> (\<exists>e. pcv u = Playing sid e \<and> is_terminal (status e)) \<or>
     (pcv u = Waiting sid \<and> (sid \<in> G \<or> of_stream sid ps = full sid \<and> stream_chunks (pl u) sid = []))"

text \<open>Where the emulator is when the controller is at a given place, and what the controller holds and has sent.\<close>

fun stage ::
  "(bytes \<Rightarrow> gostring + 16 word list) \<Rightarrow> (gostring \<Rightarrow> outgoingAudio list) \<Rightarrow> outgoingAudio list \<Rightarrow>
   gostring set \<Rightarrow> cpc \<Rightarrow> 16 word list list \<Rightarrow> psys \<Rightarrow> block list \<Rightarrow> (gostring \<times> playerEntry \<times> bool) list \<Rightarrow> bool" where
  "stage decf full ps G (PlayPop sid pcm) w u D cur =
     (pcv u = InStream sid \<and> pcm = collected decf cur \<and> w = on_air decf D)"
| "stage decf full ps G (PlayWait sid pcm k) w u D cur =
     (pcv u = Waiting sid \<and> pcm = collected decf cur \<and> w = on_air decf D)"
| "stage decf full ps G (PlayOut sid pcm) w u D cur =
     (ending full ps G u sid \<and> pcm = collected decf cur \<and> w = on_air decf D)"
| "stage decf full ps G PlayFinish w u D cur =
     (\<exists>sid. ending full ps G u sid \<and> w = on_air decf (D @ [(sid, map (fst \<circ> snd) cur, [])]))"
| "stage decf full ps G c w u D cur = (pcv u = AtRun \<and> w = on_air decf D)"

definition mirrors ::
  "(bytes \<Rightarrow> gostring + 16 word list) \<Rightarrow> nat \<Rightarrow> nat \<Rightarrow> (gostring \<Rightarrow> outgoingAudio list) \<Rightarrow> outgoingAudio list \<Rightarrow>
   gostring set \<Rightarrow> rbsys \<Rightarrow> psys \<Rightarrow> block list \<Rightarrow> (gostring \<times> playerEntry \<times> bool) list \<Rightarrow> bool" where
  "mirrors decf n secs full ps G s u D cur \<longleftrightarrow> rb_sys_inv s \<and> pl u = player_of (rq s) \<and>
     max_streams (rq s) = n \<and> max_duration (rq s) = secs * 1000000000 \<and>
     served_inv full ps G u D cur \<and> stage decf full ps G (ctl s) (written s) u D cur"

lemma on_air_append [simp]:
  "on_air decf [] = []"
  "on_air decf (D @ D') = on_air decf D @ on_air decf D'"
  by (simp_all add: on_air_def)

lemma on_air_one [simp]:
  "on_air decf [(sid, es, rest)] = (let w = samples_of decf es in if w = [] then [] else [w])"
  by (simp add: on_air_def Let_def)

lemma samples_of_append [simp]: "samples_of decf (es @ es') = samples_of decf es @ samples_of decf es'"
  by (simp add: samples_of_def)

lemma collected_simps [simp]:
  "collected decf [] = []"
  "collected decf (cur @ [(sid, emu_entry e, b)]) = collected decf cur @ decoded decf e"
  by (simp_all add: collected_def samples_of_simps(2) [where ps = "[]", simplified])

lemma ending_finish:
  assumes "served_inv full ps G u D cur" and "framed full" and "part_of full ps" and "ending full ps G u sid"
  shows "in_stream (pcv u) = Some sid"
    and "sid \<in> G \<or> of_stream sid ps = full sid \<and> stream_chunks (pl u) sid = []"
proof -
  show "in_stream (pcv u) = Some sid" using assms(4) by (auto simp: ending_def simp del: is_terminal.simps)
  show "sid \<in> G \<or> of_stream sid ps = full sid \<and> stream_chunks (pl u) sid = []"
    using assms(4) served_terminal [OF assms(1-3), of sid] unfolding ending_def by blast
qed

text \<open>The streams given up may become more.\<close>

lemma stage_mono:
  "stage decf full ps G c w u D cur \<Longrightarrow> G \<subseteq> G' \<Longrightarrow> stage decf full ps G' c w u D cur"
  by (cases c) (auto simp: ending_def)

lemma mirrors_mono:
  "mirrors decf n secs full ps G s u D cur \<Longrightarrow> G \<subseteq> G' \<Longrightarrow> mirrors decf n secs full ps G' s u D cur"
  using served_inv_mono [of full ps G u D cur G'] stage_mono [of decf full ps G "ctl s" "written s" u D cur G']
  by (simp add: mirrors_def)

section \<open>A packet arrives\<close>

lemma rb_receive_packet:
  assumes "on_stream sid p" and "sid \<noteq> ''''"
  shows "\<exists>st. proto_status st = Status p \<and>
    snd (rb_receive parse peer (audio_chunk p) (m, q)) = snd (rb_push parse (Data p) st sid q)"
  using assms
  by (cases "Status p")
    (auto simp: on_stream_def rb_receive_def rb_route_def audio_chunk_def map_status_def status_of_int_def
      intro: exI [of _ RbStart] exI [of _ RbContinue] exI [of _ RbEnd])

lemma push_limits:
  "max_streams (snd (rb_push parse d st sid q)) = max_streams q"
  "max_duration (snd (rb_push parse d st sid q)) = max_duration q"
  by (auto simp: rb_push_def Let_def split: sum.splits option.splits)

text \<open>The streams of the queue, with one whose packet arrives, are among the admitted ones.\<close>

lemma push_admitted:
  assumes "admitted parse n secs full" and "p \<in> set (full sid)" and "player_inv (player_of q)"
    and "set (rb_order q) \<subseteq> {sid. full sid \<noteq> []}" and "max_streams q = n" and "max_duration q = secs * 1000000000"
  shows "\<not> limit_error (fst (rb_push parse (Data p) st sid q))"
proof -
  obtain dur where dur: "parse (Data p) = Inr dur" "dur \<le> max_duration q"
    using assms(1,2,6) by (auto simp: admitted_def)
  have "length (rb_order q) < n" if "rb_streams q sid = None"
  proof -
    have "dom (rb_streams q) = set (rb_order q)" "distinct (rb_order q)"
      using assms(3) by (auto simp: player_inv_def player_of_def dom_def)
    moreover from this(1) that have "sid \<notin> set (rb_order q)" by blast
    ultimately have "card (insert sid (set (rb_order q))) = Suc (length (rb_order q))"
      by (simp add: distinct_card)
    moreover have "insert sid (set (rb_order q)) \<subseteq> {sid. full sid \<noteq> []}"
      using assms(2,4) by auto
    ultimately show ?thesis
      using assms(1) card_mono [of "{sid. full sid \<noteq> []}" "insert sid (set (rb_order q))"]
      by (simp add: admitted_def)
  qed
  with dur assms(5) show ?thesis
    by (auto simp: rb_push_def Let_def split: option.splits)
qed

lemma stage_arrive:
  assumes "stage decf full ps G c w u D cur" and "part_of full (ps @ [p])"
    and "player_inv (pl u)" and "pl v = push d st (StreamID p) (pl u)" and "pcv v = pcv u"
  shows "stage decf full (ps @ [p]) G c w v D cur"
proof -
  have "ending full (ps @ [p]) G v sid" if e: "ending full ps G u sid" for sid
  proof (cases "(\<exists>e. pcv u = Playing sid e \<and> is_terminal (status e)) \<or> sid \<in> G")
    case True
    with assms(5) e show ?thesis by (auto simp: ending_def)
  next
    case False
    with e have w: "pcv u = Waiting sid" "of_stream sid ps = full sid" "stream_chunks (pl u) sid = []"
      by (auto simp: ending_def)
    have "sid \<noteq> StreamID p" using w(2) arriving(2) [OF assms(2)] by blast
    with w assms(4,5) show ?thesis by (simp add: ending_def push_chunks)
  qed
  with assms(1,5) show ?thesis by (cases c) auto
qed

lemma mirrors_arrive:
  assumes "mirrors decf n secs full ps G s u D cur" and "framed full" and "part_of full (ps @ [p])"
    and "admitted parse n secs full"
  shows "mirrors decf n secs full (ps @ [p]) G
    (s\<lparr>rq := snd (rb_receive parse peer (audio_chunk p) (m, rq s))\<rparr>) (take_packet p u) D cur"
proof -
  let ?sid = "StreamID p"
  have inv: "served_inv full ps G u D cur" "rb_sys_inv s" "pl u = player_of (rq s)"
    using assms(1) by (simp_all add: mirrors_def)
  then have pinv: "player_inv (player_of (rq s))" using served_invD(2) [OF inv(1)] by simp
  have mem: "p \<in> set (full ?sid)" by (rule arriving(1) [OF assms(3)])
  then have on: "on_stream ?sid p" "?sid \<noteq> ''''" using assms(2) by (auto simp: framed_def)
  obtain st where st: "proto_status st = Status p" "snd (rb_receive parse peer (audio_chunk p) (m, rq s))
      = snd (rb_push parse (Data p) st ?sid (rq s))"
    using rb_receive_packet [OF on] by blast
  have "set (order (pl u)) \<subseteq> {sid. of_stream sid ps \<noteq> []}" using served_invD(4) [OF inv(1)] by auto
  also have "\<dots> \<subseteq> {sid. full sid \<noteq> []}"
    using part_of_butlast [OF assms(3)] unfolding part_of_def by (metis (mono_tags, lifting) Collect_mono prefix_bot.extremum_uniqueI)
  finally have "\<not> limit_error (fst (rb_push parse (Data p) st ?sid (rq s)))"
    using push_admitted [OF assms(4) mem pinv] inv(3) assms(1) by (simp add: mirrors_def)
  then have pl: "pl (take_packet p u) = player_of (snd (rb_push parse (Data p) st ?sid (rq s)))"
    using push_simulated [of parse "Data p" st ?sid "rq s"] take_packet_push [OF on, of u] st(1) inv(3)
    by simp
  have "rb_sys_inv (s\<lparr>rq := snd (rb_push parse (Data p) st ?sid (rq s))\<rparr>)"
    using rb_step_inv [OF by_client [OF on(2)] inv(2)] .
  moreover have "stage decf full (ps @ [p]) G (ctl s) (written s) (take_packet p u) D cur"
    using stage_arrive [where u = u and v = "take_packet p u"] assms(1,3) pinv inv(3) take_packet_push [OF on, of u]
    by (simp add: mirrors_def take_packet_def)
  ultimately show ?thesis
    using assms(1) st(2) pl served_inv_arrive [OF inv(1) assms(2,3)]
    by (simp add: mirrors_def push_limits)
qed

section \<open>A step of the controller\<close>

lemma mirrors_own:
  assumes "mirrors decf n secs full ps G s u D cur" and "served_inv full ps G v D' cur'"
    and "pl v = player_of (rq t)" and "rb_sys_inv t" and "max_streams (rq t) = max_streams (rq s)"
    and "max_duration (rq t) = max_duration (rq s)" and "stage decf full ps G (ctl t) (written t) v D' cur'"
  shows "mirrors decf n secs full ps G t v D' cur'"
  using assms by (simp add: mirrors_def)

lemma finish_limits:
  "max_streams (finish_current q) = max_streams q" "max_duration (finish_current q) = max_duration q"
  by (simp_all add: finish_current_def split: list.splits)

lemma served_no_cur:
  assumes "served_inv full ps G u D cur" and "pcv u = AtRun"
  shows "cur = []"
proof -
  have "\<forall>x \<in> set cur. False" using served_invD(7) [OF assms(1)] assms(2) by auto
  then show ?thesis by (cases cur) auto
qed

text \<open>\<open>PlayPop\<close>: the emulator takes the same chunk, plays it, and goes on or is about to finish, or it runs dry too.\<close>

lemma pop_mirrored:
  assumes "mirrors decf n secs full ps G s u D cur" and "ctl s = PlayPop sid pcm"
  shows "\<exists>v cur'. mirrors decf n secs full ps G (ctl_step decf s) v D cur'"
proof -
  let ?q = "snd (pop_current (rq s))"
  have m: "pl u = player_of (rq s)" "rb_sys_inv s" "served_inv full ps G u D cur" "pcv u = InStream sid"
    "pcm = collected decf cur" "written s = on_air decf D"
    using assms by (simp_all add: mirrors_def)
  have t: "rb_sys_inv (ctl_step decf s)" using m(2) by (rule ctl_step_inv)
  have "player_inv (player_of (rq s))" using m(1) served_invD(2) [OF m(3)] by simp
  then have pop: "popCurrent (pl u) = (map_option emu_entry (fst (pop_current (rq s))), player_of ?q)"
    using pop_player m(1) by simp
  show ?thesis
  proof (cases "fst (pop_current (rq s))")
    case None
    let ?v = "u\<lparr>pl := player_of ?q, pcv := Waiting sid\<rparr>"
    have pp: "popCurrent (pl u) = (None, player_of ?q)" using pop None by simp
    have st: "player_step u ?v" using m(4) pp by (rule player_step.ran_dry)
    have "served_inv full ps G ?v D cur"
      using served_inv_move [OF m(3) st] popCurrent_None [OF pp] m(4) by simp
    then have "mirrors decf n secs full ps G (ctl_step decf s) ?v D cur"
      using None t assms(2) m
      by (intro mirrors_own [OF assms(1)]) (simp_all add: ctl_step_def case_prod_unfold pop_fields)
    then show ?thesis by blast
  next
    case (Some e)
    let ?e = "emu_entry e" and ?cur = "cur @ [(sid, emu_entry e, True)]"
    define v where "v = u\<lparr>pl := player_of ?q, pcv := Playing sid ?e, handled := handled u @ [(sid, ?e, True)]\<rparr>"
    have pp: "popCurrent (pl u) = (Some ?e, player_of ?q)" using pop Some by simp
    have v: "served_inv full ps G v D ?cur" unfolding v_def using m(3,4) pp by (rule served_inv_pop)
    have at: "pl v = player_of ?q" "pcv v = Playing sid ?e" by (simp_all add: v_def)
    have es: "is_terminal (status ?e) = rb_terminal (rb_status e)"
      by (simp add: emu_entry_def del: is_terminal.simps)
    show ?thesis
    proof (cases "rb_terminal (rb_status e)")
      case True
      then have "ending full ps G v sid" using es at by (simp add: ending_def)
      then have "mirrors decf n secs full ps G (ctl_step decf s) v D ?cur"
        using Some True t assms(2) m at
        by (intro mirrors_own [OF assms(1) v]) (simp_all add: ctl_step_def case_prod_unfold pop_fields)
      then show ?thesis by blast
    next
      case False
      let ?w = "v\<lparr>pl := pl v, pcv := InStream sid\<rparr>"
      have st: "player_step v ?w" using player_step.played_more [of v sid ?e] at(2) es False by simp
      have w: "served_inv full ps G ?w D ?cur" using served_inv_move [OF v st] at(2) by simp
      then have "mirrors decf n secs full ps G (ctl_step decf s) ?w D ?cur"
        using Some False t assms(2) m at(1)
        by (intro mirrors_own [OF assms(1) w]) (simp_all add: ctl_step_def case_prod_unfold pop_fields)
      then show ?thesis by blast
    qed
  qed
qed

text \<open>\<open>PlayFinish\<close>: the emulator finishes the stream.\<close>

lemma finish_mirrored:
  assumes "mirrors decf n secs full ps G s u D cur" and "framed full" and "part_of full ps" and "ctl s = PlayFinish"
  shows "\<exists>v D'. mirrors decf n secs full ps G (ctl_step decf s) v D' []"
proof -
  have m: "pl u = player_of (rq s)" "rb_sys_inv s" "served_inv full ps G u D cur" using assms by (simp_all add: mirrors_def)
  obtain sid where sid: "ending full ps G u sid"
    "written s = on_air decf (D @ [(sid, map (fst \<circ> snd) cur, [])])"
    using assms by (auto simp: mirrors_def)
  note e = ending_finish [OF m(3) assms(2,3) sid(1)]
  have "mirrors decf n secs full ps G (ctl_step decf s) (finish_sys u)
      (D @ [(sid, map (fst \<circ> snd) cur, stream_chunks (pl u) sid)]) []"
    using ctl_step_inv [OF m(2), of decf] assms(4) m(1) sid(2)
    by (intro mirrors_own [OF assms(1) served_finish [OF m(3) e(1) assms(3) e(2)]])
      (simp_all add: ctl_step_def finish_limits finish_player finish_sys_def)
  then show ?thesis by blast
qed

text \<open>The steps that only move the controller on, and those where the emulator's goroutine moves on with it.\<close>

lemma move_mirrored:
  assumes "mirrors decf n secs full ps G s u D cur" and "rq (ctl_step decf s) = rq s"
    and "stage decf full ps G (ctl (ctl_step decf s)) (written (ctl_step decf s)) u D cur"
  shows "mirrors decf n secs full ps G (ctl_step decf s) u D cur"
  using assms ctl_step_inv [of s decf] by (simp add: mirrors_def)

lemma goes_mirrored:
  assumes "mirrors decf n secs full ps G s u D cur" and "ctl_step decf s = s\<lparr>ctl := c\<rparr>"
    and "player_step u (u\<lparr>pcv := pc\<rparr>)" and "pc = InStream sid" and "cur = [] \<or> in_stream (pcv u) = Some sid"
    and "stage decf full ps G c (written s) (u\<lparr>pcv := pc\<rparr>) D cur"
  shows "mirrors decf n secs full ps G (ctl_step decf s) (u\<lparr>pcv := pc\<rparr>) D cur"
proof -
  have m: "served_inv full ps G u D cur" "rb_sys_inv s" "pl u = player_of (rq s)"
    using assms(1) by (simp_all add: mirrors_def)
  have "served_inv full ps G (u\<lparr>pl := pl u, pcv := pc\<rparr>) D cur"
    using assms(3-5) by (intro served_inv_move [OF m(1)]) auto
  moreover have "u\<lparr>pl := pl u, pcv := pc\<rparr> = u\<lparr>pcv := pc\<rparr>" by simp
  ultimately have "served_inv full ps G (u\<lparr>pcv := pc\<rparr>) D cur" by metis
  then show ?thesis
    using m assms(2,6) ctl_step_inv [OF m(2), of decf]
    by (intro mirrors_own [OF assms(1)]) simp_all
qed

lemma play_mirrored:
  assumes "mirrors decf n secs full ps G0 s u D cur" and "framed full" and "part_of full ps"
    and "G = G0 \<union> rb_gives_up full ps s"
  shows "\<exists>v D' cur'. mirrors decf n secs full ps G (ctl_step decf s) v D' cur'"
proof -
  have mG: "mirrors decf n secs full ps G s u D cur" using assms(1,4) by (auto intro: mirrors_mono)
  then have m: "pl u = player_of (rq s)" "rb_sys_inv s" "served_inv full ps G u D cur"
    "stage decf full ps G (ctl s) (written s) u D cur" by (simp_all add: mirrors_def)
  have pinv: "player_inv (player_of (rq s))" using m(1) served_invD(2) [OF m(3)] by simp
  have moves: "\<exists>v D' cur'. mirrors decf n secs full ps G (ctl_step decf s) v D' cur'"
    if "rq (ctl_step decf s) = rq s"
      and "stage decf full ps G (ctl (ctl_step decf s)) (written (ctl_step decf s)) u D cur"
    using move_mirrored [OF mG that] by blast
  note step = ctl_step_def
  show ?thesis
  proof (cases "ctl s")
    case PlayStart
    show ?thesis
    proof (cases "current_stream (rq s)")
      case None
      with PlayStart m(4) show ?thesis by (intro moves) (simp_all add: step)
    next
      case (Some sid)
      then have cs: "hasStream (pl u)" "currentStream (pl u) = sid"
        using m(1) by (auto simp: has_stream_player has_stream_def current_stream_player current_stream_def
            split: list.splits)
      have at: "pcv u = AtRun" using m(4) PlayStart by simp
      have no: "cur = []" using m(3) at by (rule served_no_cur)
      have "player_step u (u\<lparr>pcv := InStream sid\<rparr>)" using player_step.start [OF at cs(1)] cs(2) by simp
      from goes_mirrored [OF mG _ this refl, where c = "PlayPop sid []"] PlayStart Some no m(4)
      show ?thesis by (auto simp: step)
    qed
  next
    case (PlayPop sid pcm)
    with pop_mirrored [OF mG] show ?thesis by blast
  next
    case (PlayWait sid pcm w)
    then have at: "pcv u = Waiting sid" using m(4) by simp
    then have "currentStream (pl u) = sid \<and> sid \<noteq> ''''"
      using served_invD(1,2) [OF m(3)] by (auto simp: psys_inv_def currentStream_def player_inv_def)
    then have cur: "stream_chunks (pl u) sid = [] \<longleftrightarrow> \<not> current_has_chunk (rq s)"
      using current_has_chunk_player [OF pinv] m(1) by (auto simp: currentHasChunk_def Let_def)
    show ?thesis
    proof (cases "w < STREAM_TIMEOUT_MS")
      case True
      show ?thesis
      proof (cases "current_has_chunk (rq s)")
        case has: True
        then have "player_step u (u\<lparr>pcv := InStream sid\<rparr>)"
          using at m(1) current_has_chunk_player [OF pinv] by (intro player_step.resumed) simp_all
        from goes_mirrored [OF mG _ this refl, where c = "PlayPop sid pcm"] PlayWait True has at m(4)
        show ?thesis by (auto simp: step)
      next
        case False
        with PlayWait True m(4) show ?thesis by (intro moves) (simp_all add: step)
      qed
    next
      case False
      then have "ending full ps G u sid"
        using assms(4) PlayWait at cur by (auto simp: rb_gives_up_def ending_def)
      with PlayWait False m(4) show ?thesis by (intro moves) (simp_all add: step)
    qed
  next
    case (PlayOut sid pcm)
    with m(4) show ?thesis by (intro moves) (auto simp: step Let_def collected_def)
  next
    case PlayFinish
    with finish_mirrored [OF mG assms(2,3)] show ?thesis by blast
  qed (rule moves; use m(4) in \<open>simp add: step\<close>)+
qed

text \<open>Every run of the bridge has a run of the emulator beside it.\<close>

lemma mirrors_init: "mirrors decf n secs full [] {} (init_rbsys (new_queue n secs)) init_psys [] []"
  by (simp add: mirrors_def rb_sys_inv_init served_inv_init)
    (simp add: init_rbsys_def init_psys_def new_queue_def player_of_def newPlayer_def)

lemma record_mirrored:
  assumes "mirrors decf n secs full ps G s u D cur" and "rec_step thr minms s t"
  shows "mirrors decf n secs full ps G t u D cur"
proof -
  have "rq t = rq s \<and> ctl t = ctl s \<and> written t = written s"
    using assms(2) by (cases rule: rec_step.cases) auto
  with assms rec_step_inv [OF assms(2)] show ?thesis by (simp add: mirrors_def)
qed

lemma rb_served_mirrored:
  "rb_served parse decf thr minms n secs full ps G s \<Longrightarrow> framed full \<Longrightarrow> admitted parse n secs full \<Longrightarrow>
   part_of full ps \<Longrightarrow> \<exists>u D cur. mirrors decf n secs full ps G s u D cur"
proof (induction rule: rb_served.induct)
  case rb_start
  show ?case using mirrors_init by blast
next
  case (rb_arrive ps G s p peer m)
  then show ?case using mirrors_arrive part_of_butlast by blast
next
  case (rb_play ps G s)
  then show ?case using play_mirrored by blast
next
  case (rb_record ps G s t)
  then show ?case using record_mirrored by blast
qed

section \<open>The controller plays to the end\<close>

lemma has_stream_receive:
  "has_stream q \<Longrightarrow> has_stream (snd (rb_receive parse peer c (m, q)))"
  by (auto simp: rb_receive_queue has_stream_def rb_push_def Let_def
      split: option.splits sum.splits)

lemma rb_served_keyed:
  "rb_served parse decf thr minms n secs full ps G s \<Longrightarrow> framed full \<Longrightarrow> admitted parse n secs full \<Longrightarrow>
   part_of full ps \<Longrightarrow> keyed_for s"
proof (induction rule: rb_served.induct)
  case rb_start
  show ?case by (simp add: keyed_for_def init_rbsys_def)
next
  case (rb_arrive ps G s p peer m)
  then have "keyed_for s" using part_of_butlast by blast
  then show ?case using has_stream_receive by (simp add: keyed_for_def)
next
  case (rb_play ps G s)
  then have "rb_sys_inv s" using rb_served_mirrored [OF rb_play(1)] by (auto simp: mirrors_def)
  with rb_play show ?case by (simp add: keyed_for_step)
next
  case (rb_record ps G s t)
  then have "keyed_for s" by blast
  moreover have "rq t = rq s \<and> ctl t = ctl s" using rb_record(2) by (cases rule: rec_step.cases) auto
  ultimately show ?case by (simp add: keyed_for_def)
qed

text \<open>
  No wait is overdue while a chunk is there, which the controller would then give up. It is so after each
  of its steps, and as nothing more arrives it stays so.
\<close>

definition not_late :: "rbsys \<Rightarrow> bool" where
  "not_late s \<longleftrightarrow> (\<forall>sid pcm w. ctl s = PlayWait sid pcm w \<and> STREAM_TIMEOUT_MS \<le> w \<longrightarrow> \<not> current_has_chunk (rq s))"

lemma ctl_calm: "not_late (ctl_step decf s)"
proof (cases "ctl s")
  case (PlayPop sid pcm)
  with pop_none [of "rq s"] show ?thesis
    by (auto simp: not_late_def ctl_step_def split: prod.splits option.splits)
next
  case (PlayWait sid pcm w)
  then show ?thesis by (auto simp: not_late_def ctl_step_def)
qed (auto simp: not_late_def ctl_step_def split: option.splits)

lemma calm_gives_up:
  assumes "not_late s" and "\<forall>sid. of_stream sid ps = full sid"
  shows "rb_gives_up full ps s = {}"
  using assms by (auto simp: rb_gives_up_def not_late_def)

lemma calm_drains:
  assumes "rb_served parse decf thr minms n secs full ps G s" and "framed full" and "admitted parse n secs full"
    and "\<forall>sid. of_stream sid ps = full sid" and "\<not> is_recording s" and "not_late s"
  shows "\<exists>t. ctl_runs decf s t \<and> rb_served parse decf thr minms n secs full ps G t \<and> at_rest t"
  using assms(1,5,6)
proof (induction "ctl_todo s" arbitrary: s rule: less_induct)
  case less
  have part: "part_of full ps" using assms(4) by (simp add: part_of_def)
  show ?case
  proof (cases "at_rest s")
    case True
    with less.prems show ?thesis by (intro exI [of _ s]) simp
  next
    case False
    have inv: "rb_sys_inv s" "keyed_for s"
      using rb_served_mirrored [OF less.prems(1) assms(2,3) part] rb_served_keyed [OF less.prems(1) assms(2,3) part]
      by (auto simp: mirrors_def)
    have "rb_served parse decf thr minms n secs full ps G (ctl_step decf s)"
      using rb_play [OF less.prems(1)] calm_gives_up [of s ps full] less.prems(3) assms(4) by simp
    from less.hyps [OF ctl_progress [OF inv less.prems(2) False] this ctl_not_recording [OF less.prems(2)] ctl_calm]
    show ?thesis using ctl_runs_step by blast
  qed
qed

lemma served_rec_runs:
  "rec_runs thr minms s t \<Longrightarrow> rb_served parse decf thr minms n secs full ps G s \<Longrightarrow>
   rb_served parse decf thr minms n secs full ps G t"
  unfolding rec_runs_def by (induction rule: rtranclp_induct) (auto intro: rb_record)

text \<open>
  From any state in which everything has arrived the recorder can end its recording and the controller then
  plays to the end. Only a wait that is overdue already is still given up.
\<close>

lemma rb_served_drains:
  assumes "rb_served parse decf thr minms n secs full ps G s" and "framed full" and "admitted parse n secs full"
    and "\<forall>sid. of_stream sid ps = full sid"
  shows "\<exists>t. own_runs decf thr minms s t \<and> at_rest t \<and>
    rb_served parse decf thr minms n secs full ps (G \<union> rb_gives_up full ps s) t"
proof -
  have part: "part_of full ps" using assms(4) by (simp add: part_of_def)
  have inv: "rb_sys_inv s" using rb_served_mirrored [OF assms(1-3) part] by (auto simp: mirrors_def)
  have "rec_quiet thr minms s"
  proof (cases "is_recording s")
    case True
    with inv show ?thesis by (intro recorder_ends) (auto simp: rb_sys_inv_def)
  next
    case False
    then show ?thesis by (auto simp: rec_quiet_def rec_runs_def)
  qed
  then obtain u where u: "rec_runs thr minms s u" "\<not> is_recording u" "rq u = rq s" "ctl u = ctl s"
    by (auto simp: rec_quiet_def)
  then have "rb_gives_up full ps u = rb_gives_up full ps s" by (simp add: rb_gives_up_def)
  then have "rb_served parse decf thr minms n secs full ps (G \<union> rb_gives_up full ps s) (ctl_step decf u)"
    using rb_play [OF served_rec_runs [OF u(1) assms(1)]] by simp
  from calm_drains [OF this assms(2-4) ctl_not_recording [OF u(2)] ctl_calm]
  obtain t where t: "ctl_runs decf (ctl_step decf u) t" "at_rest t"
    "rb_served parse decf thr minms n secs full ps (G \<union> rb_gives_up full ps s) t" by blast
  have "own_runs decf thr minms s t"
    using own_runs_rec [OF u(1)] own_runs_ctl [OF ctl_runs_step [OF t(1)]] unfolding own_runs_def by (rule rtranclp_trans)
  with t show ?thesis by blast
qed

section \<open>Answers\<close>

text \<open>The samples of some chunks as the bridge decodes them one by one; a chunk it cannot decode has none.\<close>

definition air_of :: "(bytes \<Rightarrow> gostring + 16 word list) \<Rightarrow> bytes list \<Rightarrow> 16 word list" where
  "air_of decf xs = concat (map (\<lambda>d. case decf d of Inl e \<Rightarrow> [] | Inr pcm \<Rightarrow> pcm) xs)"

text \<open>One transmission for each piece of an answer; one without samples is none.\<close>

definition sent_on_air :: "(bytes \<Rightarrow> gostring + 16 word list) \<Rightarrow> ('pcm answer \<times> bytes list) list \<Rightarrow> 16 word list list" where
  "sent_on_air decf aired = filter (\<lambda>w. w \<noteq> []) (map (\<lambda>x. air_of decf (snd x)) aired)"

definition readable :: "(bytes \<Rightarrow> gostring + nat) \<Rightarrow> nat \<Rightarrow> 'pcm answer \<Rightarrow> bool" where
  "readable parse secs a \<longleftrightarrow> (\<forall>d \<in> set (audio_of a). \<exists>dur. parse d = Inr dur \<and> dur \<le> secs * 1000000000)"

lemma mirrors_on_air:
  assumes "mirrors decf n secs full ps G s u D cur" and "framed full" and "part_of full ps"
  shows "\<exists>D'. distinct (filter (\<lambda>sid. sid \<notin> G) (map fst D')) \<and> (\<forall>b \<in> set D'. block_ok full ps G b) \<and>
    fst ` set D' \<subseteq> {sid. of_stream sid ps \<noteq> []} \<and> written s = on_air decf D' \<and>
    (at_rest s \<longrightarrow> fst ` set D' = {sid. of_stream sid ps \<noteq> []})"
proof -
  have m: "served_inv full ps G u D cur" "stage decf full ps G (ctl s) (written s) u D cur" "pl u = player_of (rq s)"
    using assms(1) by (simp_all add: mirrors_def)
  note v = served_invD [OF m(1)]
  show ?thesis
  proof (cases "ctl s = PlayFinish")
    case True
    then obtain sid where sid: "ending full ps G u sid"
      "written s = on_air decf (D @ [(sid, map (fst \<circ> snd) cur, [])])"
      using m(2) by auto
    note e = ending_finish [OF m(1) assms(2,3) sid(1)]
    note f = served_finish [OF m(1) e(1) assms(3) e(2)]
    let ?b = "(sid, map (fst \<circ> snd) cur, [])" and ?c = "(sid, map (fst \<circ> snd) cur, stream_chunks (pl u) sid)"
    have "block_ok full ps G ?b" using served_invD(5) [OF f, of ?c] by auto
    moreover have "distinct (filter (\<lambda>sid. sid \<notin> G) (map fst (D @ [?b])))"
      using served_once [OF f] by simp
    moreover have "fst ` set (D @ [?b]) \<subseteq> {sid. of_stream sid ps \<noteq> []}"
      using served_invD(4) [OF f] by auto
    ultimately show ?thesis
      using v(5) sid(2) True by (intro exI [of _ "D @ [?b]"]) (auto simp: at_rest_def simp del: block_ok.simps)
  next
    case False
    then have "written s = on_air decf D" using m(2) by (cases "ctl s") simp_all
    moreover have "fst ` set D \<subseteq> {sid. of_stream sid ps \<noteq> []}" using v(4) by auto
    moreover have "fst ` set D = {sid. of_stream sid ps \<noteq> []}" if "at_rest s"
      using v(4) that m(3) by (auto simp: at_rest_def has_stream_def)
    ultimately show ?thesis using v(5) served_once [OF m(1)] by (intro exI [of _ D]) blast
  qed
qed

lemma on_air_pieces: "on_air decf D = sent_on_air decf (pieces_of answers D)"
proof -
  have "map (\<lambda>(sid, es, rest). samples_of decf es) D = map (\<lambda>x. air_of decf (snd x)) (pieces_of answers D)"
    by (auto simp: pieces_of_def samples_of_def air_of_def comp_def)
  then show ?thesis unfolding on_air_def sent_on_air_def by (rule arg_cong)
qed

lemma admitted_answers:
  assumes "distinct (map aId answers)" and "\<forall>a \<in> set answers. clean a \<and> readable parse secs a"
    and "length answers \<le> n"
  shows "admitted parse n secs (sent_by answers)"
proof -
  have ids: "{sid. sent_by answers sid \<noteq> []} \<subseteq> aId ` set answers"
    using sent_by_answer(2) [OF assms(1)] by blast
  have "card {sid. sent_by answers sid \<noteq> []} \<le> card (aId ` set answers)" using ids by (intro card_mono) simp_all
  also have "\<dots> \<le> length answers" by (metis card_image_le card_length finite_set order_trans)
  finally have "card {sid. sent_by answers sid \<noteq> []} \<le> n" using assms(3) by simp
  moreover have "\<exists>dur. parse (Data p) = Inr dur \<and> dur \<le> secs * 1000000000" if p: "p \<in> set (sent_by answers sid)" for sid p
  proof -
    have "sent_by answers sid \<noteq> []" using p by auto
    then obtain a where a: "a \<in> set answers" "aId a = sid" using ids by auto
    have "p \<in> set (packets_of a)" using p sent_by_answer(1) [OF assms(1) a(1)] a(2) by simp
    then have "Data p \<in> set (audio_of a)"
      using clean_packets(1) [of a] a(1) assms(2) by (metis image_eqI list.set_map)
    with a(1) assms(2) show ?thesis by (simp add: readable_def)
  qed
  ultimately show ?thesis using ids by (auto simp: admitted_def finite_subset)
qed

lemma radio_sent:
  assumes "distinct (map aId answers)" and "\<forall>a \<in> set answers. clean a \<and> readable parse secs a"
    and "length answers \<le> n" and "rb_served parse decf thr minms n secs (sent_by answers) ps G s"
    and "part_of (sent_by answers) ps"
  shows "\<exists>aired. one_by_one answers G aired \<and> written s = sent_on_air decf aired \<and>
    (at_rest s \<and> (\<forall>sid. of_stream sid ps = sent_by answers sid) \<longrightarrow> fst ` set aired = set answers \<and> \<not> pin s)"
proof -
  have clean: "\<forall>a \<in> set answers. clean a" using assms(2) by blast
  have fr: "framed (sent_by answers)" using assms(1) clean by (rule sent_by_framed)
  obtain u D0 cur where m: "mirrors decf n secs (sent_by answers) ps G s u D0 cur"
    using rb_served_mirrored [OF assms(4) fr admitted_answers [OF assms(1-3)] assms(5)] by blast
  from mirrors_on_air [OF m fr assms(5)] obtain D where D: "distinct (filter (\<lambda>sid. sid \<notin> G) (map fst D))"
    "\<forall>b \<in> set D. block_ok (sent_by answers) ps G b" "fst ` set D \<subseteq> {sid. of_stream sid ps \<noteq> []}"
    "written s = on_air decf D" "at_rest s \<longrightarrow> fst ` set D = {sid. of_stream sid ps \<noteq> []}" by blast
  have "{sid. of_stream sid ps \<noteq> []} \<subseteq> aId ` set answers"
    using assms(5) sent_by_answer(2) [OF assms(1)] unfolding part_of_def by (metis (mono_tags, lifting) mem_Collect_eq prefix_Nil subsetI)
  with D(3) have ids: "fst ` set D \<subseteq> aId ` set answers" by blast
  have all: "fst ` set (pieces_of answers D) = set answers"
    if "at_rest s" and arrived: "\<forall>sid. of_stream sid ps = sent_by answers sid"
  proof
    show "fst ` set (pieces_of answers D) \<subseteq> set answers"
      using ids answer_with_id(1) [of _ answers] unfolding pieces_members by blast
    show "set answers \<subseteq> fst ` set (pieces_of answers D)"
    proof
      fix a assume a: "a \<in> set answers"
      have "of_stream (aId a) ps \<noteq> []"
        using arrived a clean sent_by_answer(1) [OF assms(1) a] clean_packets(2) [of a] by simp
      then have "aId a \<in> fst ` set D" using D(5) \<open>at_rest s\<close> by blast
      then show "a \<in> fst ` set (pieces_of answers D)"
        unfolding pieces_members using answer_with_own [OF assms(1) a] by (metis image_eqI)
    qed
  qed
  have "at_rest s \<longrightarrow> \<not> pin s" using m by (auto simp: mirrors_def rb_sys_inv_def at_rest_def)
  moreover have "written s = sent_on_air decf (pieces_of answers D)"
    unfolding D(4) by (rule on_air_pieces)
  ultimately show ?thesis
    using all pieces_one_by_one [OF assms(1) clean ids D(1,2)] by (intro exI [of _ "pieces_of answers D"]) blast
qed

text \<open>Packets that arrive one right after the other.\<close>

definition arrive_at :: "(bytes \<Rightarrow> gostring + nat) \<Rightarrow> gostring \<Rightarrow> outgoingAudio list \<Rightarrow> rbsys \<Rightarrow> rbsys" where
  "arrive_at parse peer = fold (\<lambda>p s. s\<lparr>rq := snd (rb_receive parse peer (audio_chunk p) (0, rq s))\<rparr>)"

lemma rb_served_arrivals:
  "rb_served parse decf thr minms n secs full qs G s \<Longrightarrow>
   rb_served parse decf thr minms n secs full (qs @ ps) G (arrive_at parse peer ps s)"
proof (induction ps arbitrary: qs s)
  case (Cons p ps)
  from Cons.IH [OF rb_arrive [OF Cons.prems, of p peer 0]] show ?case by (simp add: arrive_at_def)
qed (simp add: arrive_at_def)

lemma arrive_at_fields [simp]:
  "ctl (arrive_at parse peer ps s) = ctl s" "is_recording (arrive_at parse peer ps s) = is_recording s"
  by (induction ps arbitrary: s) (simp_all add: arrive_at_def)

section \<open>Property\<close>

text \<open>
  C2. On the radio, too, answers are heard one after the other: let any number of answers be streamed
  under different ids, no more of them than the bridge's queue has room for, none cancelled, all their
  chunks speakable, of a readable duration and within the bridge's limit; let their packets reach the
  bridge in any interleaving, those of one answer in their order, on any connections, while the
  controller and the recorder run in between in any way. Let \<open>G\<close> be the streams the controller has given
  up: its wait of \<open>STREAM_TIMEOUT_MS\<close> for the next chunk ran out before the last packet had come, or
  although one was queued. Then what has been sent over the air at any moment is, one transmission
  each, the samples of pieces of answers: of an answer whose stream is not in \<open>G\<close> once and the complete
  answer, of the others contiguous parts (a piece none of whose chunks can be decoded is no
  transmission). And when everything has arrived, the recorder can end its recording and the
  controller send all the rest, coming to rest with the pin cleared and its queue empty; no further
  stream is given up but one whose wait has run out already.
\<close>

theorem radio_answers_one_by_one:
  assumes "distinct (map aId answers)" and "\<forall>a \<in> set answers. clean a \<and> readable parse secs a"
    and "length answers \<le> n" and "rb_served parse decf thr minms n secs (sent_by answers) ps G s"
    and "\<forall>sid. prefix (of_stream sid ps) (sent_by answers sid)"
  shows "(\<exists>aired. one_by_one answers G aired \<and> written s = sent_on_air decf aired) \<and>
    ((\<forall>sid. of_stream sid ps = sent_by answers sid) \<longrightarrow>
      (\<exists>t aired. own_runs decf thr minms s t \<and> \<not> pin t \<and> \<not> has_stream (rq t) \<and>
         one_by_one answers (G \<union> rb_gives_up (sent_by answers) ps s) aired \<and> fst ` set aired = set answers \<and>
         written t = sent_on_air decf aired))"
proof (intro conjI impI)
  have part: "part_of (sent_by answers) ps" using assms(5) by (simp add: part_of_def)
  note sent = radio_sent [OF assms(1-3) _ part]
  show "\<exists>aired. one_by_one answers G aired \<and> written s = sent_on_air decf aired"
    using sent [OF assms(4)] by blast
  assume a: "\<forall>sid. of_stream sid ps = sent_by answers sid"
  have "framed (sent_by answers)" using assms(1,2) by (intro sent_by_framed) blast+
  then obtain t where t: "own_runs decf thr minms s t" "at_rest t"
    "rb_served parse decf thr minms n secs (sent_by answers) ps (G \<union> rb_gives_up (sent_by answers) ps s) t"
    using rb_served_drains [OF assms(4) _ admitted_answers [OF assms(1-3)] a] by blast
  with sent [OF t(3)] a show "\<exists>t aired. own_runs decf thr minms s t \<and> \<not> pin t \<and> \<not> has_stream (rq t) \<and>
      one_by_one answers (G \<union> rb_gives_up (sent_by answers) ps s) aired \<and> fst ` set aired = set answers \<and>
      written t = sent_on_air decf aired"
    by (auto simp: at_rest_def)
qed

text \<open>Two answers whose packets arrive in turns at an idle bridge.\<close>

definition demo_radio :: rbsys where
  "demo_radio = arrive_at (\<lambda>d. Inr 0) ''a'' demo_packets (init_rbsys (new_queue 2 30))"

lemma demo_radio_served:
  "rb_served (\<lambda>d. Inr 0) decf 500 800 2 30 full demo_packets {} demo_radio"
  using rb_served_arrivals [OF rb_start, where ps = demo_packets] by (simp add: demo_radio_def)

lemma demo_radio_calm: "rb_gives_up full ps demo_radio = {}"
  by (simp add: demo_radio_def init_rbsys_def rb_gives_up_def)

theorem radio_answers_one_by_one_witness:
  "\<exists>t aired. own_runs (\<lambda>d. Inr (map ucast d)) 500 800 demo_radio t \<and> \<not> pin t \<and> \<not> has_stream (rq t) \<and>
     one_by_one demo_answers {} aired \<and> fst ` set aired = set demo_answers \<and>
     written t = sent_on_air (\<lambda>d. Inr (map ucast d)) aired"
proof -
  have ids: "distinct (map aId demo_answers)" and len: "length demo_answers \<le> 2"
    by (simp_all add: demo_answers_def demo_answer_id)
  have "\<forall>a \<in> set demo_answers. clean a \<and> readable (\<lambda>d. Inr 0) 30 a"
    using demo_answers_clean by (simp add: readable_def)
  note r = radio_answers_one_by_one [OF ids this len demo_radio_served]
  have "\<forall>sid. prefix (of_stream sid demo_packets) (sent_by demo_answers sid)" by (simp add: demo_arrived)
  from r [OF this, THEN conjunct2] demo_radio_calm demo_arrived show ?thesis by simp
qed

end
