(* ===== verification/OnAir.thy ===== *)
theory OnAir
  imports RbServed BridgeConn
begin

text \<open>
  From the goroutines of the game server's gRPC client to the air: the packets that the handlers put
  into the send channel, the connection that sends them (\<open>app/wl-game-server/bridge_client.go\<close>, theory
  \<open>BridgeConn\<close>) and the radio bridge that receives and transmits them (\<open>app/radio-bridge/src\<close>, theory
  \<open>RbServed\<close>), composed. gRPC delivers what is sent on a connection in order.
\<close>

section \<open>What a connection has sent\<close>

text \<open>One connection took all packets so far: the others sent nothing.\<close>

definition sole_sender :: "nat \<Rightarrow> bshared \<Rightarrow> bool" where
  "sole_sender i sh \<longleftrightarrow> (\<forall>x \<in> set (bshared.taken sh). fst x = i)"

definition unsent :: "bshared \<Rightarrow> bconn \<Rightarrow> outgoingAudio list" where
  "unsent sh c = opt_list (bconn.sending c) @ sendCh sh"

lemma sole_sender_order:
  assumes "br_reachable (sh, cs)" and "i < length cs" and "sole_sender i sh" and "lostOut (cs ! i) = []"
  shows "produced sh = sentOut (cs ! i) @ unsent sh (cs ! i)"
proof -
  have inv: "conn_inv i sh (cs ! i)" "shared_inv sh"
    using br_reachable_inv [OF assms(1)] assms(2) by (simp_all add: br_inv_def)
  have "filter (\<lambda>(k, p). k = i) (bshared.taken sh) = bshared.taken sh"
    using assms(3) by (auto simp: sole_sender_def filter_id_conv)
  then have "map snd (bshared.taken sh) = sentOut (cs ! i) @ opt_list (bconn.sending (cs ! i))"
    using inv(1) assms(4) by (simp add: conn_inv_def taken_by_def)
  with inv(2) show ?thesis by (simp add: shared_inv_def unsent_def)
qed

lemma sender_sends_rest:
  assumes "i < length cs" and "\<not> senderDone (cs ! i)"
  shows "\<exists>sh' c'. br_step\<^sup>*\<^sup>* (sh, cs) (sh', cs[i := c']) \<and> sentOut c' = sentOut (cs ! i) @ unsent sh (cs ! i)"
proof -
  let ?sh = "sh\<lparr>sendCh := [], bshared.taken := bshared.taken sh @ map (Pair i) (sendCh sh)\<rparr>"
  let ?c = "(cs ! i)\<lparr>bconn.sending := None, sentOut := sentOut (cs ! i) @ opt_list (bconn.sending (cs ! i)) @ sendCh sh\<rparr>"
  have "br_step\<^sup>*\<^sup>* (sh, cs) (?sh, cs[i := ?c])"
    using conn_run [OF sender_flushes [OF assms(2)] assms(1)] by simp
  then show ?thesis by (intro exI [of _ ?sh] exI [of _ ?c]) (simp add: unsent_def)
qed

lemma part_of_prefix: "part_of full (ps @ qs) \<Longrightarrow> part_of full ps"
  unfolding part_of_def of_stream_simps by (blast dest: append_prefixD)

section \<open>Property\<close>

text \<open>
  C1. From the handlers to the air: let handlers put the packets of any number of answers into the send
  channel of the bridge client, interleaved, with reconnections and full channels as they may come,
  under different ids, none cancelled, all chunks speakable, of a readable duration and within the
  bridge's limit, no more answers than its queue has room for; let one connection take all packets
  taken so far, none of its sends failing; and let the radio bridge receive what that connection has
  sent while its controller and recorder run in any way. Let \<open>G\<close> be the streams the controller has
  given up: its wait for the next chunk ran out before the last packet had come, or although one was
  queued. Then at any moment what has been transmitted is, one transmission each, pieces of answers:
  an answer whose stream is not in \<open>G\<close> once and complete, contiguous parts of the others. And when all
  packets have been put into the channel and the connection's sender is alive, the client can send the
  rest, and then the bridge, with no packet or choice of anyone else, can end its recording and
  transmit the rest of every answer and come to rest with the pin cleared and its queue empty, giving
  up no further stream but one whose wait had run out by then.
\<close>

theorem answers_on_air:
  assumes "distinct (map aId answers)" and "\<forall>a \<in> set answers. clean a \<and> readable parse secs a"
    and "length answers \<le> n"
    and "br_reachable (sh, cs)" and "i < length cs" and "sole_sender i sh" and "lostOut (cs ! i) = []"
    and "\<forall>sid. prefix (of_stream sid (produced sh)) (sent_by answers sid)"
    and "rb_served parse decf thr minms n secs (sent_by answers) (sentOut (cs ! i)) G s"
  shows "(\<exists>aired. one_by_one answers G aired \<and> written s = sent_on_air decf aired) \<and>
    ((\<forall>sid. of_stream sid (produced sh) = sent_by answers sid) \<and> \<not> senderDone (cs ! i) \<longrightarrow>
      (\<exists>sh' c' r t aired. br_step\<^sup>*\<^sup>* (sh, cs) (sh', cs[i := c']) \<and> sentOut c' = produced sh \<and>
         r = arrive_at parse peer (unsent sh (cs ! i)) s \<and> own_runs decf thr minms r t \<and>
         \<not> pin t \<and> \<not> has_stream (rq t) \<and>
         one_by_one answers (G \<union> rb_gives_up (sent_by answers) (produced sh) r) aired \<and>
         fst ` set aired = set answers \<and> written t = sent_on_air decf aired))"
proof (intro conjI impI)
  note sent = radio_sent [OF assms(1-3)]
  have order: "produced sh = sentOut (cs ! i) @ unsent sh (cs ! i)"
    using assms(4-7) by (rule sole_sender_order)
  have all: "part_of (sent_by answers) (produced sh)" using assms(8) by (simp add: part_of_def)
  then have "part_of (sent_by answers) (sentOut (cs ! i))" unfolding order by (rule part_of_prefix)
  from sent [OF assms(9) this]
  show "\<exists>aired. one_by_one answers G aired \<and> written s = sent_on_air decf aired" by blast
  assume a: "(\<forall>sid. of_stream sid (produced sh) = sent_by answers sid) \<and> \<not> senderDone (cs ! i)"
  let ?r = "arrive_at parse peer (unsent sh (cs ! i)) s"
  let ?G = "G \<union> rb_gives_up (sent_by answers) (produced sh) ?r"
  obtain sh' c' where run: "br_step\<^sup>*\<^sup>* (sh, cs) (sh', cs[i := c'])" "sentOut c' = produced sh"
    using sender_sends_rest [OF assms(5), of sh] a order by auto
  have served: "rb_served parse decf thr minms n secs (sent_by answers) (produced sh) G ?r"
    unfolding order by (rule rb_served_arrivals [OF assms(9)])
  have fr: "framed (sent_by answers)" using assms(1,2) by (intro sent_by_framed) blast+
  obtain t where t: "own_runs decf thr minms ?r t" "at_rest t"
    "rb_served parse decf thr minms n secs (sent_by answers) (produced sh) ?G t"
    using rb_served_drains [OF served fr admitted_answers [OF assms(1-3)]] a by blast
  with sent [OF t(3) all] a obtain aired where "one_by_one answers ?G aired" "fst ` set aired = set answers"
    "written t = sent_on_air decf aired" "\<not> pin t" by blast
  with run t(1,2) show "\<exists>sh' c' r t aired. br_step\<^sup>*\<^sup>* (sh, cs) (sh', cs[i := c']) \<and> sentOut c' = produced sh \<and>
      r = ?r \<and> own_runs decf thr minms r t \<and> \<not> pin t \<and> \<not> has_stream (rq t) \<and>
      one_by_one answers (G \<union> rb_gives_up (sent_by answers) (produced sh) r) aired \<and>
      fst ` set aired = set answers \<and> written t = sent_on_air decf aired"
    unfolding at_rest_def by blast
qed

text \<open>A connection that has received a recording, and all the packets of two answers in the channel.\<close>

definition demo_shared :: bshared where
  "demo_shared = \<lparr>sendCh = demo_packets, ctxDone = False, produced = demo_packets, taken = []\<rparr>"

lemma demo_conn_reachable: "br_reachable (demo_shared, [busy_conn [1]])"
proof -
  have "br_reachable (fst br_init, [busy_conn [1]\<lparr>handling := Some ([1], demo_packets)\<rparr>])"
    using conn_takes [of "fst br_init" "[]" "[1]" demo_packets] first_conn by (simp add: br_init_def)
  moreover have "br_step\<^sup>*\<^sup>* (fst br_init, [busy_conn [1]\<lparr>handling := Some ([1], demo_packets)\<rparr>]) (demo_shared, [busy_conn [1]])"
    using conn_run [OF handler_fills [of "busy_conn [1]\<lparr>handling := Some ([1], demo_packets)\<rparr>" "[1]" demo_packets "[]"
        "fst br_init" 0], of "[busy_conn [1]\<lparr>handling := Some ([1], demo_packets)\<rparr>]"]
    by (simp add: br_init_def busy_conn_def new_conn_def demo_shared_def sendChCap_def demo_packets_def)
  ultimately show ?thesis using br_reachable_run by blast
qed

theorem answers_on_air_witness:
  "\<exists>sh' c' t aired. br_step\<^sup>*\<^sup>* (demo_shared, [busy_conn [1]]) (sh', [c']) \<and> sentOut c' = demo_packets \<and>
     own_runs (\<lambda>d. Inr (map ucast d)) 500 800
       (arrive_at (\<lambda>d. Inr 0) ''a'' demo_packets (init_rbsys (new_queue 2 30))) t \<and> \<not> pin t \<and>
     one_by_one demo_answers {} aired \<and> fst ` set aired = set demo_answers \<and>
     written t = sent_on_air (\<lambda>d. Inr (map ucast d)) aired"
proof -
  have ids: "distinct (map aId demo_answers)" and len: "length demo_answers \<le> 2"
    by (simp_all add: demo_answers_def demo_answer_id)
  have ok: "\<forall>a \<in> set demo_answers. clean a \<and> readable (\<lambda>d. Inr 0) 30 a"
    using demo_answers_clean by (simp add: readable_def)
  have c: "0 < length [busy_conn [1]]" "sole_sender 0 demo_shared" "lostOut ([busy_conn [1]] ! 0) = []"
    "\<not> senderDone ([busy_conn [1]] ! 0)" "unsent demo_shared ([busy_conn [1]] ! 0) = demo_packets"
    "produced demo_shared = demo_packets" "sentOut ([busy_conn [1]] ! 0) = []"
    by (simp_all add: busy_conn_def demo_shared_def new_conn_def sole_sender_def unsent_def)
  have all: "\<forall>sid. of_stream sid (produced demo_shared) = sent_by demo_answers sid" by (simp add: c demo_arrived)
  then have pre: "\<forall>sid. prefix (of_stream sid (produced demo_shared)) (sent_by demo_answers sid)" by simp
  let ?s = "init_rbsys (new_queue 2 30)"
  have s: "rb_served (\<lambda>d. Inr 0) (\<lambda>d. Inr (map ucast d)) 500 800 2 30 (sent_by demo_answers)
      (sentOut ([busy_conn [1]] ! 0)) {} ?s" unfolding c(7) by (rule rb_start)
  have calm: "rb_gives_up full ps (arrive_at (\<lambda>d. Inr 0) ''a'' demo_packets ?s) = {}" for full ps
    by (simp add: rb_gives_up_def init_rbsys_def)
  from answers_on_air [OF ids ok len demo_conn_reachable c(1-3) pre s, of "''a''", THEN conjunct2]
  show ?thesis using all c(4-6) calm by (auto simp: list_update_code)
qed

end
