(* ===== verification/Spec2Isabelle.thy ===== *)
theory Spec2Isabelle
  imports Callsign Split SendPlay WsConcurrent BridgeConn Survival GameServer WsTestClient TestClient
    EmuMain RbMain RbDump RbServed OnAir
begin

text \<open>
  WHISPER LINK, A RADIO GAME: THE PROGRAMS UNDER \<open>src/app\<close>, IN GO, AND THE RADIO BRIDGE, IN RUST.

  The program. Players speak into transceivers. A radio bridge records them and plays audio; the game
  server (\<open>wl-game-server\<close>) is its client: it transcribes each recording with a language model,
  dispatches the utterances by callsign to built-in services or to the characters of logged-in
  players, and sends back speech in packets. Players log in over WebSocket
  (\<open>wl-game-server-test-client\<close> is such a client). \<open>radio-bridge\<close> drives a real transceiver;
  \<open>radio-bridge-emulator\<close> stands for it on a desktop computer, with its microphone and speaker, and
  \<open>radio-bridge-test-client\<close> is a client of the bridge for testing.

  One recording goes: microphone, \<open>recordUntilSilence\<close>, \<open>broadcast\<close> to the connections, gRPC,
  \<open>bridge_recv_loop\<close>, \<open>handleAudio\<close> (\<open>Transcribe\<close>, \<open>Reason\<close>, \<open>Dispatch\<close>), a handler, its packets in
  \<open>sendCh\<close>, the sending goroutine, gRPC, \<open>recv_loop\<close> of the emulator, \<open>push\<close> of the player, its loop,
  \<open>decodeOggOpus\<close>, speaker. The theorems of this theory span several of these parts.

  CONVENTIONS. Go strings are Isabelle strings, byte for byte; \<open>[]byte\<close> is a list of 8-bit words, other
  integers with a width are words, \<open>int\<close> is int or nat where it cannot be negative or wrap. A pair of
  value and error is the type \<open>go\<close> (\<open>Return\<close>, \<open>Error\<close>, \<open>Panic\<close>). Libraries and services are parameters:
  the language model (\<open>gen\<close>), Opus, Ogg packets, TOML, files, gRPC, the sound device, the clock; what
  their calls return is an argument, a record of functions or a list of events. Log output is left
  out. Goroutines are either folded into an event list or schedule that the theorems quantify over,
  or steps of a relation.

  SHARED THEORIES. \<open>Prelude\<close> (Go types, results, lists), \<open>Bytes\<close> (slices, little-endian numbers),
  \<open>Utf8\<close> (runes, \<open>TrimSpace\<close>), \<open>GoFmt\<close> and \<open>GoQuote\<close> (\<open>fmt\<close>: \<open>%s\<close>, \<open>%d\<close>, \<open>%q\<close>, formats that do not match),
  \<open>Json\<close> (\<open>encoding/json\<close>: printing, parsing, storing into structs; its theorem \<open>parse_marshal\<close> reads
  printed values back), \<open>OggLib\<close> (the packets of the Ogg library), \<open>PcmOut\<close> (the playback loop).

  GAME SERVER, \<open>wl-game-server\<close>.
  \<open>Callsign\<close>: \<open>callsign.go\<close>, the pool; locale of an issuer, conservation of callsigns.
  \<open>Registry\<close>: \<open>session_registry.go\<close>; the map laws \<open>registry_laws\<close> through a locale.
  \<open>ConvLog\<close>: \<open>conversation_log.go\<close>; what is kept, and that the rendered log determines it.
  \<open>Persona\<close>: \<open>persona.go\<close>, system instructions and characters with their texts.
  \<open>Split\<close>: \<open>split.go\<close>, cutting answers for speech, its indices and slices panicking out of range as in Go;
  refinement of a one-pass specification.
  \<open>Gemini\<close>: \<open>gemini.go\<close>, requests to the language model, reading of its JSON and of the schema.
  \<open>Tts\<close>: \<open>tts.go\<close>, WAV header, PCM, Opus packets with their granule positions; what is relied on of the
  libraries, that a reader finds in the bytes of a flushed writer the packets it was given (\<open>reliable\<close>).
  \<open>TtsStream\<close>: \<open>tts_stream.go\<close> and \<open>outgoing.go\<close>, the parallel generation and ordered sending of
  chunks under any schedule and cancellation; waiting for room in the send channel is a delay here and a
  state of \<open>BridgeConn\<close>, where it can last for ever.
  \<open>WsSession\<close>: \<open>ws_session.go\<close> in sequence; \<open>WsConcurrent\<close>: the same as interleaved steps of any
  number of sessions (\<open>ws_step\<close>), with the ownership invariant and the race of the clean-up.
  \<open>Dispatcher\<close>: \<open>dispatcher.go\<close>, handlers and routing, the shared log.
  \<open>Bridge\<close>: \<open>bridge_client.go\<close>, reconnecting, the loops of one connection, handling a recording;
  \<open>BridgeConn\<close>: the goroutines of all its connections interleaved (\<open>br_step\<close>); conservation of packets
  and recordings, a run in which a live sender sends everything, the deadlock after a failed one, and
  that a shutdown completes in every interleaving (by a lexicographic measure of the work left);
  \<open>Survival\<close>: no recording makes the process panic while the service's answers are sound.
  \<open>GameServer\<close>: \<open>main.go\<close>, \<open>config.go\<close>, \<open>ws_server.go\<close>, building, wiring and serving.

  EMULATOR, \<open>radio-bridge-emulator\<close>.
  \<open>Proto\<close>: the message of \<open>proto/transceiver.proto\<close>.
  \<open>Player\<close>: \<open>player.go\<close>, the queue of streams, behind the locales \<open>play_queue\<close> (what a playing loop uses;
  the bridge's queue is interpreted in it too) and \<open>stream_queue\<close> (with the pushes); \<open>Playback\<close>: the
  playback goroutine as a step relation (\<open>player_step\<close>), its invariant, conservation and progress.
  \<open>EmuServer\<close>: \<open>server.go\<close>, receiving into the player and forwarding recordings.
  \<open>EmuLevel\<close>: the sample arithmetic of \<open>audio.go\<close>; the level in \<open>float64\<close> equals an integer version.
  \<open>EmuAudio\<close>: the rest of \<open>audio.go\<close>, recording, trimming, packing, decoding, playing.
  \<open>Recorder\<close>: \<open>recorder.go\<close>, subscribers with bounded channels, behind the locale \<open>lossy_hub\<close>.
  \<open>EmuMain\<close>: \<open>main.go\<close>, \<open>config.go\<close>, and that subscriptions outlive connections.

  FROM SERVER TO SPEAKER. \<open>SendPlay\<close>: the packets of one answer, and of any number of answers sent
  interleaved, received while the playback runs: \<open>served\<close> is what can have happened when the packets
  \<open>ps\<close> have arrived, with the set \<open>G\<close> of the streams whose wait for the next chunk timed out too early; its
  invariant \<open>served_inv\<close> says that what was handled is blocks, each one stay of a stream at the head of the
  queue: a stream not in \<open>G\<close> has one block and is whole in it, or is at hand with all that has arrived.

  RADIO BRIDGE, \<open>radio-bridge/src\<close>, in Rust.
  \<open>RbQueue\<close>: \<open>queue.rs\<close>, with \<open>player_of\<close> as its simulation by the emulator's player.
  \<open>RbHandler\<close>: \<open>grpc/handler.rs\<close>, both tasks of a connection, connections in turn, whose peer names may
  recur, and ONESHOT ids, when they are new and how they collide.
  \<open>RbController\<close>: \<open>controller.rs\<close> as a function on the shared state (\<open>ctl_step\<close>), the loop of
  \<open>audio/recorder.rs\<close> as a relation (\<open>rec_step\<close>), interleaved with each other and with pushes of clients;
  a measure of what the controller has left (\<open>ctl_todo\<close>) shows that the bridge can always come to rest.
  \<open>RbMain\<close>: \<open>config.rs\<close> and \<open>main.rs\<close>, and that the queue keeps within the configuration loaded.
  \<open>RbServed\<close>: handler, controller and recorder while packets arrive: \<open>rb_served\<close> is what can have
  happened when the packets \<open>ps\<close> have arrived, again with the set \<open>G\<close> of the streams the controller gave up;
  \<open>mirrors\<close> is a forward simulation of its runs by the emulator's player, whose invariant \<open>served_inv\<close> so
  says of the bridge, too, that it transmits the answers one after the other, and whole unless given up.
  \<open>OnAir\<close>: \<open>BridgeConn\<close> and \<open>RbServed\<close> composed, from the send channel of the game server to the air.
  \<open>RbAudio\<close>: mixing, level, normalisation, encoding, decoding and writing, against the emulator's, with
  the rates and buffer sizes both ask for and the calls of the sound device that may fail;
  \<open>RbDump\<close>: what becomes of a finished recording, and that each dump has its own file.

  TEST CLIENTS. \<open>OggCrc\<close> and \<open>OggPage\<close>: \<open>ogg.go\<close> of \<open>radio-bridge-test-client\<close>, the checksum against a
  bit-serial reference and the page writer against a reader of the format; \<open>Terminal\<close>: \<open>terminal.go\<close>;
  \<open>TestClient\<close>: its \<open>main.go\<close>; \<open>WsTestClient\<close>: \<open>main.go\<close> of \<open>wl-game-server-test-client\<close>.

  BOUNDS. Loops of the code are structural recursions, functions with a termination proof, or
  recursions over the list of events that arrive, so a result is never hidden by fuel; the one
  exception is the JSON parser, whose fuel of twice the length of the text and two is shown to be
  enough for every text: more fuel gives the same result (\<open>parse_fuel\<close>). Capacities are the code's: 16 packets in \<open>sendCh\<close>, 1 recording in
  \<open>audioCh\<close>, 8 recordings of a subscriber, 4 key events, 16 remembered closed streams; the bridge's
  queue is bounded by its configuration, and its ONESHOT counters are 64-bit words (\<open>k < 2 ^ 64\<close>). The level is exact
  for frames up to \<open>2 ^ 20\<close> samples (the program's have 480), the length arithmetic of a recording for
  less than \<open>2 ^ 40\<close> readings (700 years), and Ogg pages for packets of at most 4096 bytes, the size of
  the encoder's buffer.

  NOT MODELLED. The code generated from the proto file
  beyond the message, its status and the two streams of a connection, since the compiler of the format
  produces all of it (so the component stays partly modelled); the
  waiting for open requests when the HTTP server is shut down; signals other than as the
  cancellation they cause; the printing of log lines, prompts and help; \<open>oggCRCTable\<close> of
  \<open>ogg.go\<close>, which is nil and unused; dead constructors such as \<open>NewBridgeClient\<close> that only store
  their arguments.
\<close>

section \<open>Properties\<close>

text \<open>
  An answer is heard in full, from the send channel to the speaker: when every chunk of it can be
  spoken and nothing is cancelled, then whatever results are ready when, the packets the server
  sends, received by an idle emulator on one connection, are played as one stream, every chunk in
  the order of the answer.
\<close>

theorem answer_heard_in_full:
  assumes "no_cancel sc" and "length (chunk_audio gen enc (map bp chunks)) = length chunks"
    and "chunks \<noteq> []" and "sid \<noteq> ''''"
  shows "map data (fst (play_quiet (snd (connect_recv
      (received (snd (streamTTSChunks sc sid gen enc chunks bp))) newPlayer))))
    = chunk_audio gen enc (map bp chunks)"
proof -
  obtain ps where ps: "snd (streamTTSChunks sc sid gen enc chunks bp) = ps"
    "map Data ps = chunk_audio gen enc (map bp chunks)"
    "map Status ps = map (\<lambda>j. chunkStatus j (Suc j < length chunks)) [0..<length chunks]"
    "\<forall>p \<in> set ps. StreamID p = sid"
    using stream_packets [OF assms(1,2)] by blast
  have "ps \<noteq> []" using ps(2) assms(2,3) by auto
  moreover have "\<forall>p \<in> set ps. on_stream sid p"
    using ps(4) statuses_framed(1) [OF ps(3)] by (simp add: on_stream_def)
  ultimately have "fst (play_quiet (snd (connect_recv (received ps) newPlayer)))
      = upto_terminal (map entry_of ps)"
    using assms(4) by (intro stream_played)
  also have "\<dots> = map entry_of ps" by (intro upto_terminal_all statuses_framed(2) [OF ps(3)])
  finally show ?thesis using ps(1,2) by (simp add: entry_of_def comp_def)
qed

theorem answer_heard_in_full_witness:
  "map data (fst (play_quiet (snd (connect_recv
      (received (snd (streamTTSChunks demo_sched ''u'' demo_gen Inr [''a'', ''b'', ''c''] (\<lambda>t. t)))) newPlayer))))
    = chunk_audio demo_gen Inr (map (\<lambda>t. t) [''a'', ''b'', ''c''])"
  by (rule answer_heard_in_full [OF no_cancel_demo])
    (simp_all add: chunk_audio_def generateChunksParallel_def chunk_goroutine_def demo_gen_def)

text \<open>
  C37. A failed chunk can silence a good one: when the third of four chunks fails and this is known as the
  second is sent, the server marks the second as the end, and the emulator, having all packets
  queued, closes the stream there and discards the fourth chunk, which was generated and sent.
\<close>

theorem good_chunk_silenced:
  "map data (fst (play_quiet (snd (connect_recv (received (snd (streamTTSChunks demo_sched ''u''
      demo_gen Inr [''a'', ''b'', ''!'', ''c''] (\<lambda>t. t)))) newPlayer)))) = [[97], [98]]
   \<and> chunk_audio demo_gen Inr (map (\<lambda>t. t) [''a'', ''b'', ''!'', ''c'']) = [[97], [98], [99]]"
proof
  let ?ps = "[\<lparr>Data = [97], Status = START, StreamID = ''u''\<rparr>,
    \<lparr>Data = [98], Status = END, StreamID = ''u''\<rparr>, \<lparr>Data = [99], Status = END, StreamID = ''u''\<rparr>]"
  have "snd (streamTTSChunks demo_sched ''u'' demo_gen Inr [''a'', ''b'', ''!'', ''c''] (\<lambda>t. t)) = ?ps"
    by (simp add: streamTTSChunks_def generateChunksParallel_def chunk_goroutine_def demo_gen_def
        demo_sched_def init_tts_def getResult_def chunkStatus_def Let_def eval_nat_numeral)
  moreover have "fst (play_quiet (snd (connect_recv (received ?ps) newPlayer)))
      = upto_terminal (map entry_of ?ps)"
    by (rule stream_played [of _ "''u''"]) (simp_all add: on_stream_def)
  ultimately show "map data (fst (play_quiet (snd (connect_recv (received (snd (streamTTSChunks demo_sched ''u''
      demo_gen Inr [''a'', ''b'', ''!'', ''c''] (\<lambda>t. t)))) newPlayer)))) = [[97], [98]]"
    by (simp add: entry_of_def)
qed (simp add: chunk_audio_def generateChunksParallel_def chunk_goroutine_def demo_gen_def)

text \<open>
  C28. The radio check works end to end: a recording whose transcription is one utterance for S4CE comes
  back as one packet with the same bytes, and an idle emulator that receives it queues exactly this
  recording as a stream of its own; the utterance is in the shared log.
\<close>

theorem radio_check:
  assumes "gen (transcribe_request proc audio) = text_reply (marshal (result_json [it]))"
    and "valid_item it" and "receiver it = ''S4CE''"
    and "Lookup (cRegistry (envs 0)) ''S4CE'' = None" and "\<not> cSendDone (envs 0)"
  shows "\<exists>d'. handleAudio gen proc envs audio main_dispatcher = (Return (), d', [oneshot audio]) \<and>
    unlimited d' [item_entry it] \<and>
    queue_of (snd (connect_recv (received [oneshot audio]) newPlayer)) =
      [(oneshot_id 1, [\<lparr>data = audio, status = ONESHOT\<rparr>])]"
proof -
  obtain t where t: "Transcribe gen proc audio = Return t" "slice_elems (Items t) = [it]"
    using transcribe_reads [where gen = gen and p = proc and ogg = audio and its = "[it]"] assms(1,2)
    by auto
  have "queue_of (snd (connect_recv (received [oneshot audio]) newPlayer)) =
      [(oneshot_id 1, [\<lparr>data = audio, status = ONESHOT\<rparr>])]"
    using oneshots_line_up [of newPlayer 0 "[audio]"] newPlayer_inv
    by (simp add: connect_recv_player received_def oneshot_events_def audio_chunk_def oneshot_def
        oneshot_chunk_def)
  moreover have "\<exists>d'. handleAudio gen proc envs audio main_dispatcher = (Return (), d', [oneshot audio]) \<and>
      unlimited d' [item_entry it]"
    using t assms(3,4,5)
    by (simp add: handleAudio_def Reason_def Dispatch_def dispatch_item_def Let_def main_dispatcher_def
        registerHandler_def NewDispatcher_def log_item_def Handle_def Echo_Handle_def send_one_def
        unlimited_def NewConversationLog_def Append_def)
  ultimately show ?thesis by blast
qed

definition echo_item :: TranscriptionItem where
  "echo_item = \<lparr>receiver = ''S4CE'', sender = ''S4DE'', message = ''radio check''\<rparr>"

theorem radio_check_witness:
  "\<exists>d'. handleAudio (\<lambda>req. text_reply (marshal (result_json [echo_item]))) demo_processor
      (\<lambda>k. demo_env ''x'' [1]) [7, 8] main_dispatcher = (Return (), d', [oneshot [7, 8]]) \<and>
    unlimited d' [item_entry echo_item] \<and>
    queue_of (snd (connect_recv (received [oneshot [7, 8]]) newPlayer)) =
      [(oneshot_id 1, [\<lparr>data = [7, 8], status = ONESHOT\<rparr>])]"
  by (rule radio_check)
    (simp_all add: echo_item_def valid_item_def valid_utf8_ascii demo_env_def registry_laws)


section \<open>From the microphone to the game server\<close>

lemma forward_all: "forward_loop (map (\<lambda>d. SubData d True) ds) = map oneshot_chunk ds"
  by (induction ds) (simp_all add: oneshot_chunk_def)

lemma bridge_receives_all:
  "bridge_recv_loop (map (\<lambda>c. (BRecvChunk c, False, False)) cs) = (None, map OggOpusData cs)"
  by (induction cs) simp_all

lemma bridge_receives_forwarded:
  "bridge_recv_loop (map (\<lambda>c. (BRecvChunk c, False, False)) (forward_loop (map (\<lambda>d. SubData d True) ds)))
     = (None, ds)"
  unfolding forward_all bridge_receives_all by (simp add: oneshot_chunk_def comp_def)

text \<open>
  C4. A recording reaches the game server: in any interleaving of connections, recordings and receives,
  the audio that the emulator forwards on a connection, received by the bridge client, is handed to
  the transcription in the order recorded, unchanged, and it is a subsequence of the recordings
  since the connection began.
\<close>

theorem recordings_reach_server:
  assumes "i < length (subs (hubRec (hub_run cfg ops)))"
  shows "connect None None (map (\<lambda>c. (BRecvChunk c, False, False))
      (forward_loop (map (\<lambda>d. SubData d True) (hubGot (hub_run cfg ops) i))))
      = (None, hubGot (hub_run cfg ops) i) \<and>
    subseq (hubGot (hub_run cfg ops) i) (hubSent (hub_run cfg ops) i)"
proof -
  have "hub.serves (hubRec (hub_run cfg ops)) i (hubGot (hub_run cfg ops) i)
      (hubSent (hub_run cfg ops) i) (hubLost (hub_run cfg ops) i)"
    using hub_inv_run [of cfg ops] assms by (simp add: hub_inv_def)
  then have "subseq (hubGot (hub_run cfg ops) i @ subs (hubRec (hub_run cfg ops)) ! i)
      (hubSent (hub_run cfg ops) i)"
    unfolding hub.serves_def by blast
  then have "subseq (hubGot (hub_run cfg ops) i) (hubSent (hub_run cfg ops) i)"
    by (rule subseq_order.trans [OF subseq_rev_drop_many [OF subseq_order.refl]])
  then show ?thesis
    by (simp add: connect_def bridge_receives_forwarded del: map_map)
qed

theorem recordings_reach_server_witness:
  "connect None None (map (\<lambda>c. (BRecvChunk c, False, False)) (forward_loop (map (\<lambda>d. SubData d True)
      (hubGot (hub_run demo_audio_cfg [ConnectOp, RecordedOp (Return [1]), TakeOp 0]) 0))))
      = (None, hubGot (hub_run demo_audio_cfg [ConnectOp, RecordedOp (Return [1]), TakeOp 0]) 0) \<and>
    subseq (hubGot (hub_run demo_audio_cfg [ConnectOp, RecordedOp (Return [1]), TakeOp 0]) 0)
      (hubSent (hub_run demo_audio_cfg [ConnectOp, RecordedOp (Return [1]), TakeOp 0]) 0)"
  by (rule recordings_reach_server)
    (simp add: hub_run_def hub_init_def newRecorder_def subscribe_def run_turn_def broadcast_def
      take_sub_def published_def subChanCap_def Let_def)

section \<open>From the space bar to the speaker\<close>

text \<open>
  C9. What is spoken into the test client is queued by an idle emulator: the takes of a session become
  streams of their own, one chunk each, in the order spoken, and each chunk reads back as the Ogg
  pages of exactly the frames of its take.
\<close>

theorem takes_queued:
  assumes "buffer_4096 enc" and "length ts < 2 ^ 64"
  shows "\<exists>chunks. recordAndSend None (Inr e0) None enc (concat (map take_events ts)) = (None, chunks) \<and>
    queue_of (snd (connect_recv (map (\<lambda>c. (RecvChunk c, False)) chunks) newPlayer)) =
      map (\<lambda>(k, c). (oneshot_id (of_nat k), [\<lparr>data = OggOpusData c, status = ONESHOT\<rparr>])) (enumerate 1 chunks) \<and>
    map (\<lambda>c. read_pages (OggOpusData c)) chunks =
      map (\<lambda>fs. Some (opus_pages fs)) (filter (\<lambda>fs. fs \<noteq> []) (take_frames enc e0 ts))"
proof -
  let ?fss = "filter (\<lambda>fs. fs \<noteq> []) (take_frames enc e0 ts)"
  let ?ds = "map (\<lambda>fs. concat (map encode_page (opus_pages fs))) ?fss"
  have chunks: "map sent_take ?fss = map oneshot_chunk ?ds"
    by (simp add: sent_take_def oneshot_chunk_def)
  have "length (take_frames enc e0 ts) = length ts"
    by (induction ts arbitrary: e0) (auto split: prod.split)
  then have "length ?ds < 2 ^ 64"
    using assms(2) length_filter_le [of "\<lambda>fs. fs \<noteq> []" "take_frames enc e0 ts"] by simp
  then have "queue_of (snd (connect_recv (oneshot_events ?ds) newPlayer)) =
      map (\<lambda>(k, d). (oneshot_id (of_nat k), [\<lparr>data = d, status = ONESHOT\<rparr>])) (enumerate 1 ?ds)"
    using oneshots_line_up [of newPlayer 0 ?ds] newPlayer_inv by (simp add: connect_recv_player)
  moreover have "oneshot_events ?ds = map (\<lambda>c. (RecvChunk c, False)) (map sent_take ?fss)"
    unfolding chunks by (simp add: oneshot_events_def)
  moreover have "enumerate 1 ?ds = map (\<lambda>(k, c). (k, OggOpusData c)) (enumerate 1 (map sent_take ?fss))"
    by (rule nth_equalityI) (simp_all add: nth_enumerate_eq sent_take_def)
  moreover have "map (\<lambda>c. read_pages (OggOpusData c)) (map sent_take ?fss) = map (\<lambda>fs. Some (opus_pages fs)) ?fss"
    by (simp add: sent_take_def take_reads [OF assms(1), of _ e0 ts])
  ultimately show ?thesis
    by (auto simp: recordAndSend_takes comp_def case_prod_unfold)
qed

theorem takes_queued_witness:
  "\<exists>chunks. recordAndSend None (Inr 0) None demo_encode
      (concat (map take_events [([Inr []], [Inr [], Inl ''x'', Inr [], Inr []]), ([], []), ([], [Inr []])]))
      = (None, chunks) \<and>
    queue_of (snd (connect_recv (map (\<lambda>c. (RecvChunk c, False)) chunks) newPlayer)) =
      map (\<lambda>(k, c). (oneshot_id (of_nat k), [\<lparr>data = OggOpusData c, status = ONESHOT\<rparr>])) (enumerate 1 chunks) \<and>
    map (\<lambda>c. read_pages (OggOpusData c)) chunks = [Some (opus_pages [[0], [2]]), Some (opus_pages [[3]])]"
  using takes_queued [of demo_encode
      "[([Inr []], [Inr [], Inl ''x'', Inr [], Inr []]), ([], []), ([], [Inr []])]" 0]
  by (simp add: buffer_4096_def demo_encode_def)

section \<open>From the voice to the decoder\<close>

text \<open>
  C30. The speech of the game server is what the emulator decodes: if neither library fails and the
  emulator's Ogg reader finds in the buffer of a flushed writer the packets it was given (of a writer
  that was not flushed nothing is assumed), the emulator, with a decoder for the same rate and
  channels as the server's encoder, decodes exactly the 20 ms frames of the speech as this encoder
  encodes them, in order, and neither of the two headers.
\<close>

theorem speech_decodes:
  assumes "reliable c packets readPackets"
  shows "\<exists>d e0 e. newEncoder c 24000 1 = Inr e0 \<and> setBitrate c e0 16000 = Inr e \<and>
    encodePCMToOggOpus c pcm = Return d \<and>
    decodeOggOpus (\<lambda>rate ch. Inr (newDec rate ch)) decd readPackets d =
      Return (decoded_frames (\<lambda>st b. decd st b 4800) (newDec 24000 1)
        (encode_frames c e (map (frame pcm) [0..<length pcm div 480])))"
proof -
  obtain d hd tags e0 e where e: "newEncoder c 24000 1 = Inr e0" "setBitrate c e0 16000 = Inr e"
    and d: "encodePCMToOggOpus c pcm = Return d"
    and w: "readPackets d = [\<lparr>pkData = hd, pkGranule = 0, pkBOS = True, pkEOS = False\<rparr>,
      \<lparr>pkData = tags, pkGranule = 0, pkBOS = False, pkEOS = False\<rparr>]
      @ map (frame_packet (length pcm div 480))
          (enumerate 0 (encode_frames c e (map (frame pcm) [0..<length pcm div 480])))"
    using encode_written [OF assms, unfolded sampleRate_def channels_def opusBitrate_def] by blast
  have "map pkData (map (frame_packet n) (enumerate 0 fs)) = fs" for n fs
    by (simp add: frame_packet_def comp_def case_prod_unfold)
  then have "decodeOggOpus (\<lambda>rate ch. Inr (newDec rate ch)) decd readPackets d =
      Return (decoded_frames (\<lambda>st b. decd st b 4800) (newDec 24000 1)
        (encode_frames c e (map (frame pcm) [0..<length pcm div 480])))"
    using w by (simp add: decodeOggOpus_def decode_after_headers decode_packets_frames
        opusSampleRate_def opusFrameSize_def emuChannels_def del: decode_packets.simps)
  with e d show ?thesis by blast
qed

text \<open>A writer that holds all packets back until it is flushed, with readable bytes.\<close>

definition pack_codec :: "(unit, packet list \<times> packet list) codec" where
  "pack_codec = list_codec\<lparr>bufBytes := (\<lambda>(out, pending). concat (map pack out))\<rparr>"

theorem speech_decodes_witness:
  "\<exists>d e0 e. newEncoder pack_codec 24000 1 = Inr e0 \<and> setBitrate pack_codec e0 16000 = Inr e \<and>
    encodePCMToOggOpus pack_codec (replicate 1000 5) = Return d \<and>
    decodeOggOpus (\<lambda>rate ch. Inr ((\<lambda>rate ch. ()) rate ch)) (\<lambda>st b n. (Inr (map ucast b), st)) unpack_all d =
      Return (decoded_frames (\<lambda>st b. (Inr (map ucast b), st)) ()
        (encode_frames pack_codec e (map (frame (replicate 1000 5)) [0..<length (replicate 1000 (5 :: 16 word)) div 480])))"
  by (rule speech_decodes [of pack_codec "\<lambda>(out, pending). out @ pending" unpack_all
        "replicate 1000 5" "\<lambda>rate ch. ()" "\<lambda>st b n. (Inr (map ucast b), st)"])
    (simp add: reliable_def pack_codec_def list_codec_def unpack_pack del: map_append concat_append)

end
